(* ===== verification/Prelude.thy ===== *)
theory Prelude
  imports Main "HOL-Library.Monad_Syntax"
begin

text \<open>
  Shared vocabulary of the development: machine sizes, vectors whose out-of-range accesses
  fail the task, and the comparison results and stable sorting of the standard library.

  A Rust task failure (a failed bounds check, \<open>assert!\<close>, \<open>fail!\<close> or a call of
  \<open>sess.bug\<close>) is \<^const>\<open>None\<close>; so is a loop that does not return.  A theorem
  that ends in \<open>= Some _\<close> therefore says that the code returns and does not fail.
\<close>

named_theorems vec_simps \<open>reading and writing vectors\<close>

type_synonym uint = nat

text \<open>\<open>std::uint::MAX\<close> on a 64-bit target.\<close>

definition uint_max :: uint where
  "uint_max = 2 ^ 64 - 1"

text \<open>Sums, differences and products of \<open>uint\<close>s wrap around.\<close>

definition wadd :: "uint \<Rightarrow> uint \<Rightarrow> uint" where
  "wadd a b = (a + b) mod 2 ^ 64"

definition wsub :: "uint \<Rightarrow> uint \<Rightarrow> uint" where
  "wsub a b = (a + 2 ^ 64 - b) mod 2 ^ 64"

definition wmul :: "uint \<Rightarrow> uint \<Rightarrow> uint" where
  "wmul a b = (a * b) mod 2 ^ 64"

lemma wadd_exact: "a + b < 2 ^ 64 \<Longrightarrow> wadd a b = a + b"
  by (simp add: wadd_def)

lemma wsub_exact: "b \<le> a \<Longrightarrow> a < 2 ^ 64 \<Longrightarrow> wsub a b = a - b"
proof -
  assume "b \<le> a" "a < 2 ^ 64"
  then have "a + 2 ^ 64 - b = (a - b) + 2 ^ 64" "a - b < 2 ^ 64" by linarith+
  then show ?thesis by (simp only: wsub_def mod_add_self2 mod_less)
qed

lemma wmul_exact: "a * b < 2 ^ 64 \<Longrightarrow> wmul a b = a * b"
  by (simp add: wmul_def)

section \<open>Vectors\<close>

text \<open>\<open>Vec::get\<close> and \<open>Vec::get_mut\<close> check their index.\<close>

definition vec_get :: "'a list \<Rightarrow> nat \<Rightarrow> 'a option" where
  "vec_get xs i = (if i < length xs then Some (xs ! i) else None)"

definition vec_set :: "'a list \<Rightarrow> nat \<Rightarrow> 'a \<Rightarrow> 'a list option" where
  "vec_set xs i v = (if i < length xs then Some (xs[i := v]) else None)"

text \<open>\<open>Vec::pop\<close> takes the last element off.\<close>

definition vec_pop :: "'a list \<Rightarrow> ('a \<times> 'a list) option" where
  "vec_pop xs = (if xs = [] then None else Some (last xs, butlast xs))"

text \<open>\<open>swap\<close> of a slice checks both indices.\<close>

definition vec_swap :: "'a list \<Rightarrow> nat \<Rightarrow> nat \<Rightarrow> 'a list option" where
  "vec_swap xs i j =
     (if i < length xs \<and> j < length xs then Some (xs[i := xs ! j, j := xs ! i]) else None)"

lemma vec_get_Some [vec_simps]: "i < length xs \<Longrightarrow> vec_get xs i = Some (xs ! i)"
  by (simp add: vec_get_def)

lemma vec_get_None [vec_simps]: "length xs \<le> i \<Longrightarrow> vec_get xs i = None"
  by (simp add: vec_get_def)

lemma vec_get_eq_Some: "vec_get xs i = Some x \<longleftrightarrow> i < length xs \<and> xs ! i = x"
  by (auto simp: vec_get_def)

lemma vec_set_Some [vec_simps]: "i < length xs \<Longrightarrow> vec_set xs i v = Some (xs[i := v])"
  by (simp add: vec_set_def)

lemma vec_set_eq_Some: "vec_set xs i v = Some ys \<longleftrightarrow> i < length xs \<and> ys = xs[i := v]"
  by (auto simp: vec_set_def)

lemma vec_pop_snoc [simp]: "vec_pop (xs @ [x]) = Some (x, xs)"
  by (simp add: vec_pop_def)

lemma vec_pop_Nil [simp]: "vec_pop [] = None"
  by (simp add: vec_pop_def)

lemma those_map_Some [simp]: "those (map Some xs) = Some xs"
  by (induction xs) auto

lemma vec_numeral:
  "replicate (numeral k) x = x # replicate (pred_numeral k) x"
  "(y # ys)[numeral k := x] = y # ys[pred_numeral k := x]"
  by (simp_all add: numeral_eq_Suc)

lemma in_takeD: "y \<in> set (take p ys) \<Longrightarrow> \<exists>k < p. k < length ys \<and> y = ys ! k"
  by (auto simp: in_set_conv_nth)

lemma in_dropD:
  assumes "y \<in> set (drop p ys)"
  shows "\<exists>k \<ge> p. k < length ys \<and> y = ys ! k"
proof -
  from assms obtain i where "i < length ys - p" "y = ys ! (p + i)" by (auto simp: in_set_conv_nth)
  then show ?thesis by (intro exI [of _ "p + i"]) auto
qed

text \<open>Circular indices.\<close>

lemma mod_add_inj:
  fixes m :: nat
  assumes "i < n" "j < n" "(m + i) mod n = (m + j) mod n"
  shows "i = j"
proof -
  have "int n dvd int i - int j"
    using assms(3) by (metis add_diff_cancel_left mod_eq_dvd_iff of_nat_add zmod_int)
  then obtain k where k: "int i - int j = int n * k" by (auto simp: dvd_def)
  have "\<bar>int n * k\<bar> < int n" using assms(1,2) k by linarith
  moreover have "int n * 1 \<le> int n * \<bar>k\<bar>" if "k \<noteq> 0" using that by (intro mult_left_mono) auto
  ultimately have "k = 0" by (cases "k = 0") (auto simp: abs_mult)
  with k show ?thesis by simp
qed

section \<open>Ordering and stable sorting\<close>

text \<open>
  \<open>cmp::Ordering\<close>, and what the stable \<open>sort_by\<close> of the standard library computes:
  equal elements keep their order.
\<close>

datatype ordering = Less | Equal | Greater

text \<open>\<open>TotalOrd::cmp\<close> of a type is its linear order.\<close>

definition cmp :: "'a::linorder \<Rightarrow> 'a \<Rightarrow> ordering" where
  "cmp a b = (if a < b then Less else if a = b then Equal else Greater)"

lemma cmp_simps [simp]:
  "cmp a b = Less \<longleftrightarrow> a < b" "cmp a b = Equal \<longleftrightarrow> a = b" "cmp a b = Greater \<longleftrightarrow> b < a"
  by (auto simp: cmp_def)

lemma case_cmp:
  "(case cmp a b of Less \<Rightarrow> x | Equal \<Rightarrow> y | Greater \<Rightarrow> z) = (if a < b then x else if a = b then y else z)"
  by (simp add: cmp_def)

fun insert_by :: "('a \<Rightarrow> 'a \<Rightarrow> ordering) \<Rightarrow> 'a \<Rightarrow> 'a list \<Rightarrow> 'a list" where
  "insert_by compare x [] = [x]"
| "insert_by compare x (y # ys) = (if compare x y = Greater then y # insert_by compare x ys else x # y # ys)"

definition sort_by :: "('a \<Rightarrow> 'a \<Rightarrow> ordering) \<Rightarrow> 'a list \<Rightarrow> 'a list" where
  "sort_by compare xs = foldr (insert_by compare) xs []"

lemma set_insert_by [simp]: "set (insert_by compare x xs) = insert x (set xs)"
  by (induction xs) auto

lemma set_sort_by [simp]: "set (sort_by compare xs) = set xs"
  by (induction xs) (simp_all add: sort_by_def)

end
