(* ===== verification/Loops.thy ===== *)
theory Loops
  imports Prelude
begin

text \<open>
  The loop shapes shared by \<open>graph.rs\<close>, \<open>region.rs\<close> and
  \<open>region_inference/mod.rs\<close>.

  \<^item> \<open>sweep\<close> / \<open>iterate\<close>: run a body over every constraint, and again while some
    run of the body reported a change.
  \<^item> \<open>push_new\<close> / \<open>worklist\<close> / \<open>bfs_search\<close>: a vector that is both the work
    queue and the set of what has been seen; new elements are pushed at its end, an index
    walks over it.
\<close>

section \<open>Sweeping until nothing changes\<close>

fun sweep :: "('c \<Rightarrow> 's \<Rightarrow> (bool \<times> 's) option) \<Rightarrow> 'c list \<Rightarrow> 's \<Rightarrow> (bool \<times> 's) option" where
  "sweep body [] s = Some (False, s)"
| "sweep body (c # cs) s =
     do { (edge_changed, s1) \<leftarrow> body c s;
          (changed, s2) \<leftarrow> sweep body cs s1;
          Some (edge_changed \<or> changed, s2) }"

text \<open>The body sees the number of the iteration, counted from 1.\<close>

partial_function (option) iterate ::
  "(uint \<Rightarrow> 'c \<Rightarrow> 's \<Rightarrow> (bool \<times> 's) option) \<Rightarrow> 'c list \<Rightarrow> uint \<Rightarrow> 's \<Rightarrow> 's option" where
  "iterate op cs iteration s =
     (case sweep (op (Suc iteration)) cs s of
        None \<Rightarrow> None
      | Some (changed, s') \<Rightarrow> if changed then iterate op cs (Suc iteration) s' else Some s')"

text \<open>
  What a body must promise for the loop to end: it keeps an invariant and does not fail
  there, a reported change makes a measure smaller, and a step that reports nothing either
  leaves the state as it is or marks it \<open>bad\<close>, which no later step undoes.
\<close>

locale sweep_body =
  fixes op :: "uint \<Rightarrow> 'c \<Rightarrow> 's \<Rightarrow> (bool \<times> 's) option"
    and cs :: "'c list"
    and inv :: "'s \<Rightarrow> bool"
    and m :: "'s \<Rightarrow> nat"
    and bad :: "'s \<Rightarrow> bool"
  assumes runs: "inv s \<Longrightarrow> c \<in> set cs \<Longrightarrow> \<exists>b s'. op n c s = Some (b, s') \<and> inv s'"
    and progress: "inv s \<Longrightarrow> c \<in> set cs \<Longrightarrow> op n c s = Some (True, s') \<Longrightarrow> m s' < m s"
    and quiet: "inv s \<Longrightarrow> c \<in> set cs \<Longrightarrow> op n c s = Some (False, s') \<Longrightarrow>
                  m s' \<le> m s \<and> (s' = s \<or> bad s')"
    and bad_stays: "inv s \<Longrightarrow> c \<in> set cs \<Longrightarrow> bad s \<Longrightarrow> op n c s = Some (b, s') \<Longrightarrow> bad s'"
begin

lemma sweep_runs:
  "inv s \<Longrightarrow> set ds \<subseteq> set cs \<Longrightarrow>
     \<exists>b s'. sweep (op n) ds s = Some (b, s') \<and> inv s' \<and> (bad s \<longrightarrow> bad s') \<and>
       (if b then m s' < m s
        else m s' \<le> m s \<and> (bad s' \<or> s' = s \<and> (\<forall>c\<in>set ds. op n c s = Some (False, s))))"
proof (induction ds arbitrary: s)
  case Nil
  then show ?case by auto
next
  case (Cons c ds)
  then have c: "c \<in> set cs" by simp
  obtain b1 s1 where 1: "op n c s = Some (b1, s1)" "inv s1"
    using runs [OF Cons.prems(1) c] by blast
  obtain b2 s2 where 2: "sweep (op n) ds s1 = Some (b2, s2)" "inv s2" "bad s1 \<longrightarrow> bad s2"
    and d2: "if b2 then m s2 < m s1
        else m s2 \<le> m s1 \<and> (bad s2 \<or> s2 = s1 \<and> (\<forall>c\<in>set ds. op n c s1 = Some (False, s1)))"
    using Cons.IH [OF 1(2)] Cons.prems(2) by auto
  have d1: "if b1 then m s1 < m s else m s1 \<le> m s \<and> (s1 = s \<or> bad s1)"
    using progress [OF Cons.prems(1) c] quiet [OF Cons.prems(1) c] 1(1) by (cases b1) auto
  have "bad s \<longrightarrow> bad s1" using bad_stays [OF Cons.prems(1) c _ 1(1)] by blast
  moreover have "sweep (op n) (c # ds) s = Some (b1 \<or> b2, s2)" using 1 2 by simp
  ultimately show ?case using 1 2 d1 d2
    by (cases b1; cases b2) auto
qed

lemma iterate_stable:
  "inv s \<Longrightarrow> \<exists>s' k. iterate op cs n s = Some s' \<and> inv s' \<and> (bad s \<longrightarrow> bad s') \<and>
     (bad s' \<or> (\<forall>c\<in>set cs. op k c s' = Some (False, s')))"
proof (induction "m s" arbitrary: n s rule: less_induct)
  case less
  obtain b s1 where 1: "sweep (op (Suc n)) cs s = Some (b, s1)" "inv s1" "bad s \<longrightarrow> bad s1"
    and d: "if b then m s1 < m s
        else m s1 \<le> m s \<and> (bad s1 \<or> s1 = s \<and> (\<forall>c\<in>set cs. op (Suc n) c s = Some (False, s)))"
    using sweep_runs [OF less.prems, of cs "Suc n"] by auto
  show ?case
  proof (cases b)
    case True
    with d have "m s1 < m s" by simp
    from less.hyps [OF this 1(2), of "Suc n"] True 1 show ?thesis
      by (subst iterate.simps) auto
  next
    case False
    with 1 d show ?thesis
      by (subst iterate.simps) auto
  qed
qed

end

section \<open>A vector as queue and visited set\<close>

definition push_new :: "'a list \<Rightarrow> 'a \<Rightarrow> 'a list" where
  "push_new q x = (if x \<in> set q then q else q @ [x])"

partial_function (option) worklist ::
  "('a list \<Rightarrow> 'a \<Rightarrow> 'a list) \<Rightarrow> uint \<Rightarrow> 'a list \<Rightarrow> 'a list option" where
  "worklist visit i q =
     (if i < length q then worklist visit (Suc i) (visit q (q ! i)) else Some q)"

fun scan_parents :: "'a \<Rightarrow> 'a list \<Rightarrow> 'a list \<Rightarrow> bool \<times> 'a list" where
  "scan_parents goal [] q = (False, q)"
| "scan_parents goal (p # ps) q =
     (if p = goal then (True, q) else scan_parents goal ps (push_new q p))"

partial_function (option) bfs_search ::
  "('a \<Rightarrow> 'a list) \<Rightarrow> 'a \<Rightarrow> uint \<Rightarrow> 'a list \<Rightarrow> bool option" where
  "bfs_search nbrs goal i q =
     (if i < length q
      then (case scan_parents goal (nbrs (q ! i)) q of
              (found, q') \<Rightarrow> if found then Some True else bfs_search nbrs goal (Suc i) q')
      else Some False)"

text \<open>The relation the searches walk along.\<close>

definition nbr_rel :: "('a \<Rightarrow> 'a list) \<Rightarrow> ('a \<times> 'a) set" where
  "nbr_rel nbrs = {(x, y). y \<in> set (nbrs x)}"

lemma foldl_push_new:
  "distinct q \<Longrightarrow> distinct (foldl push_new q xs) \<and> set (foldl push_new q xs) = set q \<union> set xs \<and>
     (\<exists>r. foldl push_new q xs = q @ r)"
proof (induction xs arbitrary: q)
  case Nil
  then show ?case by simp
next
  case (Cons x xs)
  have "distinct (push_new q x)" "set (push_new q x) = insert x (set q)" "\<exists>r. push_new q x = q @ r"
    using Cons.prems by (auto simp: push_new_def)
  then show ?case using Cons.IH [of "push_new q x"] by fastforce
qed

lemma scan_parents_found: "goal \<in> set ps \<Longrightarrow> \<exists>q'. scan_parents goal ps q = (True, q')"
  by (induction ps arbitrary: q) auto

lemma scan_parents_missed:
  "goal \<notin> set ps \<Longrightarrow> scan_parents goal ps q = (False, foldl push_new q ps)"
  by (induction ps arbitrary: q) auto

lemma closed_reach: "a \<in> S \<Longrightarrow> (\<And>x y. x \<in> S \<Longrightarrow> (x, y) \<in> R \<Longrightarrow> y \<in> S) \<Longrightarrow> (a, b) \<in> R\<^sup>* \<Longrightarrow> b \<in> S"
  by (erule rtrancl_induct) auto

lemma all_less_Suc_append:
  "(\<And>j. j < i \<Longrightarrow> P (q ! j)) \<Longrightarrow> P (q ! i) \<Longrightarrow> i < length q \<Longrightarrow> j < Suc i \<Longrightarrow> P ((q @ r) ! j)"
  by (auto simp: nth_append less_Suc_eq)

text \<open>
  The worklist visits what can be reached.  Elements are told apart by an abstraction
  \<open>f\<close>, for the passes whose notion of equality is coarser than identity.
\<close>

lemma worklist_reach:
  assumes ext: "\<And>q x. \<exists>r. visit q x = q @ r"
    and visit: "\<And>q x. map f (visit q x) = foldl push_new (map f q) (nbrs (f x))"
    and U: "finite U" "\<And>x. x \<in> U \<Longrightarrow> set (nbrs x) \<subseteq> U" "f a \<in> U"
  shows "\<exists>q. worklist visit 0 [a] = Some q \<and> distinct (map f q) \<and> hd q = a \<and>
             f ` set q = {b. (f a, b) \<in> (nbr_rel nbrs)\<^sup>*}"
proof -
  let ?R = "{b. (f a, b) \<in> (nbr_rel nbrs)\<^sup>*}"
  have "\<exists>q'. worklist visit i (a # q) = Some q' \<and> distinct (map f q') \<and> hd q' = a \<and> f ` set q' = ?R"
    if "distinct (map f (a # q))" "i \<le> length (a # q)" "f ` set (a # q) \<subseteq> U"
      "f ` set (a # q) \<subseteq> ?R"
      "\<And>j. j < i \<Longrightarrow> set (nbrs (f ((a # q) ! j))) \<subseteq> f ` set (a # q)" for i q
    using that
  proof (induction "card U - i" arbitrary: i q rule: less_induct)
    case less
    let ?q = "a # q"
    show ?case
    proof (cases "i < length ?q")
      case False
      with less.prems(2) have i: "i = length ?q" by simp
      have closed: "y \<in> f ` set ?q" if xy: "x \<in> f ` set ?q" "(x, y) \<in> nbr_rel nbrs" for x y
      proof -
        obtain y where "y \<in> set ?q" and x: "x = f y" using xy(1) by blast
        then obtain j where j: "j < i" "?q ! j = y" unfolding i by (auto simp only: in_set_conv_nth)
        from less.prems(5) [OF j(1)] xy(2) show ?thesis unfolding j(2) x nbr_rel_def by blast
      qed
      have "b \<in> f ` set ?q" if "(f a, b) \<in> (nbr_rel nbrs)\<^sup>*" for b
        using closed_reach [OF _ closed that] by simp
      with less.prems(4) have "f ` set ?q = ?R" by blast
      with False less.prems(1) show ?thesis by (subst worklist.simps) simp
    next
      case True
      let ?x = "?q ! i"
      have x: "?x \<in> set ?q" using True nth_mem by blast
      obtain r where r: "visit ?q ?x = ?q @ r" using ext by blast
      have r': "distinct (map f (?q @ r))" "f ` set (?q @ r) = f ` set ?q \<union> set (nbrs (f ?x))"
        using foldl_push_new [OF less.prems(1), of "nbrs (f ?x)"] visit [of ?q ?x]
        unfolding r by (metis, metis list.set_map)
      have reach: "set (nbrs (f ?x)) \<subseteq> ?R"
        using x less.prems(4) by (auto simp: nbr_rel_def intro: rtrancl_into_rtrancl)
      have "length ?q \<le> card U"
        using less.prems(1,3) U(1) by (metis card_mono distinct_card length_map list.set_map)
      with True have dec: "card U - Suc i < card U - i" by linarith
      have past: "set (nbrs (f ((?q @ r) ! j))) \<subseteq> f ` set (?q @ r)" if "j < Suc i" for j
        using all_less_Suc_append [of i "\<lambda>y. set (nbrs (f y)) \<subseteq> f ` set (?q @ r)" ?q j r]
          less.prems(5) r'(2) True that by blast
      have sub: "f ` set (?q @ r) \<subseteq> U" "f ` set (?q @ r) \<subseteq> ?R"
        using r'(2) reach less.prems(3,4) U(2) x by blast+
      have "\<exists>q'. worklist visit (Suc i) (?q @ r) = Some q' \<and> distinct (map f q') \<and> hd q' = a \<and> f ` set q' = ?R"
        using less.hyps [OF dec, of "q @ r"] r'(1) sub past True by simp
      with True r show ?thesis by (subst worklist.simps) simp
    qed
  qed
  from this [of "[]" 0] U(3) show ?thesis by simp
qed

lemma bfs_search_reach:
  assumes U: "finite U" "\<And>x. x \<in> U \<Longrightarrow> set (nbrs x) \<subseteq> U" "a \<in> U" and ne: "a \<noteq> goal"
  shows "bfs_search nbrs goal 0 [a] = Some ((a, goal) \<in> (nbr_rel nbrs)\<^sup>*)"
proof -
  have "bfs_search nbrs goal i q = Some ((a, goal) \<in> (nbr_rel nbrs)\<^sup>*)"
    if "distinct q" "i \<le> length q" "set q \<subseteq> U" "a \<in> set q" "goal \<notin> set q"
      "set q \<subseteq> {b. (a, b) \<in> (nbr_rel nbrs)\<^sup>*}"
      "\<And>j. j < i \<Longrightarrow> set (nbrs (q ! j)) \<subseteq> set q" for i q
    using that
  proof (induction "card U - i" arbitrary: i q rule: less_induct)
    case less
    show ?case
    proof (cases "i < length q")
      case False
      with less.prems(2) have i: "i = length q" by simp
      have closed: "y \<in> set q" if "x \<in> set q" "(x, y) \<in> nbr_rel nbrs" for x y
        using that less.prems(7) unfolding in_set_conv_nth [of x] nbr_rel_def i by blast
      have "b \<in> set q" if "(a, b) \<in> (nbr_rel nbrs)\<^sup>*" for b
        using closed_reach [OF less.prems(4) closed that] by simp
      with less.prems(5) have "(a, goal) \<notin> (nbr_rel nbrs)\<^sup>*" by blast
      with False show ?thesis by (subst bfs_search.simps) simp
    next
      case True
      let ?x = "q ! i"
      have x: "?x \<in> set q" using True nth_mem by blast
      have reach: "set (nbrs ?x) \<subseteq> {b. (a, b) \<in> (nbr_rel nbrs)\<^sup>*}"
        using x less.prems(6) by (auto simp: nbr_rel_def intro: rtrancl_into_rtrancl)
      show ?thesis
      proof (cases "goal \<in> set (nbrs ?x)")
        case found: True
        with reach have "(a, goal) \<in> (nbr_rel nbrs)\<^sup>*" by auto
        with scan_parents_found [OF found, of q] True show ?thesis
          by (subst bfs_search.simps) auto
      next
        case notf: False
        obtain r where r: "foldl push_new q (nbrs ?x) = q @ r"
          and r': "distinct (q @ r)" "set (q @ r) = set q \<union> set (nbrs ?x)"
          using foldl_push_new [OF less.prems(1), of "nbrs ?x"] by auto
        have "length q \<le> card U"
          using less.prems(1,3) U(1) by (metis card_mono distinct_card)
        with True have dec: "card U - Suc i < card U - i" by linarith
        have past: "\<And>j. j < Suc i \<Longrightarrow> set (nbrs ((q @ r) ! j)) \<subseteq> set (q @ r)"
          using all_less_Suc_append [of i "\<lambda>y. set (nbrs y) \<subseteq> set (q @ r)" q] less.prems(7) r'(2) True
          by blast
        have sub: "set (q @ r) \<subseteq> U" "set (q @ r) \<subseteq> {b. (a, b) \<in> (nbr_rel nbrs)\<^sup>*}"
          "goal \<notin> set (q @ r)"
          using r'(2) reach less.prems(3,5,6) U(2) x notf by blast+
        have "bfs_search nbrs goal (Suc i) (q @ r) = Some ((a, goal) \<in> (nbr_rel nbrs)\<^sup>*)"
          using less.hyps [OF dec, of "q @ r"] r'(1) sub past less.prems(4) True by simp
        with True r show ?thesis
          by (subst bfs_search.simps) (simp add: scan_parents_missed [OF notf])
      qed
    qed
  qed
  from this [of "[a]" 0] U(3) ne show ?thesis by simp
qed

end
