(* ===== verification/Regions.thy ===== *)
theory Regions
  imports Loops "HOL-Library.Product_Lexorder"
begin

text \<open>
  Regions as \<open>librustc/middle/ty.rs\<close> declares them.  Structs with one field that is
  only compared (\<open>RegionVid\<close>, \<open>NodeId\<close>, \<open>Name\<close>) are natural numbers; the
  order on free regions is the one \<open>deriving(TotalOrd)\<close> generates, which compares
  constructors in declaration order and then fields from left to right.
\<close>

section \<open>Types\<close>

type_synonym node_id = nat
type_synonym name = nat
type_synonym region_vid = uint

datatype def_id = DefId (krate: nat) (def_node: node_id)

datatype bound_region =
    BrAnon uint
  | BrNamed def_id name
  | BrFresh uint

datatype free_region = FreeRegion (scope_id: node_id) (bound_region: bound_region)

datatype infer_region =
    ReVar region_vid
  | ReSkolemized uint bound_region

datatype region =
    ReEarlyBound node_id uint name
  | ReLateBound node_id bound_region
  | ReFree free_region
  | ReScope node_id
  | ReStatic
  | ReInfer infer_region
  | ReEmpty

section \<open>Comparison\<close>

text \<open>The position of the constructor, then the fields.\<close>

fun br_key :: "bound_region \<Rightarrow> nat \<times> nat \<times> nat \<times> nat" where
  "br_key (BrAnon n) = (0, n, 0, 0)"
| "br_key (BrNamed d nm) = (1, krate d, def_node d, nm)"
| "br_key (BrFresh n) = (2, n, 0, 0)"

lemma br_key_inj: "br_key a = br_key b \<Longrightarrow> a = b"
  by (cases a; cases b) (auto intro: def_id.expand)

lemma free_region_eqI:
  "scope_id a = scope_id b \<Longrightarrow> br_key (bound_region a) = br_key (bound_region b) \<Longrightarrow> a = b"
  by (intro free_region.expand) (auto dest: br_key_inj)

instantiation free_region :: linorder
begin

definition less_eq_free_region :: "free_region \<Rightarrow> free_region \<Rightarrow> bool" where
  "a \<le> b \<longleftrightarrow> (scope_id a, br_key (bound_region a)) \<le> (scope_id b, br_key (bound_region b))"

definition less_free_region :: "free_region \<Rightarrow> free_region \<Rightarrow> bool" where
  "a < b \<longleftrightarrow> (scope_id a, br_key (bound_region a)) < (scope_id b, br_key (bound_region b))"

instance
  by standard
    (auto simp: less_eq_free_region_def less_free_region_def intro: free_region_eqI)

end

text \<open>
  \<open>impl cmp::Eq for InferRegion\<close>: two skolemized regions are equal when their numbers
  are, whatever the bound regions they stand for.  The derived equality of \<open>Region\<close>
  uses it, so \<open>==\<close> on regions is coarser than identity.
\<close>

fun infer_region_eq :: "infer_region \<Rightarrow> infer_region \<Rightarrow> bool" where
  "infer_region_eq (ReVar rva) (ReVar rvb) = (rva = rvb)"
| "infer_region_eq (ReSkolemized rva _) (ReSkolemized rvb _) = (rva = rvb)"
| "infer_region_eq _ _ = False"

fun region_eq :: "region \<Rightarrow> region \<Rightarrow> bool" where
  "region_eq (ReInfer a) (ReInfer b) = infer_region_eq a b"
| "region_eq a b = (a = b)"

text \<open>A representative of the class of equal regions.\<close>

fun canon :: "region \<Rightarrow> region" where
  "canon (ReInfer (ReSkolemized n br)) = ReInfer (ReSkolemized n (BrAnon 0))"
| "canon r = r"

lemma region_eq_canon: "region_eq a b \<longleftrightarrow> canon a = canon b"
  by (cases a rule: canon.cases; cases b rule: canon.cases) auto

lemma region_eq_refl [simp]: "region_eq a a"
  by (simp add: region_eq_canon)

lemma region_eq_sym: "region_eq a b \<Longrightarrow> region_eq b a"
  by (simp add: region_eq_canon)

lemma region_eq_trans: "region_eq a b \<Longrightarrow> region_eq b c \<Longrightarrow> region_eq a c"
  by (simp add: region_eq_canon)

lemma region_eq_simps [simp]:
  "region_eq (ReFree f) r = (r = ReFree f)" "region_eq r (ReFree f) = (r = ReFree f)"
  "region_eq (ReScope s) r = (r = ReScope s)" "region_eq r (ReScope s) = (r = ReScope s)"
  "region_eq ReStatic r = (r = ReStatic)" "region_eq r ReStatic = (r = ReStatic)"
  "region_eq ReEmpty r = (r = ReEmpty)" "region_eq r ReEmpty = (r = ReEmpty)"
  "region_eq (ReInfer (ReVar v)) r = (r = ReInfer (ReVar v))"
  "region_eq r (ReInfer (ReVar v)) = (r = ReInfer (ReVar v))"
  by (cases r; auto elim: infer_region_eq.elims)+

end
