(* ===== verification/RegionMaps.thy ===== *)
theory RegionMaps
  imports Regions
begin

text \<open>
  The region maps of \<open>librustc/middle/region.rs\<close>: the tree of lexical scopes, the
  scopes of variables and temporaries, and the relation between free regions.  Each method
  of \<open>impl RegionMaps\<close> is one definition; the mutable cells are fields of a record that
  the recording methods return updated.
\<close>

section \<open>State\<close>

record region_maps =
  scope_map :: "node_id \<rightharpoonup> node_id"
  var_map :: "node_id \<rightharpoonup> node_id"
  free_region_map :: "free_region \<rightharpoonup> free_region list"
  rvalue_scopes :: "node_id \<rightharpoonup> node_id"
  terminating_scopes :: "node_id set"

section \<open>Recording\<close>

definition relate_free_regions :: "region_maps \<Rightarrow> free_region \<Rightarrow> free_region \<Rightarrow> region_maps" where
  "relate_free_regions rm sub super =
     (case free_region_map rm sub of
        Some sups \<Rightarrow>
          if super \<in> set sups then rm
          else rm\<lparr>free_region_map := (free_region_map rm)(sub \<mapsto> sups @ [super])\<rparr>
      | None \<Rightarrow> rm\<lparr>free_region_map := (free_region_map rm)(sub \<mapsto> [super])\<rparr>)"

definition record_encl_scope :: "region_maps \<Rightarrow> node_id \<Rightarrow> node_id \<Rightarrow> region_maps option" where
  "record_encl_scope rm sub super =
     (if sub \<noteq> super then Some (rm\<lparr>scope_map := (scope_map rm)(sub \<mapsto> super)\<rparr>) else None)"

definition record_var_scope :: "region_maps \<Rightarrow> node_id \<Rightarrow> node_id \<Rightarrow> region_maps option" where
  "record_var_scope rm var lifetime =
     (if var \<noteq> lifetime then Some (rm\<lparr>var_map := (var_map rm)(var \<mapsto> lifetime)\<rparr>) else None)"

definition record_rvalue_scope :: "region_maps \<Rightarrow> node_id \<Rightarrow> node_id \<Rightarrow> region_maps option" where
  "record_rvalue_scope rm var lifetime =
     (if var \<noteq> lifetime then Some (rm\<lparr>rvalue_scopes := (rvalue_scopes rm)(var \<mapsto> lifetime)\<rparr>)
      else None)"

definition mark_as_terminating_scope :: "region_maps \<Rightarrow> node_id \<Rightarrow> region_maps" where
  "mark_as_terminating_scope rm scope = rm\<lparr>terminating_scopes := insert scope (terminating_scopes rm)\<rparr>"

section \<open>Queries\<close>

definition opt_encl_scope :: "region_maps \<Rightarrow> node_id \<Rightarrow> node_id option" where
  "opt_encl_scope rm i = scope_map rm i"

text \<open>\<open>None\<close> is the failure \<open>no enclosing scope for id\<close>.\<close>

definition encl_scope :: "region_maps \<Rightarrow> node_id \<Rightarrow> node_id option" where
  "encl_scope rm i = (case scope_map rm i of Some r \<Rightarrow> Some r | None \<Rightarrow> None)"

definition var_scope :: "region_maps \<Rightarrow> node_id \<Rightarrow> node_id option" where
  "var_scope rm i = (case var_map rm i of Some r \<Rightarrow> Some r | None \<Rightarrow> None)"

text \<open>
  The \<open>while\<close> loop of \<open>temporary_scope\<close>.  The outer option is failure to return,
  the inner one the \<open>Option\<close> of the source.
\<close>

partial_function (option) temporary_scope_loop ::
  "region_maps \<Rightarrow> node_id \<Rightarrow> node_id option option" where
  "temporary_scope_loop rm i =
     (if i \<notin> terminating_scopes rm
      then (case opt_encl_scope rm i of
              Some p \<Rightarrow> temporary_scope_loop rm p
            | None \<Rightarrow> Some None)
      else Some (Some i))"

definition temporary_scope :: "region_maps \<Rightarrow> node_id \<Rightarrow> node_id option option" where
  "temporary_scope rm expr_id =
     (case rvalue_scopes rm expr_id of
        Some s \<Rightarrow> Some (Some s)
      | None \<Rightarrow>
          (case opt_encl_scope rm expr_id of
             Some i \<Rightarrow> temporary_scope_loop rm i
           | None \<Rightarrow> Some None))"

definition var_region :: "region_maps \<Rightarrow> node_id \<Rightarrow> region option" where
  "var_region rm i = map_option ReScope (var_scope rm i)"

partial_function (option) is_subscope_of :: "region_maps \<Rightarrow> node_id \<Rightarrow> node_id \<Rightarrow> bool option" where
  "is_subscope_of rm s superscope =
     (if superscope \<noteq> s
      then (case scope_map rm s of
              None \<Rightarrow> Some False
            | Some scope \<Rightarrow> is_subscope_of rm scope superscope)
      else Some True)"

definition scopes_intersect :: "region_maps \<Rightarrow> node_id \<Rightarrow> node_id \<Rightarrow> bool option" where
  "scopes_intersect rm scope1 scope2 =
     do { b \<leftarrow> is_subscope_of rm scope1 scope2;
          if b then Some True else is_subscope_of rm scope2 scope1 }"

definition free_region_parents :: "region_maps \<Rightarrow> free_region \<Rightarrow> free_region list" where
  "free_region_parents rm fr =
     (case free_region_map rm fr of Some parents \<Rightarrow> parents | None \<Rightarrow> [])"

definition sub_free_region :: "region_maps \<Rightarrow> free_region \<Rightarrow> free_region \<Rightarrow> bool option" where
  "sub_free_region rm sub super =
     (if sub = super then Some True
      else bfs_search (free_region_parents rm) super 0 [sub])"

definition is_subregion_of :: "region_maps \<Rightarrow> region \<Rightarrow> region \<Rightarrow> bool option" where
  "is_subregion_of rm sub_region super_region =
     (if region_eq sub_region super_region then Some True
      else case (sub_region, super_region) of
             (_, ReStatic) \<Rightarrow> Some True
           | (ReScope sub_scope, ReScope super_scope) \<Rightarrow> is_subscope_of rm sub_scope super_scope
           | (ReScope sub_scope, ReFree fr) \<Rightarrow> is_subscope_of rm sub_scope (scope_id fr)
           | (ReFree sub_fr, ReFree super_fr) \<Rightarrow> sub_free_region rm sub_fr super_fr
           | _ \<Rightarrow> Some False)"

text \<open>\<open>ancestors_of\<close>: the scope and its enclosing scopes, narrowest first.\<close>

partial_function (option) ancestors_loop ::
  "region_maps \<Rightarrow> node_id list \<Rightarrow> node_id \<Rightarrow> node_id list option" where
  "ancestors_loop rm result scope =
     (case scope_map rm scope of
        None \<Rightarrow> Some result
      | Some superscope \<Rightarrow> ancestors_loop rm (result @ [superscope]) superscope)"

definition ancestors_of :: "region_maps \<Rightarrow> node_id \<Rightarrow> node_id list option" where
  "ancestors_of rm scope = ancestors_loop rm [scope] scope"

function nca_loop ::
  "node_id \<Rightarrow> node_id \<Rightarrow> node_id list \<Rightarrow> node_id list \<Rightarrow> uint \<Rightarrow> uint \<Rightarrow> node_id option option" where
  "nca_loop scope_a scope_b a_ancestors b_ancestors a_index b_index =
     (if a_index = 0 then Some (Some scope_a)
      else if b_index = 0 then Some (Some scope_b)
      else do {
        let a_index = a_index - 1;
        let b_index = b_index - 1;
        a \<leftarrow> vec_get a_ancestors a_index;
        b \<leftarrow> vec_get b_ancestors b_index;
        if a \<noteq> b then map_option Some (vec_get a_ancestors (a_index + 1))
        else nca_loop scope_a scope_b a_ancestors b_ancestors a_index b_index })"
  by pat_completeness auto
termination by (relation "measure (\<lambda>(sa, sb, as, bs, ai, bi). ai)") auto

declare nca_loop.simps [simp del]

definition nearest_common_ancestor ::
  "region_maps \<Rightarrow> node_id \<Rightarrow> node_id \<Rightarrow> node_id option option" where
  "nearest_common_ancestor rm scope_a scope_b =
     (if scope_a = scope_b then Some (Some scope_a)
      else do {
        a_ancestors \<leftarrow> ancestors_of rm scope_a;
        b_ancestors \<leftarrow> ancestors_of rm scope_b;
        let a_index = length a_ancestors - 1;
        let b_index = length b_ancestors - 1;
        a \<leftarrow> vec_get a_ancestors a_index;
        b \<leftarrow> vec_get b_ancestors b_index;
        if a \<noteq> b then Some None
        else nca_loop scope_a scope_b a_ancestors b_ancestors a_index b_index })"

section \<open>The scope tree\<close>

text \<open>One step outwards, and the reflexive transitive closure of it.\<close>

definition up :: "region_maps \<Rightarrow> (node_id \<times> node_id) set" where
  "up rm = {(c, p). scope_map rm c = Some p}"

abbreviation encloses :: "region_maps \<Rightarrow> node_id \<Rightarrow> node_id \<Rightarrow> bool" where
  "encloses rm s c \<equiv> (c, s) \<in> (up rm)\<^sup>*"

text \<open>Going outwards ends.\<close>

definition scopes_wf :: "region_maps \<Rightarrow> bool" where
  "scopes_wf rm \<longleftrightarrow> wf ((up rm)\<inverse>)"

lemma up_det: "(c, p) \<in> up rm \<Longrightarrow> (c, q) \<in> up rm \<Longrightarrow> p = q"
  by (simp add: up_def)

lemma up_step: "(c, s) \<in> (up rm)\<^sup>* \<longleftrightarrow> c = s \<or> (\<exists>p. scope_map rm c = Some p \<and> (p, s) \<in> (up rm)\<^sup>*)"
  by (auto simp: up_def elim: converse_rtranclE intro: converse_rtrancl_into_rtrancl)

lemma scope_induct [consumes 1, case_names outer]:
  assumes "scopes_wf rm"
    and "\<And>c. (\<And>p. scope_map rm c = Some p \<Longrightarrow> P p) \<Longrightarrow> P c"
  shows "P c"
  using assms(1) unfolding scopes_wf_def
proof (induction c rule: wf_induct_rule)
  case (less c)
  show ?case by (rule assms(2)) (auto intro: less simp: up_def)
qed

lemma is_subscope_of_eq:
  assumes "scopes_wf rm"
  shows "is_subscope_of rm s t = Some (encloses rm t s)"
  using assms
proof (induction s rule: scope_induct)
  case (outer s)
  show ?case
    using outer by (subst is_subscope_of.simps) (auto simp: up_step [of s] split: option.split)
qed

lemma scopes_wf_antisym:
  assumes "scopes_wf rm" "(a, b) \<in> (up rm)\<^sup>*" "(b, a) \<in> (up rm)\<^sup>*"
  shows "a = b"
proof -
  have "acyclic ((up rm)\<inverse>)" using assms(1) unfolding scopes_wf_def by (rule wf_acyclic)
  then have "antisym ((up rm)\<^sup>*)" by (metis acyclic_converse acyclic_impl_antisym_rtrancl)
  then show ?thesis using assms(2,3) by (simp add: antisym_def)
qed

section \<open>Ancestor vectors\<close>

fun chain :: "region_maps \<Rightarrow> node_id list \<Rightarrow> bool" where
  "chain rm [] = False"
| "chain rm [x] = (scope_map rm x = None)"
| "chain rm (x # y # zs) = (scope_map rm x = Some y \<and> chain rm (y # zs))"

lemma chain_unique: "chain rm (x # xs) \<Longrightarrow> chain rm (x # ys) \<Longrightarrow> xs = ys"
proof (induction xs arbitrary: x ys)
  case Nil
  then show ?case by (cases ys) auto
next
  case (Cons y xs)
  then show ?case by (cases ys) auto
qed

lemma chain_drop: "chain rm xs \<Longrightarrow> i < length xs \<Longrightarrow> chain rm (drop i xs)"
proof (induction xs arbitrary: i rule: chain.induct)
  case (3 rm x y zs)
  then show ?case by (cases i) auto
qed auto

lemma chain_set: "chain rm (x # xs) \<Longrightarrow> set (x # xs) = {y. (x, y) \<in> (up rm)\<^sup>*}"
proof (induction xs arbitrary: x)
  case Nil
  then show ?case using up_step [of x] by auto
next
  case (Cons y ys)
  then have "scope_map rm x = Some y" and "set (y # ys) = {z. (y, z) \<in> (up rm)\<^sup>*}" by auto
  then show ?case using up_step [of x _ rm] by auto
qed

lemma chain_set_hd: "chain rm xs \<Longrightarrow> set xs = {y. (hd xs, y) \<in> (up rm)\<^sup>*}"
  using chain_set [of rm "hd xs" "tl xs"] by (cases xs) auto

lemma ancestors_loop_chain:
  assumes "scopes_wf rm"
  shows "\<exists>xs. ancestors_loop rm (acc @ [s]) s = Some (acc @ s # xs) \<and> chain rm (s # xs)"
  using assms
proof (induction s arbitrary: acc rule: scope_induct)
  case (outer s)
  show ?case
  proof (cases "scope_map rm s")
    case None
    then show ?thesis by (subst ancestors_loop.simps) auto
  next
    case (Some p)
    from outer.IH [OF this, of "acc @ [s]"] obtain xs
      where "ancestors_loop rm ((acc @ [s]) @ [p]) p = Some ((acc @ [s]) @ p # xs)" "chain rm (p # xs)"
      by blast
    with Some show ?thesis by (subst ancestors_loop.simps) auto
  qed
qed

lemma ancestors_of_chain:
  assumes "scopes_wf rm"
  obtains xs where "ancestors_of rm s = Some (s # xs)" "chain rm (s # xs)"
  using ancestors_loop_chain [OF assms, of "[]" s] by (auto simp: ancestors_of_def)

lemma chain_aligned:
  assumes "chain rm as" "chain rm bs" "i < length as" "j < length bs" "as ! i = bs ! j"
  shows "drop i as = drop j bs"
  using chain_drop [OF assms(1,3)] chain_drop [OF assms(2,4)] assms(3-5)
  by (metis Cons_nth_drop_Suc chain_unique)

lemma chain_nth_up:
  assumes "chain rm as" "i \<le> j" "j < length as"
  shows "(as ! i, as ! j) \<in> (up rm)\<^sup>*"
proof -
  have i: "i < length as" using assms by simp
  have "drop i as = as ! i # drop (Suc i) as" using i by (simp add: Cons_nth_drop_Suc)
  then have "set (drop i as) = {y. (as ! i, y) \<in> (up rm)\<^sup>*}"
    using chain_drop [OF assms(1) i] chain_set by metis
  moreover have "as ! j \<in> set (drop i as)"
    using assms(2,3) by (metis le_add_diff_inverse length_drop nth_drop nth_mem diff_less_mono i add_diff_cancel_left' less_imp_le_nat)
  ultimately show ?thesis by blast
qed

text \<open>
  What \<open>nearest_common_ancestor\<close> promises: the narrowest scope that encloses both, or
  nothing when no scope does.
\<close>

definition nearest_common :: "region_maps \<Rightarrow> node_id \<Rightarrow> node_id \<Rightarrow> node_id option \<Rightarrow> bool" where
  "nearest_common rm a b r \<longleftrightarrow>
     (case r of
        None \<Rightarrow> \<not> (\<exists>c. encloses rm c a \<and> encloses rm c b)
      | Some c \<Rightarrow> encloses rm c a \<and> encloses rm c b \<and>
                  (\<forall>d. encloses rm d a \<longrightarrow> encloses rm d b \<longrightarrow> encloses rm d c))"

lemma nearest_common_suffix:
  assumes as: "chain rm as" "hd as = a" and bs: "chain rm bs" "hd bs = b"
    and i: "i < length as" and j: "j < length bs" and eq: "drop i as = drop j bs"
    and max: "i = 0 \<or> j = 0 \<or> as ! (i - 1) \<noteq> bs ! (j - 1)"
  shows "nearest_common rm a b (Some (as ! i))"
proof -
  have sa: "set as = {y. (a, y) \<in> (up rm)\<^sup>*}" and sb: "set bs = {y. (b, y) \<in> (up rm)\<^sup>*}"
    using chain_set_hd as bs by blast+
  have hd_eq: "as ! i = bs ! j" using eq i j by (metis Cons_nth_drop_Suc list.inject)
  have "(as ! i, d) \<in> (up rm)\<^sup>*" if d: "d \<in> set as" "d \<in> set bs" for d
  proof -
    obtain k l where k: "k < length as" "as ! k = d" and l: "l < length bs" "bs ! l = d"
      using d by (auto simp: in_set_conv_nth)
    have dr: "drop k as = drop l bs" using chain_aligned [OF as(1) bs(1) k(1) l(1)] k l by simp
    have len: "length as - k = length bs - l" "length as - i = length bs - j"
      using arg_cong [OF dr, of length] arg_cong [OF eq, of length] by simp_all
    have "i \<le> k"
    proof (rule ccontr)
      assume "\<not> i \<le> k"
      then have ki: "k < i" and lj: "l < j" using len k l i j by auto
      have "i - 1 - k = j - 1 - l" using len ki lj i j k(1) l(1) by arith
      with dr have "drop k as ! (i - 1 - k) = drop l bs ! (j - 1 - l)" by simp
      then have "as ! (i - 1) = bs ! (j - 1)" using ki lj i j by simp
      with max ki lj show False by simp
    qed
    then show ?thesis using chain_nth_up [OF as(1) _ k(1)] k by simp
  qed
  then show ?thesis
    using sa sb nth_mem [OF i] nth_mem [OF j] hd_eq by (auto simp: nearest_common_def)
qed

lemma nca_loop_nearest:
  assumes "chain rm as" "hd as = a" "chain rm bs" "hd bs = b"
    and "i < length as" "j < length bs" "drop i as = drop j bs"
  shows "\<exists>r. nca_loop a b as bs i j = Some (Some r) \<and> nearest_common rm a b (Some r)"
  using assms(5-7)
proof (induction i arbitrary: j)
  case 0
  moreover have "as ! 0 = a" using assms(2) 0 by (simp add: hd_conv_nth)
  ultimately show ?case
    using nearest_common_suffix [OF assms(1-4) 0] by (subst nca_loop.simps) simp
next
  case (Suc i)
  have eq: "as ! Suc i = bs ! j" using Suc.prems by (metis Cons_nth_drop_Suc list.inject)
  show ?case
  proof (cases j)
    case 0
    moreover have "bs ! 0 = b" using assms(4) Suc.prems 0 by (simp add: hd_conv_nth)
    ultimately show ?thesis
      using nearest_common_suffix [OF assms(1-4) Suc.prems] eq by (subst nca_loop.simps) simp
  next
    case (Suc k)
    have lt: "i < length as" "k < length bs" using Suc.prems \<open>j = Suc k\<close> by auto
    show ?thesis
    proof (cases "as ! i = bs ! k")
      case True
      with lt Suc.prems(3) have "drop i as = drop k bs"
        by (simp add: \<open>j = Suc k\<close> Cons_nth_drop_Suc [symmetric])
      from Suc.IH [OF lt this] True lt show ?thesis
        by (subst nca_loop.simps) (simp add: \<open>j = Suc k\<close> vec_simps)
    next
      case False
      then show ?thesis
        using nearest_common_suffix [OF assms(1-4) Suc.prems] lt Suc.prems
        by (subst nca_loop.simps) (simp add: \<open>j = Suc k\<close> vec_simps)
    qed
  qed
qed

lemma nearest_common_ancestor_ok:
  assumes wf: "scopes_wf rm"
  shows "\<exists>r. nearest_common_ancestor rm a b = Some r \<and> nearest_common rm a b r"
proof (cases "a = b")
  case True
  then show ?thesis by (auto simp: nearest_common_ancestor_def nearest_common_def)
next
  case False
  obtain xs where xs: "ancestors_of rm a = Some (a # xs)" "chain rm (a # xs)"
    using ancestors_of_chain [OF wf] .
  obtain ys where ys: "ancestors_of rm b = Some (b # ys)" "chain rm (b # ys)"
    using ancestors_of_chain [OF wf] .
  show ?thesis
  proof (cases "(a # xs) ! length xs = (b # ys) ! length ys")
    case True
    have "drop (length xs) (a # xs) = drop (length ys) (b # ys)"
      by (rule chain_aligned [OF xs(2) ys(2)]) (use True in auto)
    from nca_loop_nearest [OF xs(2) _ ys(2) _ _ _ this, of a b] True False show ?thesis
      by (auto simp: nearest_common_ancestor_def xs ys vec_simps)
  next
    case False
    have "\<not> (\<exists>c. c \<in> set (a # xs) \<and> c \<in> set (b # ys))"
    proof
      assume "\<exists>c. c \<in> set (a # xs) \<and> c \<in> set (b # ys)"
      then obtain i j where "i < length (a # xs)" "j < length (b # ys)" "(a # xs) ! i = (b # ys) ! j"
        by (auto simp only: in_set_conv_nth)
      then have dr: "drop i (a # xs) = drop j (b # ys)" by (rule chain_aligned [OF xs(2) ys(2)])
      have "last (a # xs) = last (b # ys)"
        using dr \<open>i < _\<close> \<open>j < _\<close> by (metis last_drop)
      then show False
        using False last_conv_nth [of "a # xs"] last_conv_nth [of "b # ys"] by simp
    qed
    with False \<open>a \<noteq> b\<close> show ?thesis
      using chain_set [OF xs(2)] chain_set [OF ys(2)]
      by (auto simp: nearest_common_ancestor_def nearest_common_def xs ys vec_simps)
  qed
qed

lemma nearest_common_unique:
  "scopes_wf rm \<Longrightarrow> nearest_common rm a b r \<Longrightarrow> nearest_common rm a b r' \<Longrightarrow> r = r'"
  by (auto simp: nearest_common_def split: option.splits intro: scopes_wf_antisym)

lemma scopes_wf_rank:
  assumes "\<And>c p. scope_map rm c = Some p \<Longrightarrow> rank p < (rank c :: nat)"
  shows "scopes_wf rm"
proof -
  have "(up rm)\<inverse> \<subseteq> measure rank" using assms by (auto simp: up_def)
  then show ?thesis unfolding scopes_wf_def by (rule wf_subset [OF wf_measure])
qed

section \<open>Free regions\<close>

definition free_rel :: "region_maps \<Rightarrow> (free_region \<times> free_region) set" where
  "free_rel rm = nbr_rel (free_region_parents rm)"

lemma sub_free_region_eq:
  assumes "finite (dom (free_region_map rm))"
  shows "sub_free_region rm a b = Some ((a, b) \<in> (free_rel rm)\<^sup>*)"
proof (cases "a = b")
  case True
  then show ?thesis by (simp add: sub_free_region_def)
next
  case False
  let ?U = "insert a (dom (free_region_map rm) \<union> (\<Union>f \<in> dom (free_region_map rm). set (free_region_parents rm f)))"
  have "finite ?U" using assms by simp
  moreover have "set (free_region_parents rm x) \<subseteq> ?U" for x
  proof (cases "free_region_map rm x")
    case None
    then show ?thesis by (simp add: free_region_parents_def)
  next
    case (Some ps)
    then have "x \<in> dom (free_region_map rm)" by blast
    then show ?thesis by blast
  qed
  ultimately show ?thesis
    using bfs_search_reach [of ?U "free_region_parents rm" a b] False
    by (simp add: sub_free_region_def free_rel_def)
qed

lemma free_rel_relate: "free_rel (relate_free_regions rm a b) = insert (a, b) (free_rel rm)"
  by (auto simp: free_rel_def nbr_rel_def free_region_parents_def relate_free_regions_def
      split: option.splits if_splits)

lemma finite_relate:
  "finite (dom (free_region_map rm)) \<Longrightarrow> finite (dom (free_region_map (relate_free_regions rm a b)))"
  by (auto simp: relate_free_regions_def split: option.splits)

lemma relate_all:
  "finite (dom (free_region_map rm)) \<Longrightarrow>
     finite (dom (free_region_map (fold (\<lambda>(a, b) rm. relate_free_regions rm a b) ps rm))) \<and>
     free_rel (fold (\<lambda>(a, b) rm. relate_free_regions rm a b) ps rm) = set ps \<union> free_rel rm"
  by (induction ps arbitrary: rm) (auto simp: finite_relate free_rel_relate)

section \<open>The subregion relation\<close>

definition subregion :: "region_maps \<Rightarrow> region \<Rightarrow> region \<Rightarrow> bool" where
  "subregion rm a b \<longleftrightarrow>
     region_eq a b \<or> b = ReStatic \<or>
     (\<exists>s t. a = ReScope s \<and> b = ReScope t \<and> encloses rm t s) \<or>
     (\<exists>s f. a = ReScope s \<and> b = ReFree f \<and> encloses rm (scope_id f) s) \<or>
     (\<exists>f g. a = ReFree f \<and> b = ReFree g \<and> (f, g) \<in> (free_rel rm)\<^sup>*)"

text \<open>The maps the queries are asked on: scopes form a forest, finitely many free regions.\<close>

definition maps_ok :: "region_maps \<Rightarrow> bool" where
  "maps_ok rm \<longleftrightarrow> scopes_wf rm \<and> finite (dom (free_region_map rm))"

text \<open>A free region is only related to free regions of the same or an enclosing function body.\<close>

definition free_nested :: "region_maps \<Rightarrow> bool" where
  "free_nested rm \<longleftrightarrow> (\<forall>f g. (f, g) \<in> free_rel rm \<longrightarrow> encloses rm (scope_id g) (scope_id f))"

lemma is_subregion_of_eq:
  assumes "maps_ok rm"
  shows "is_subregion_of rm a b = Some (subregion rm a b)"
proof -
  note eqs = is_subscope_of_eq [of rm] sub_free_region_eq [of rm]
  show ?thesis using assms
    by (cases a; cases b)
      (auto simp: is_subregion_of_def subregion_def maps_ok_def eqs)
qed

lemma free_nested_star:
  assumes "free_nested rm" "(f, g) \<in> (free_rel rm)\<^sup>*"
  shows "encloses rm (scope_id g) (scope_id f)"
  using assms(2)
proof (induction rule: rtrancl_induct)
  case (step y z)
  then show ?case using assms(1) unfolding free_nested_def by (meson rtrancl_trans)
qed simp

lemma subregion_refl [simp, intro]: "subregion rm a a"
  by (simp add: subregion_def)

lemma subregion_eq: "region_eq a b \<Longrightarrow> subregion rm a b"
  by (simp add: subregion_def)

lemma subregion_static [simp, intro]: "subregion rm a ReStatic"
  by (simp add: subregion_def)

lemma subregion_simps [simp]:
  "subregion rm (ReScope s) (ReScope t) \<longleftrightarrow> encloses rm t s"
  "subregion rm (ReScope s) (ReFree f) \<longleftrightarrow> encloses rm (scope_id f) s"
  "subregion rm (ReFree f) (ReFree g) \<longleftrightarrow> (f, g) \<in> (free_rel rm)\<^sup>*"
  "\<not> subregion rm (ReFree f) (ReScope t)"
  "subregion rm ReStatic b \<longleftrightarrow> b = ReStatic"
  "subregion rm a ReEmpty \<longleftrightarrow> a = ReEmpty"
  "subregion rm ReEmpty b \<longleftrightarrow> b = ReStatic \<or> b = ReEmpty"
  by (auto simp: subregion_def)

lemma subregion_trans:
  assumes "free_nested rm" "subregion rm a b" "subregion rm b c"
  shows "subregion rm a c"
proof (cases "region_eq a b \<or> region_eq b c \<or> c = ReStatic")
  case True
  then show ?thesis using assms(2,3)
    by (auto simp: subregion_def dest: region_eq_trans)
next
  case False
  then have bs: "b \<noteq> ReStatic" using assms(3) by auto
  show ?thesis using False bs assms free_nested_star [OF assms(1)]
    by (auto simp: subregion_def intro: rtrancl_trans) (meson rtrancl_trans)
qed

section \<open>Temporary scopes\<close>

text \<open>
  Where temporaries of an expression die, without a designated scope: the innermost
  terminating scope that properly encloses it.
\<close>

definition innermost_terminating :: "region_maps \<Rightarrow> node_id \<Rightarrow> node_id option \<Rightarrow> bool" where
  "innermost_terminating rm i r \<longleftrightarrow>
     (case r of
        None \<Rightarrow> \<forall>t. encloses rm t i \<longrightarrow> t \<notin> terminating_scopes rm
      | Some t \<Rightarrow> t \<in> terminating_scopes rm \<and> encloses rm t i \<and>
          (\<forall>u \<in> terminating_scopes rm. encloses rm u i \<longrightarrow> encloses rm u t))"

lemma temporary_scope_loop_ok:
  assumes "scopes_wf rm"
  shows "\<exists>r. temporary_scope_loop rm i = Some r \<and> innermost_terminating rm i r"
  using assms
proof (induction i rule: scope_induct)
  case (outer i)
  show ?case
  proof (cases "i \<in> terminating_scopes rm")
    case True
    then show ?thesis
      by (subst temporary_scope_loop.simps) (auto simp: innermost_terminating_def)
  next
    case notterm: False
    show ?thesis
    proof (cases "scope_map rm i")
      case None
      with notterm show ?thesis
        by (subst temporary_scope_loop.simps)
          (auto simp: innermost_terminating_def opt_encl_scope_def up_step [of i])
    next
      case (Some p)
      then have up: "encloses rm t i \<longleftrightarrow> t = i \<or> encloses rm t p" for t by (auto simp: up_step [of i])
      from outer [OF Some] obtain r where
        "temporary_scope_loop rm p = Some r" "innermost_terminating rm p r" by blast
      with notterm Some show ?thesis
        by (subst temporary_scope_loop.simps)
          (auto simp: innermost_terminating_def opt_encl_scope_def up split: option.splits)
    qed
  qed
qed

section \<open>Properties\<close>

text \<open>
  C8. On scopes that form a forest \<open>is_subscope_of\<close> and \<open>nearest_common_ancestor\<close>
  return: the first decides enclosure, the second yields the narrowest scope that encloses
  both arguments, and nothing exactly when no scope encloses both.
\<close>

theorem nearest_common_ancestor_correct:
  assumes "scopes_wf rm"
  shows "is_subscope_of rm a c = Some (encloses rm c a) \<and>
         (\<exists>r. nearest_common_ancestor rm a b = Some r \<and> nearest_common rm a b r)"
  using is_subscope_of_eq [OF assms] nearest_common_ancestor_ok [OF assms] by blast

text \<open>A function body 1 with blocks 2 and 3; block 4 inside 2; 2 and 1 are terminating.\<close>

definition sample_maps :: region_maps where
  "sample_maps =
     \<lparr>scope_map = [2 \<mapsto> 1, 3 \<mapsto> 1, 4 \<mapsto> 2], var_map = Map.empty, free_region_map = Map.empty,
      rvalue_scopes = Map.empty, terminating_scopes = {1, 2}\<rparr>"

lemma sample_maps_wf: "scopes_wf sample_maps"
  by (rule scopes_wf_rank [of _ "\<lambda>c. c"]) (auto simp: sample_maps_def split: if_splits)

lemma sample_scopes:
  "scope_map sample_maps 1 = None" "scope_map sample_maps 2 = Some 1"
  "scope_map sample_maps 3 = Some 1" "scope_map sample_maps 4 = Some 2"
  "rvalue_scopes sample_maps e = None" "free_region_map sample_maps = Map.empty"
  "terminating_scopes sample_maps = {1, 2}"
  by (simp_all add: sample_maps_def)

lemma sample_encloses:
  "encloses sample_maps t 1 \<longleftrightarrow> t = 1"
  "encloses sample_maps t 2 \<longleftrightarrow> t = 2 \<or> t = 1"
  "encloses sample_maps t 3 \<longleftrightarrow> t = 3 \<or> t = 1"
  "encloses sample_maps t 4 \<longleftrightarrow> t = 4 \<or> t = 2 \<or> t = 1"
  using up_step [of 1 t sample_maps] up_step [of 2 t sample_maps] up_step [of 3 t sample_maps]
    up_step [of 4 t sample_maps]
  by (auto simp only: sample_scopes option.inject option.distinct)

lemma sample_maps_ok: "maps_ok sample_maps" "free_nested sample_maps"
  using sample_maps_wf
  by (auto simp: maps_ok_def free_nested_def free_rel_def nbr_rel_def free_region_parents_def sample_scopes)

theorem nearest_common_ancestor_correct_witness:
  "scopes_wf sample_maps \<and> is_subscope_of sample_maps 4 1 = Some True \<and>
   nearest_common_ancestor sample_maps 4 3 = Some (Some 1)"
proof -
  have enc: "encloses sample_maps 1 4" unfolding sample_encloses by simp
  have nc: "nearest_common sample_maps 4 3 (Some 1)"
    unfolding nearest_common_def option.case sample_encloses by auto
  obtain r where r: "nearest_common_ancestor sample_maps 4 3 = Some r" "nearest_common sample_maps 4 3 r"
    and sub: "is_subscope_of sample_maps 4 1 = Some (encloses sample_maps 1 4)"
    using nearest_common_ancestor_correct [OF sample_maps_wf, of 4 1 3] by blast
  from nearest_common_unique [OF sample_maps_wf nc r(2)] r(1) sub enc sample_maps_wf show ?thesis
    by simp
qed

text \<open>
  C9. \<open>sub_free_region\<close>, a breadth-first search over the vectors that
  \<open>relate_free_regions\<close> filled, always returns, and answers yes exactly when one region
  reaches the other through the related pairs, however these form cycles.
\<close>

theorem sub_free_region_correct:
  "sub_free_region
     (fold (\<lambda>(a, b) rm. relate_free_regions rm a b) pairs (rm\<lparr>free_region_map := Map.empty\<rparr>)) x y =
   Some ((x, y) \<in> (set pairs)\<^sup>*)"
proof -
  have "free_rel (rm\<lparr>free_region_map := Map.empty\<rparr>) = {}"
    by (simp add: free_rel_def nbr_rel_def free_region_parents_def)
  with relate_all [of "rm\<lparr>free_region_map := Map.empty\<rparr>" pairs] show ?thesis
    by (simp add: sub_free_region_eq)
qed



text \<open>
  C11. \<open>temporary_scope\<close> returns on scopes that form a forest: the designated scope of the
  expression if it has one, otherwise the innermost terminating scope around its enclosing
  scope, and nothing exactly when there is none.
\<close>

theorem temporary_scope_correct:
  assumes "scopes_wf rm"
  shows "\<exists>r. temporary_scope rm e = Some r \<and>
     (case (rvalue_scopes rm e, scope_map rm e) of
        (Some s, _) \<Rightarrow> r = Some s
      | (None, Some p) \<Rightarrow> innermost_terminating rm p r
      | (None, None) \<Rightarrow> r = None)"
  using temporary_scope_loop_ok [OF assms]
  by (auto simp: temporary_scope_def opt_encl_scope_def split: option.split)

theorem temporary_scope_correct_witness:
  "scopes_wf sample_maps \<and> temporary_scope sample_maps 4 = Some (Some 2)"
proof -
  obtain r where r: "temporary_scope sample_maps 4 = Some r" "innermost_terminating sample_maps 2 r"
    using temporary_scope_correct [OF sample_maps_wf, of 4] by (auto simp: sample_scopes)
  then have "r = Some 2"
    unfolding innermost_terminating_def sample_scopes
    by (cases r) (auto simp only: sample_encloses option.case)
  with r sample_maps_wf show ?thesis by simp
qed

end
