(* ===== verification/RegionLattice.thy ===== *)
theory RegionLattice
  imports RegionMaps
begin

text \<open>
  Least upper and greatest lower bounds of concrete regions, from
  \<open>librustc/middle/typeck/infer/region_inference/mod.rs\<close>, and the two facts the solver
  needs of them: they are bounds for \<open>is_subregion_of\<close>, and replacing a region by a
  bound that differs from it makes strict progress in a finite set of regions.
\<close>

section \<open>Operations\<close>

text \<open>The one constructor of \<open>ty::type_err\<close> that these functions build.\<close>

datatype type_err = terr_regions_no_overlap region region

definition lub_free_helper :: "region_maps \<Rightarrow> free_region \<Rightarrow> free_region \<Rightarrow> region option" where
  "lub_free_helper rm a b =
     do { ab \<leftarrow> sub_free_region rm a b;
          if ab then Some (ReFree b)
          else do { ba \<leftarrow> sub_free_region rm b a;
                    if ba then Some (ReFree a) else Some ReStatic } }"

definition lub_free_regions :: "region_maps \<Rightarrow> free_region \<Rightarrow> free_region \<Rightarrow> region option" where
  "lub_free_regions rm a b =
     (if a < b then lub_free_helper rm a b
      else if b < a then lub_free_helper rm b a
      else Some (ReFree a))"

text \<open>A free region against a scope; the same in either order of the arguments.\<close>

definition lub_free_scope :: "region_maps \<Rightarrow> free_region \<Rightarrow> node_id \<Rightarrow> region option" where
  "lub_free_scope rm fr s_id =
     do { nca \<leftarrow> nearest_common_ancestor rm (scope_id fr) s_id;
          case nca of
            Some r_id \<Rightarrow> if r_id = scope_id fr then Some (ReFree fr) else Some ReStatic
          | None \<Rightarrow> Some ReStatic }"

text \<open>\<^const>\<open>None\<close> where the source reports a compiler bug.\<close>

definition lub_concrete_regions :: "region_maps \<Rightarrow> region \<Rightarrow> region \<Rightarrow> region option" where
  "lub_concrete_regions rm a b =
     (case (a, b) of
        (ReLateBound _ _, _) \<Rightarrow> None
      | (_, ReLateBound _ _) \<Rightarrow> None
      | (ReEarlyBound _ _ _, _) \<Rightarrow> None
      | (_, ReEarlyBound _ _ _) \<Rightarrow> None
      | (ReStatic, _) \<Rightarrow> Some ReStatic
      | (_, ReStatic) \<Rightarrow> Some ReStatic
      | (ReEmpty, r) \<Rightarrow> Some r
      | (r, ReEmpty) \<Rightarrow> Some r
      | (ReInfer (ReVar _), _) \<Rightarrow> None
      | (_, ReInfer (ReVar _)) \<Rightarrow> None
      | (ReFree fr, ReScope s_id) \<Rightarrow> lub_free_scope rm fr s_id
      | (ReScope s_id, ReFree fr) \<Rightarrow> lub_free_scope rm fr s_id
      | (ReScope a_id, ReScope b_id) \<Rightarrow>
          do { nca \<leftarrow> nearest_common_ancestor rm a_id b_id;
               case nca of Some r_id \<Rightarrow> Some (ReScope r_id) | None \<Rightarrow> Some ReStatic }
      | (ReFree a_fr, ReFree b_fr) \<Rightarrow> lub_free_regions rm a_fr b_fr
      | (ReInfer (ReSkolemized _ _), _) \<Rightarrow> Some (if region_eq a b then a else ReStatic)
      | (_, ReInfer (ReSkolemized _ _)) \<Rightarrow> Some (if region_eq a b then a else ReStatic))"

definition intersect_scopes ::
  "region_maps \<Rightarrow> region \<Rightarrow> region \<Rightarrow> node_id \<Rightarrow> node_id \<Rightarrow> (type_err + region) option" where
  "intersect_scopes rm region_a region_b scope_a scope_b =
     do { nca \<leftarrow> nearest_common_ancestor rm scope_a scope_b;
          case nca of
            Some r_id \<Rightarrow>
              if scope_a = r_id then Some (Inr (ReScope scope_b))
              else if scope_b = r_id then Some (Inr (ReScope scope_a))
              else Some (Inl (terr_regions_no_overlap region_a region_b))
          | None \<Rightarrow> Some (Inl (terr_regions_no_overlap region_a region_b)) }"

definition glb_free_helper ::
  "region_maps \<Rightarrow> free_region \<Rightarrow> free_region \<Rightarrow> (type_err + region) option" where
  "glb_free_helper rm a b =
     do { ab \<leftarrow> sub_free_region rm a b;
          if ab then Some (Inr (ReFree a))
          else do { ba \<leftarrow> sub_free_region rm b a;
                    if ba then Some (Inr (ReFree b))
                    else intersect_scopes rm (ReFree a) (ReFree b) (scope_id a) (scope_id b) } }"

definition glb_free_regions ::
  "region_maps \<Rightarrow> free_region \<Rightarrow> free_region \<Rightarrow> (type_err + region) option" where
  "glb_free_regions rm a b =
     (if a < b then glb_free_helper rm a b
      else if b < a then glb_free_helper rm b a
      else Some (Inr (ReFree a)))"

text \<open>\<open>a\<close> and \<open>b\<close> are the arguments of the caller, which the error names.\<close>

definition glb_free_scope ::
  "region_maps \<Rightarrow> region \<Rightarrow> region \<Rightarrow> free_region \<Rightarrow> node_id \<Rightarrow> (type_err + region) option" where
  "glb_free_scope rm a b fr s_id =
     do { nca \<leftarrow> nearest_common_ancestor rm (scope_id fr) s_id;
          case nca of
            Some r_id \<Rightarrow> if r_id = scope_id fr then Some (Inr (ReScope s_id))
                         else Some (Inl (terr_regions_no_overlap b a))
          | None \<Rightarrow> Some (Inl (terr_regions_no_overlap b a)) }"

definition glb_concrete_regions ::
  "region_maps \<Rightarrow> region \<Rightarrow> region \<Rightarrow> (type_err + region) option" where
  "glb_concrete_regions rm a b =
     (case (a, b) of
        (ReLateBound _ _, _) \<Rightarrow> None
      | (_, ReLateBound _ _) \<Rightarrow> None
      | (ReEarlyBound _ _ _, _) \<Rightarrow> None
      | (_, ReEarlyBound _ _ _) \<Rightarrow> None
      | (ReStatic, r) \<Rightarrow> Some (Inr r)
      | (r, ReStatic) \<Rightarrow> Some (Inr r)
      | (ReEmpty, _) \<Rightarrow> Some (Inr ReEmpty)
      | (_, ReEmpty) \<Rightarrow> Some (Inr ReEmpty)
      | (ReInfer (ReVar _), _) \<Rightarrow> None
      | (_, ReInfer (ReVar _)) \<Rightarrow> None
      | (ReFree fr, ReScope s_id) \<Rightarrow> glb_free_scope rm a b fr s_id
      | (ReScope s_id, ReFree fr) \<Rightarrow> glb_free_scope rm a b fr s_id
      | (ReScope a_id, ReScope b_id) \<Rightarrow> intersect_scopes rm a b a_id b_id
      | (ReFree a_fr, ReFree b_fr) \<Rightarrow> glb_free_regions rm a_fr b_fr
      | (ReInfer (ReSkolemized _ _), _) \<Rightarrow>
          Some (if region_eq a b then Inr a else Inl (terr_regions_no_overlap b a))
      | (_, ReInfer (ReSkolemized _ _)) \<Rightarrow>
          Some (if region_eq a b then Inr a else Inl (terr_regions_no_overlap b a)))"

section \<open>Bounds\<close>

text \<open>The regions that are neither bound nor a variable nor empty.\<close>

fun concrete :: "region \<Rightarrow> bool" where
  "concrete (ReFree _) = True"
| "concrete (ReScope _) = True"
| "concrete ReStatic = True"
| "concrete (ReInfer (ReSkolemized _ _)) = True"
| "concrete _ = False"

text \<open>
  The order in which bounds move: strictly up, or, between free regions that outlive each
  other, to the greater one.
\<close>

definition below :: "region_maps \<Rightarrow> region \<Rightarrow> region \<Rightarrow> bool" where
  "below rm a b \<longleftrightarrow> subregion rm a b \<and>
     (\<not> subregion rm b a \<or> (\<exists>f g. a = ReFree f \<and> b = ReFree g \<and> f < g))"

lemma below_irrefl [simp]: "\<not> below rm a a"
  by (auto simp: below_def)

lemma below_trans:
  assumes "free_nested rm" "below rm a b" "below rm b c"
  shows "below rm a c"
  using assms subregion_trans [OF assms(1)] unfolding below_def
  by (metis less_trans region.inject(3))

lemma nca_cases:
  assumes "scopes_wf rm"
  obtains (none) "nearest_common_ancestor rm a b = Some None" "\<not> encloses rm a b" "\<not> encloses rm b a"
  | (some) c where "nearest_common_ancestor rm a b = Some (Some c)" "encloses rm c a" "encloses rm c b"
      "c = a \<longleftrightarrow> encloses rm a b" "c = b \<longleftrightarrow> encloses rm b a"
proof -
  obtain r where r: "nearest_common_ancestor rm a b = Some r" "nearest_common rm a b r"
    using nearest_common_ancestor_ok [OF assms] by blast
  show thesis
  proof (cases r)
    case None
    then show thesis using r none by (auto simp: nearest_common_def)
  next
    case (Some c)
    with r have c: "encloses rm c a" "encloses rm c b"
      "\<And>d. encloses rm d a \<Longrightarrow> encloses rm d b \<Longrightarrow> encloses rm d c"
      by (auto simp: nearest_common_def)
    then have "c = a \<longleftrightarrow> encloses rm a b" "c = b \<longleftrightarrow> encloses rm b a"
      using scopes_wf_antisym [OF assms] by blast+
    with r Some c show thesis using some by blast
  qed
qed

lemma lub_free_regions_ok:
  assumes "maps_ok rm"
  shows "\<exists>c. lub_free_regions rm a b = Some c \<and> (c = ReStatic \<or> c = ReFree a \<or> c = ReFree b) \<and>
    subregion rm (ReFree a) c \<and> subregion rm (ReFree b) c \<and> (c = ReFree b \<or> below rm (ReFree b) c)"
  using assms
  by (auto simp: lub_free_regions_def lub_free_helper_def sub_free_region_eq maps_ok_def below_def)

lemma lub_free_scope_ok:
  assumes "maps_ok rm"
  shows "lub_free_scope rm f s = Some (if encloses rm (scope_id f) s then ReFree f else ReStatic)"
  using assms unfolding maps_ok_def lub_free_scope_def
  by (auto elim: nca_cases [of rm "scope_id f" s])

lemma lub_scopes_ok:
  assumes "maps_ok rm"
  shows "\<exists>c. lub_concrete_regions rm (ReScope s) (ReScope t) = Some c \<and>
    subregion rm (ReScope s) c \<and> subregion rm (ReScope t) c \<and>
    (c = ReScope t \<or> below rm (ReScope t) c) \<and> (c = ReStatic \<or> (\<exists>u. c = ReScope u \<and> encloses rm u t))"
proof -
  have wf: "scopes_wf rm" using assms by (simp add: maps_ok_def)
  then show ?thesis
  proof (cases rule: nca_cases [of rm s t])
    case none
    then show ?thesis by (simp add: lub_concrete_regions_def below_def)
  next
    case (some c)
    then show ?thesis
      using scopes_wf_antisym [OF wf] by (auto simp: lub_concrete_regions_def below_def)
  qed
qed

text \<open>Where a bound of two regions can lie.\<close>

definition lub_reach :: "region_maps \<Rightarrow> region \<Rightarrow> region \<Rightarrow> region \<Rightarrow> bool" where
  "lub_reach rm a b c \<longleftrightarrow>
     c = ReStatic \<or> c = a \<or> c = b \<or> (\<exists>s t. b = ReScope s \<and> c = ReScope t \<and> encloses rm t s)"

lemma lub_ok:
  assumes ok: "maps_ok rm" and "concrete a" and "concrete b"
  shows "\<exists>c. lub_concrete_regions rm a b = Some c \<and>
    subregion rm a c \<and> subregion rm b c \<and> (region_eq c b \<or> below rm b c) \<and> lub_reach rm a b c"
proof -
  note simps = lub_concrete_regions_def lub_free_scope_ok [OF ok] below_def lub_reach_def subregion_eq
  consider (ff) f g where "a = ReFree f" "b = ReFree g" | (ss) s t where "a = ReScope s" "b = ReScope t"
    | (other) "\<nexists>f g. a = ReFree f \<and> b = ReFree g" "\<nexists>s t. a = ReScope s \<and> b = ReScope t" by blast
  then show ?thesis
  proof cases
    case ff
    then show ?thesis using lub_free_regions_ok [OF ok, of f g]
      by (auto simp: lub_concrete_regions_def lub_reach_def)
  next
    case ss
    then show ?thesis using lub_scopes_ok [OF ok, of s t] by (auto simp: lub_reach_def)
  next
    case other
    then show ?thesis using assms(2,3)
      by (cases a rule: concrete.cases; cases b rule: concrete.cases)
        (auto simp: simps subregion_def region_eq_canon)
  qed
qed

text \<open>The lower bounds lie strictly below their first argument, unless they equal it.\<close>

definition glb_reach :: "region_maps \<Rightarrow> region \<Rightarrow> region \<Rightarrow> region \<Rightarrow> bool" where
  "glb_reach rm a b c \<longleftrightarrow>
     c = a \<or> c = b \<or> (\<exists>f. (a = ReFree f \<or> b = ReFree f) \<and> c = ReScope (scope_id f))"

definition glb_spec :: "region_maps \<Rightarrow> region \<Rightarrow> region \<Rightarrow> type_err + region \<Rightarrow> bool" where
  "glb_spec rm a b r \<longleftrightarrow>
     (case r of
        Inl _ \<Rightarrow> \<not> subregion rm a b \<and> \<not> subregion rm b a
      | Inr c \<Rightarrow> subregion rm c a \<and> subregion rm c b \<and> (region_eq c a \<or> below rm c a) \<and>
                 glb_reach rm a b c)"

lemma intersect_scopes_ok:
  assumes "maps_ok rm"
  shows "\<exists>r. intersect_scopes rm ra rb a b = Some r \<and>
    (case r of
       Inl _ \<Rightarrow> \<not> encloses rm a b \<and> \<not> encloses rm b a
     | Inr c \<Rightarrow> c = ReScope b \<and> encloses rm a b \<or> c = ReScope a \<and> encloses rm b a)"
proof -
  have wf: "scopes_wf rm" using assms by (simp add: maps_ok_def)
  then show ?thesis
    by (cases rule: nca_cases [of rm a b]) (auto simp: intersect_scopes_def)
qed

definition free_spec :: "region_maps \<Rightarrow> free_region \<Rightarrow> free_region \<Rightarrow> type_err + region \<Rightarrow> bool" where
  "free_spec rm a b r \<longleftrightarrow>
     (case r of
        Inl _ \<Rightarrow> (a, b) \<notin> (free_rel rm)\<^sup>* \<and> (b, a) \<notin> (free_rel rm)\<^sup>*
      | Inr c \<Rightarrow>
          c = ReFree a \<and> (a, b) \<in> (free_rel rm)\<^sup>* \<or>
          c = ReFree b \<and> (b, a) \<in> (free_rel rm)\<^sup>* \<and> (a, b) \<notin> (free_rel rm)\<^sup>* \<or>
          c = ReScope (scope_id b) \<and> encloses rm (scope_id a) (scope_id b) \<or>
          c = ReScope (scope_id a) \<and> encloses rm (scope_id b) (scope_id a))"

lemma glb_free_helper_ok:
  assumes ok: "maps_ok rm"
  obtains r where "glb_free_helper rm a b = Some r" and "free_spec rm a b r"
proof -
  have fin: "finite (dom (free_region_map rm))" using ok by (simp add: maps_ok_def)
  obtain r where r: "intersect_scopes rm (ReFree a) (ReFree b) (scope_id a) (scope_id b) = Some r"
    and r': "case r of
       Inl _ \<Rightarrow> \<not> encloses rm (scope_id a) (scope_id b) \<and> \<not> encloses rm (scope_id b) (scope_id a)
     | Inr c \<Rightarrow> c = ReScope (scope_id b) \<and> encloses rm (scope_id a) (scope_id b) \<or>
                c = ReScope (scope_id a) \<and> encloses rm (scope_id b) (scope_id a)"
    using intersect_scopes_ok [OF ok] by blast
  have eq: "glb_free_helper rm a b =
      (if (a, b) \<in> (free_rel rm)\<^sup>* then Some (Inr (ReFree a))
       else if (b, a) \<in> (free_rel rm)\<^sup>* then Some (Inr (ReFree b)) else Some r)"
    by (simp add: glb_free_helper_def sub_free_region_eq [OF fin] r)
  have "free_spec rm a b (if (a, b) \<in> (free_rel rm)\<^sup>* then Inr (ReFree a)
       else if (b, a) \<in> (free_rel rm)\<^sup>* then Inr (ReFree b) else r)"
    using r' by (cases r) (auto simp: free_spec_def)
  then show thesis using eq that by (auto split: if_splits)
qed

lemma glb_free_regions_ok:
  assumes ok: "maps_ok rm"
  shows "\<exists>r. glb_free_regions rm a b = Some r \<and> glb_spec rm (ReFree a) (ReFree b) r"
proof -
  note simps = glb_free_regions_def glb_spec_def glb_reach_def below_def free_spec_def
  consider "a < b" | "b < a" | "a = b" by force
  then show ?thesis
  proof cases
    case 1
    obtain r where r: "glb_free_helper rm a b = Some r" and r': "free_spec rm a b r"
      by (rule glb_free_helper_ok [OF ok])
    then show ?thesis using 1 by (cases r) (auto simp: simps)
  next
    case 2
    obtain r where r: "glb_free_helper rm b a = Some r" and r': "free_spec rm b a r"
      by (rule glb_free_helper_ok [OF ok])
    then show ?thesis using 2 by (cases r) (auto simp: simps)
  next
    case 3
    then show ?thesis by (simp add: simps)
  qed
qed

lemma glb_free_scope_ok:
  assumes "maps_ok rm"
  shows "glb_free_scope rm a b f s =
    Some (if encloses rm (scope_id f) s then Inr (ReScope s) else Inl (terr_regions_no_overlap b a))"
  using assms unfolding maps_ok_def glb_free_scope_def
  by (auto elim: nca_cases [of rm "scope_id f" s])

lemma glb_scopes_ok:
  assumes ok: "maps_ok rm"
  shows "\<exists>r. glb_concrete_regions rm (ReScope s) (ReScope t) = Some r \<and>
    glb_spec rm (ReScope s) (ReScope t) r"
proof -
  have wf: "scopes_wf rm" using ok by (simp add: maps_ok_def)
  obtain r where "intersect_scopes rm (ReScope s) (ReScope t) s t = Some r"
    and "case r of
       Inl _ \<Rightarrow> \<not> encloses rm s t \<and> \<not> encloses rm t s
     | Inr c \<Rightarrow> c = ReScope t \<and> encloses rm s t \<or> c = ReScope s \<and> encloses rm t s"
    using intersect_scopes_ok [OF ok] by blast
  then show ?thesis using scopes_wf_antisym [OF wf, of s t]
    by (cases r) (auto simp: glb_concrete_regions_def glb_spec_def glb_reach_def below_def)
qed

lemma glb_ok:
  assumes ok: "maps_ok rm" and "concrete a" and "concrete b"
  shows "\<exists>r. glb_concrete_regions rm a b = Some r \<and> glb_spec rm a b r"
proof -
  note simps = glb_concrete_regions_def glb_free_scope_ok [OF ok] below_def glb_reach_def glb_spec_def
    subregion_eq
  consider (ff) f g where "a = ReFree f" "b = ReFree g" | (ss) s t where "a = ReScope s" "b = ReScope t"
    | (other) "\<nexists>f g. a = ReFree f \<and> b = ReFree g" "\<nexists>s t. a = ReScope s \<and> b = ReScope t" by blast
  then show ?thesis
  proof cases
    case ff
    then show ?thesis using glb_free_regions_ok [OF ok, of f g]
      by (auto simp: glb_concrete_regions_def)
  next
    case ss
    then show ?thesis using glb_scopes_ok [OF ok] by blast
  next
    case other
    then show ?thesis using assms(2,3)
      by (cases a rule: concrete.cases; cases b rule: concrete.cases)
        (auto simp: simps subregion_def region_eq_canon)
  qed
qed

section \<open>A finite set of regions closed under bounds\<close>

definition base_scopes :: "region set \<Rightarrow> node_id set" where
  "base_scopes S = {s. ReScope s \<in> S} \<union> {scope_id f | f. ReFree f \<in> S}"

definition universe :: "region_maps \<Rightarrow> region set \<Rightarrow> region set" where
  "universe rm S = S \<union> {ReStatic} \<union> {ReScope t | t s. s \<in> base_scopes S \<and> encloses rm t s}"

lemma finite_ancestors: "scopes_wf rm \<Longrightarrow> finite {t. encloses rm t s}"
  using ancestors_of_chain [of rm s] chain_set [of rm s] by (metis List.finite_set)

lemma finite_universe:
  assumes "scopes_wf rm" "finite S"
  shows "finite (universe rm S)"
proof -
  have "finite (base_scopes S)"
  proof -
    have "base_scopes S \<subseteq> (\<lambda>r. case r of ReScope s \<Rightarrow> s | ReFree f \<Rightarrow> scope_id f | _ \<Rightarrow> 0) ` S"
      by (force simp: base_scopes_def)
    then show ?thesis using assms(2) by (rule finite_surj [rotated])
  qed
  moreover have "{ReScope t | t s. s \<in> base_scopes S \<and> encloses rm t s} =
      (\<Union>s \<in> base_scopes S. ReScope ` {t. encloses rm t s})" by auto
  ultimately show ?thesis
    using finite_ancestors [OF assms(1)] assms(2) by (simp add: universe_def)
qed

lemma universe_incl [simp, intro]: "r \<in> S \<Longrightarrow> r \<in> universe rm S"
  by (simp add: universe_def)

lemma universe_concrete: "\<forall>r \<in> S. concrete r \<Longrightarrow> r \<in> universe rm S \<Longrightarrow> concrete r"
  by (auto simp: universe_def)

lemma universe_scope: "ReScope s \<in> universe rm S \<Longrightarrow> encloses rm t s \<Longrightarrow> ReScope t \<in> universe rm S"
  by (auto simp: universe_def base_scopes_def intro: rtrancl_trans)

lemma universe_free: "ReFree f \<in> universe rm S \<Longrightarrow> ReScope (scope_id f) \<in> universe rm S"
  by (auto simp: universe_def base_scopes_def)

lemma lub_in_universe:
  "lub_reach rm a b c \<Longrightarrow> a \<in> universe rm S \<Longrightarrow> b \<in> universe rm S \<Longrightarrow> c \<in> universe rm S"
  by (auto simp: lub_reach_def intro: universe_scope) (simp add: universe_def)

lemma glb_in_universe:
  "glb_reach rm a b c \<Longrightarrow> a \<in> universe rm S \<Longrightarrow> b \<in> universe rm S \<Longrightarrow> c \<in> universe rm S"
  by (auto simp: glb_reach_def intro: universe_free)

definition height :: "region_maps \<Rightarrow> region set \<Rightarrow> region \<Rightarrow> nat" where
  "height rm U r = card {u \<in> U. below rm r u}"

definition depth :: "region_maps \<Rightarrow> region set \<Rightarrow> region \<Rightarrow> nat" where
  "depth rm U r = card {u \<in> U. below rm u r}"

lemma height_less:
  assumes "free_nested rm" "finite U" "below rm r r'" "r' \<in> U"
  shows "height rm U r' < height rm U r"
  unfolding height_def
proof (rule psubset_card_mono)
  show "finite {u \<in> U. below rm r u}" using assms(2) by simp
  show "{u \<in> U. below rm r' u} \<subset> {u \<in> U. below rm r u}"
    using below_trans [OF assms(1,3)] assms(3,4) below_irrefl by blast
qed

lemma depth_less:
  assumes "free_nested rm" "finite U" "below rm r' r" "r' \<in> U"
  shows "depth rm U r' < depth rm U r"
  unfolding depth_def
proof (rule psubset_card_mono)
  show "finite {u \<in> U. below rm u r}" using assms(2) by simp
  show "{u \<in> U. below rm u r'} \<subset> {u \<in> U. below rm u r}"
    using below_trans [OF assms(1) _ assms(3)] assms(3,4) below_irrefl by blast
qed

lemma height_le: "finite U \<Longrightarrow> height rm U r \<le> card U"
  unfolding height_def by (rule card_mono) auto

lemma depth_le: "finite U \<Longrightarrow> depth rm U r \<le> card U"
  unfolding depth_def by (rule card_mono) auto

section \<open>Consistency\<close>

lemma nearest_common_ancestor_commute:
  assumes "scopes_wf rm"
  shows "nearest_common_ancestor rm a b = nearest_common_ancestor rm b a"
proof -
  obtain r r' where "nearest_common_ancestor rm a b = Some r" "nearest_common rm a b r"
    "nearest_common_ancestor rm b a = Some r'" "nearest_common rm b a r'"
    using nearest_common_ancestor_ok [OF assms] by metis
  moreover have "nearest_common rm b a r' \<longleftrightarrow> nearest_common rm a b r'"
    by (auto simp: nearest_common_def split: option.splits)
  ultimately show ?thesis using nearest_common_unique [OF assms] by metis
qed

lemma lub_commute:
  assumes "scopes_wf rm"
  shows "map_option canon (lub_concrete_regions rm a b) = map_option canon (lub_concrete_regions rm b a)"
proof -
  have "lub_free_regions rm f g = lub_free_regions rm g f" for f g
    by (auto simp: lub_free_regions_def)
  then show ?thesis
    by (cases a rule: canon.cases; cases b rule: canon.cases)
      (auto simp: lub_concrete_regions_def region_eq_canon nearest_common_ancestor_commute [OF assms])
qed

section \<open>Properties\<close>

text \<open>
  C6. On concrete regions \<open>lub_concrete_regions\<close> returns without reporting a bug, its
  result is above both arguments for \<open>is_subregion_of\<close>, and the order of the arguments
  does not matter (up to the equality of regions).
\<close>

theorem lub_concrete_regions_bound:
  assumes "maps_ok rm" and "concrete a" and "concrete b"
  shows "\<exists>c. lub_concrete_regions rm a b = Some c \<and>
     is_subregion_of rm a c = Some True \<and> is_subregion_of rm b c = Some True \<and>
     (\<exists>c'. lub_concrete_regions rm b a = Some c' \<and> region_eq c c')"
proof -
  obtain c c' where "lub_concrete_regions rm a b = Some c" "subregion rm a c" "subregion rm b c"
    and "lub_concrete_regions rm b a = Some c'"
    using lub_ok [OF assms] lub_ok [OF assms(1,3,2)] by blast
  moreover have "scopes_wf rm" using assms(1) by (simp add: maps_ok_def)
  ultimately show ?thesis
    using lub_commute [of rm a b] by (simp add: is_subregion_of_eq [OF assms(1)] region_eq_canon)
qed

theorem lub_concrete_regions_bound_witness:
  "maps_ok sample_maps \<and> concrete (ReScope 4) \<and> concrete (ReScope 3) \<and>
   (\<exists>c. lub_concrete_regions sample_maps (ReScope 4) (ReScope 3) = Some c \<and>
        is_subregion_of sample_maps (ReScope 4) c = Some True)"
  using lub_concrete_regions_bound [OF sample_maps_ok(1), of "ReScope 4" "ReScope 3"] sample_maps_ok
  by auto

text \<open>
  C7. On concrete regions \<open>glb_concrete_regions\<close> returns without reporting a bug; a region
  it returns is below both arguments, and it reports no overlap only for regions neither of
  which contains the other.
\<close>

theorem glb_concrete_regions_bound:
  assumes "maps_ok rm" and "concrete a" and "concrete b"
  shows "\<exists>r. glb_concrete_regions rm a b = Some r \<and>
     (case r of
        Inr c \<Rightarrow> is_subregion_of rm c a = Some True \<and> is_subregion_of rm c b = Some True
      | Inl e \<Rightarrow> is_subregion_of rm a b = Some False \<and> is_subregion_of rm b a = Some False)"
proof -
  obtain r where "glb_concrete_regions rm a b = Some r" "glb_spec rm a b r"
    using glb_ok [OF assms] by blast
  then show ?thesis
    by (cases r) (auto simp: is_subregion_of_eq [OF assms(1)] glb_spec_def)
qed

theorem glb_concrete_regions_bound_witness:
  "maps_ok sample_maps \<and> concrete (ReScope 4) \<and> concrete (ReScope 2) \<and>
   (\<exists>c. glb_concrete_regions sample_maps (ReScope 4) (ReScope 2) = Some (Inr c) \<and>
        is_subregion_of sample_maps c (ReScope 2) = Some True)"
proof -
  obtain r where r: "glb_concrete_regions sample_maps (ReScope 4) (ReScope 2) = Some r"
    "case r of
        Inr c \<Rightarrow> is_subregion_of sample_maps c (ReScope 4) = Some True \<and>
                 is_subregion_of sample_maps c (ReScope 2) = Some True
      | Inl e \<Rightarrow> is_subregion_of sample_maps (ReScope 4) (ReScope 2) = Some False \<and>
                 is_subregion_of sample_maps (ReScope 2) (ReScope 4) = Some False"
    using glb_concrete_regions_bound [OF sample_maps_ok(1), of "ReScope 4" "ReScope 2"] by auto
  have "is_subregion_of sample_maps (ReScope 4) (ReScope 2) = Some True"
    using is_subregion_of_eq [OF sample_maps_ok(1)] sample_encloses by simp
  with r show ?thesis using sample_maps_ok by (cases r) auto
qed

end
