(* ===== verification/RegionConstraints.thy ===== *)
theory RegionConstraints
  imports RegionLattice "HOL-Library.AList"
begin

text \<open>
  The state of region inference (\<open>RegionVarBindings\<close> in
  \<open>region_inference/mod.rs\<close>): region variables, constraints between regions, the
  memoized lubs and glbs, and the undo log that snapshots roll back.

  Origins only travel through to error messages, so they are type variables: \<open>'vo\<close> for
  \<open>RegionVariableOrigin\<close>, \<open>'so\<close> for \<open>SubregionOrigin\<close>; a parameter
  \<open>misc\<close> stands for the conversion \<open>MiscVariable(origin.span())\<close>.  The hash map of
  constraints is an association list, whose order stands for the order in which the table
  is iterated; the two combine maps are never iterated and are functions.  Hashing looks at
  every field of a key, so keys are compared with \<open>=\<close>.
\<close>

section \<open>State\<close>

datatype constraint =
    ConstrainVarSubVar region_vid region_vid
  | ConstrainRegSubVar region region_vid
  | ConstrainVarSubReg region_vid region
  | ConstrainRegSubReg region region

type_synonym two_regions = "region \<times> region"

datatype combine_map_type = Lub | Glb

datatype undo_log_entry =
    Snapshot
  | AddVar region_vid
  | AddConstraint constraint
  | AddCombination combine_map_type two_regions

type_synonym combine_map = "two_regions \<rightharpoonup> region_vid"

datatype var_value = NoValue | Value region | ErrorValue

record ('vo, 'so) region_var_bindings =
  var_origins :: "'vo list"
  constraints :: "(constraint \<times> 'so) list"
  lubs :: combine_map
  glbs :: combine_map
  skolemization_count :: uint
  bound_count :: uint
  undo_log :: "undo_log_entry list"
  var_values :: "var_value list option"

definition new_region_var_bindings :: "('vo, 'so) region_var_bindings" where
  "new_region_var_bindings =
     \<lparr>var_origins = [], constraints = [], lubs = Map.empty, glbs = Map.empty,
      skolemization_count = 0, bound_count = 0, undo_log = [], var_values = None\<rparr>"

text \<open>\<open>HashMap::insert\<close>: replaces an existing value, and says whether the key was new.\<close>

definition hm_keys :: "('k \<times> 'v) list \<Rightarrow> 'k set" where
  "hm_keys m = fst ` set m"

definition hm_insert :: "'k \<Rightarrow> 'v \<Rightarrow> ('k \<times> 'v) list \<Rightarrow> bool \<times> ('k \<times> 'v) list" where
  "hm_insert k v m = (k \<notin> hm_keys m, AList.update k v m)"

lemma hm_keys_update [simp]: "hm_keys (AList.update k v m) = insert k (hm_keys m)"
  by (simp add: hm_keys_def dom_update)

lemma hm_keys_delete [simp]: "hm_keys (AList.delete k m) = hm_keys m - {k}"
  by (simp add: hm_keys_def dom_map_of_conv_image_fst [symmetric] delete_conv')

lemma hm_keys_Nil [simp]: "hm_keys [] = {}"
  by (simp add: hm_keys_def)

text \<open>Machine addition on \<open>uint\<close>.\<close>

definition uint_add :: "uint \<Rightarrow> uint \<Rightarrow> uint" where
  "uint_add a b = (a + b) mod (uint_max + 1)"

section \<open>Snapshots\<close>

definition in_snapshot :: "('vo, 'so) region_var_bindings \<Rightarrow> bool" where
  "in_snapshot st \<longleftrightarrow> length (undo_log st) > 0"

definition start_snapshot ::
  "('vo, 'so) region_var_bindings \<Rightarrow> uint \<times> ('vo, 'so) region_var_bindings" where
  "start_snapshot st =
     (if in_snapshot st then (length (undo_log st), st)
      else (0, st\<lparr>undo_log := undo_log st @ [Snapshot]\<rparr>))"

text \<open>\<open>commit\<close> pops the log until it is empty.\<close>

definition commit :: "('vo, 'so) region_var_bindings \<Rightarrow> ('vo, 'so) region_var_bindings" where
  "commit st = st\<lparr>undo_log := []\<rparr>"

fun undo_item ::
  "undo_log_entry \<Rightarrow> ('vo, 'so) region_var_bindings \<Rightarrow> ('vo, 'so) region_var_bindings option" where
  "undo_item Snapshot st = Some st"
| "undo_item (AddVar vid) st =
     (if length (var_origins st) = vid + 1
      then Some (st\<lparr>var_origins := butlast (var_origins st)\<rparr>) else None)"
| "undo_item (AddConstraint c) st = Some (st\<lparr>constraints := AList.delete c (constraints st)\<rparr>)"
| "undo_item (AddCombination Glb regions) st = Some (st\<lparr>glbs := (glbs st)(regions := None)\<rparr>)"
| "undo_item (AddCombination Lub regions) st = Some (st\<lparr>lubs := (lubs st)(regions := None)\<rparr>)"

lemma undo_item_log: "undo_item e st = Some st' \<Longrightarrow> undo_log st' = undo_log st"
  by (cases "(e, st)" rule: undo_item.cases) (auto split: if_splits)

function rollback_to ::
  "('vo, 'so) region_var_bindings \<Rightarrow> uint \<Rightarrow> ('vo, 'so) region_var_bindings option" where
  "rollback_to st snapshot =
     (if length (undo_log st) > snapshot
      then (case undo_item (last (undo_log st)) (st\<lparr>undo_log := butlast (undo_log st)\<rparr>) of
              None \<Rightarrow> None
            | Some st' \<Rightarrow> rollback_to st' snapshot)
      else Some st)"
  by pat_completeness auto
termination
  by (relation "measure (\<lambda>(st, n). length (undo_log st))") (auto dest: undo_item_log)

declare rollback_to.simps [simp del]

section \<open>Variables and constraints\<close>

definition num_vars :: "('vo, 'so) region_var_bindings \<Rightarrow> uint" where
  "num_vars st = length (var_origins st)"

definition log_entry ::
  "undo_log_entry \<Rightarrow> ('vo, 'so) region_var_bindings \<Rightarrow> ('vo, 'so) region_var_bindings" where
  "log_entry e st = (if in_snapshot st then st\<lparr>undo_log := undo_log st @ [e]\<rparr> else st)"

definition new_region_var ::
  "('vo, 'so) region_var_bindings \<Rightarrow> 'vo \<Rightarrow> region_vid \<times> ('vo, 'so) region_var_bindings" where
  "new_region_var st origin =
     (let vid = num_vars st
      in (vid, log_entry (AddVar vid) (st\<lparr>var_origins := var_origins st @ [origin]\<rparr>)))"

definition new_skolemized ::
  "('vo, 'so) region_var_bindings \<Rightarrow> bound_region \<Rightarrow> region \<times> ('vo, 'so) region_var_bindings" where
  "new_skolemized st br =
     (let sc = skolemization_count st
      in (ReInfer (ReSkolemized sc br), st\<lparr>skolemization_count := uint_add sc 1\<rparr>))"

text \<open>\<^const>\<open>None\<close>: the bug \<open>rollover in RegionInference new_bound()\<close>.\<close>

definition new_bound ::
  "('vo, 'so) region_var_bindings \<Rightarrow> node_id
     \<Rightarrow> (region \<times> ('vo, 'so) region_var_bindings) option" where
  "new_bound st binder_id =
     (let sc = bound_count st; st = st\<lparr>bound_count := uint_add sc 1\<rparr>
      in if sc \<ge> bound_count st then None
         else Some (ReLateBound binder_id (BrFresh sc), st))"

definition values_are_none :: "('vo, 'so) region_var_bindings \<Rightarrow> bool" where
  "values_are_none st \<longleftrightarrow> var_values st = None"

definition add_constraint ::
  "('vo, 'so) region_var_bindings \<Rightarrow> constraint \<Rightarrow> 'so
     \<Rightarrow> ('vo, 'so) region_var_bindings option" where
  "add_constraint st c origin =
     (if values_are_none st
      then case hm_insert c origin (constraints st) of
             (fresh, cs) \<Rightarrow>
               let st' = st\<lparr>constraints := cs\<rparr>
               in Some (if fresh then log_entry (AddConstraint c) st' else st')
      else None)"

definition make_subregion ::
  "('vo, 'so) region_var_bindings \<Rightarrow> 'so \<Rightarrow> region \<Rightarrow> region
     \<Rightarrow> ('vo, 'so) region_var_bindings option" where
  "make_subregion st origin sub super =
     (if values_are_none st
      then case (sub, super) of
             (ReEarlyBound _ _ _, _) \<Rightarrow> None
           | (ReLateBound _ _, _) \<Rightarrow> None
           | (_, ReEarlyBound _ _ _) \<Rightarrow> None
           | (_, ReLateBound _ _) \<Rightarrow> None
           | (ReInfer (ReVar sub_id), ReInfer (ReVar sup_id)) \<Rightarrow>
               add_constraint st (ConstrainVarSubVar sub_id sup_id) origin
           | (r, ReInfer (ReVar sup_id)) \<Rightarrow> add_constraint st (ConstrainRegSubVar r sup_id) origin
           | (ReInfer (ReVar sub_id), r) \<Rightarrow> add_constraint st (ConstrainVarSubReg sub_id r) origin
           | _ \<Rightarrow> add_constraint st (ConstrainRegSubReg sub super) origin
      else None)"

fun get_combine_map :: "combine_map_type \<Rightarrow> ('vo, 'so) region_var_bindings \<Rightarrow> combine_map" where
  "get_combine_map Glb st = glbs st"
| "get_combine_map Lub st = lubs st"

fun insert_combine_map ::
  "combine_map_type \<Rightarrow> two_regions \<Rightarrow> region_vid \<Rightarrow> ('vo, 'so) region_var_bindings
     \<Rightarrow> ('vo, 'so) region_var_bindings" where
  "insert_combine_map Glb rs c st = st\<lparr>glbs := (glbs st)(rs \<mapsto> c)\<rparr>"
| "insert_combine_map Lub rs c st = st\<lparr>lubs := (lubs st)(rs \<mapsto> c)\<rparr>"

definition combine_vars ::
  "('so \<Rightarrow> 'vo) \<Rightarrow> ('vo, 'so) region_var_bindings \<Rightarrow> combine_map_type \<Rightarrow> region \<Rightarrow> region \<Rightarrow> 'so
     \<Rightarrow> (('vo, 'so) region_var_bindings \<Rightarrow> region \<Rightarrow> region \<Rightarrow> ('vo, 'so) region_var_bindings option)
     \<Rightarrow> (region \<times> ('vo, 'so) region_var_bindings) option" where
  "combine_vars misc st t a b origin relate =
     (case get_combine_map t st (a, b) of
        Some c \<Rightarrow> Some (ReInfer (ReVar c), st)
      | None \<Rightarrow>
          (case new_region_var st (misc origin) of
             (c, st1) \<Rightarrow>
               do { let st2 = log_entry (AddCombination t (a, b)) (insert_combine_map t (a, b) c st1);
                    st3 \<leftarrow> relate st2 a (ReInfer (ReVar c));
                    st4 \<leftarrow> relate st3 b (ReInfer (ReVar c));
                    Some (ReInfer (ReVar c), st4) }))"

definition lub_regions ::
  "('so \<Rightarrow> 'vo) \<Rightarrow> ('vo, 'so) region_var_bindings \<Rightarrow> 'so \<Rightarrow> region \<Rightarrow> region
     \<Rightarrow> (region \<times> ('vo, 'so) region_var_bindings) option" where
  "lub_regions misc st origin a b =
     (if values_are_none st
      then case (a, b) of
             (ReStatic, _) \<Rightarrow> Some (ReStatic, st)
           | (_, ReStatic) \<Rightarrow> Some (ReStatic, st)
           | _ \<Rightarrow> combine_vars misc st Lub a b origin
                    (\<lambda>this old_r new_r. make_subregion this origin old_r new_r)
      else None)"

definition glb_regions ::
  "('so \<Rightarrow> 'vo) \<Rightarrow> ('vo, 'so) region_var_bindings \<Rightarrow> 'so \<Rightarrow> region \<Rightarrow> region
     \<Rightarrow> (region \<times> ('vo, 'so) region_var_bindings) option" where
  "glb_regions misc st origin a b =
     (if values_are_none st
      then case (a, b) of
             (ReStatic, r) \<Rightarrow> Some (r, st)
           | (r, ReStatic) \<Rightarrow> Some (r, st)
           | _ \<Rightarrow> combine_vars misc st Glb a b origin
                    (\<lambda>this old_r new_r. make_subregion this origin new_r old_r)
      else None)"

definition resolve_var :: "('vo, 'so) region_var_bindings \<Rightarrow> region_vid \<Rightarrow> region option" where
  "resolve_var st rid =
     (case var_values st of
        None \<Rightarrow> None
      | Some vs \<Rightarrow>
          do { v \<leftarrow> vec_get vs rid;
               case v of
                 Value r \<Rightarrow> Some r
               | NoValue \<Rightarrow> Some ReEmpty
               | ErrorValue \<Rightarrow> Some ReStatic })"

definition vars_created_since_snapshot ::
  "('vo, 'so) region_var_bindings \<Rightarrow> uint \<Rightarrow> region_vid list option" where
  "vars_created_since_snapshot st snapshot =
     (if snapshot \<le> length (undo_log st)
      then Some (List.map_filter (\<lambda>elt. case elt of AddVar vid \<Rightarrow> Some vid | _ \<Rightarrow> None)
             (drop snapshot (undo_log st)))
      else None)"

section \<open>Tainted regions\<close>

definition consider_adding_edge ::
  "region list \<Rightarrow> region \<Rightarrow> region \<Rightarrow> region \<Rightarrow> region list" where
  "consider_adding_edge result_set r r1 r2 =
     (if region_eq r r1
      then if \<exists>x \<in> set result_set. region_eq x r2 then result_set else result_set @ [r2]
      else result_set)"

fun constraint_regions :: "undo_log_entry \<Rightarrow> (region \<times> region) option" where
  "constraint_regions (AddConstraint (ConstrainVarSubVar a b)) =
     Some (ReInfer (ReVar a), ReInfer (ReVar b))"
| "constraint_regions (AddConstraint (ConstrainRegSubVar a b)) = Some (a, ReInfer (ReVar b))"
| "constraint_regions (AddConstraint (ConstrainVarSubReg a b)) = Some (ReInfer (ReVar a), b)"
| "constraint_regions (AddConstraint (ConstrainRegSubReg a b)) = Some (a, b)"
| "constraint_regions _ = None"

text \<open>The inner loop, over the log entries from the snapshot on.\<close>

fun taint_entries :: "region \<Rightarrow> undo_log_entry list \<Rightarrow> region list \<Rightarrow> region list" where
  "taint_entries r [] result_set = result_set"
| "taint_entries r (e # es) result_set =
     (case constraint_regions e of
        None \<Rightarrow> taint_entries r es result_set
      | Some (r1, r2) \<Rightarrow>
          taint_entries r es
            (consider_adding_edge (consider_adding_edge result_set r r1 r2) r r2 r1))"

definition tainted ::
  "('vo, 'so) region_var_bindings \<Rightarrow> uint \<Rightarrow> region \<Rightarrow> region list option" where
  "tainted st snapshot r0 =
     worklist (\<lambda>result_set r. taint_entries r (drop snapshot (undo_log st)) result_set) 0 [r0]"

section \<open>Rolling back\<close>

text \<open>
  Two states agree when everything a rollback promises to restore is the same: an
  overwritten origin of a constraint that was there already is not restored.
\<close>

definition agree ::
  "('vo, 'so) region_var_bindings \<Rightarrow> ('vo, 'so) region_var_bindings \<Rightarrow> bool" where
  "agree st st' \<longleftrightarrow>
     var_origins st = var_origins st' \<and> hm_keys (constraints st) = hm_keys (constraints st') \<and>
     lubs st = lubs st' \<and> glbs st = glbs st' \<and> undo_log st = undo_log st'"

text \<open>What was done can be undone.\<close>

definition revertible ::
  "('vo, 'so) region_var_bindings \<Rightarrow> ('vo, 'so) region_var_bindings \<Rightarrow> bool" where
  "revertible st st' \<longleftrightarrow>
     length (undo_log st) \<le> length (undo_log st') \<and>
     (\<exists>st''. rollback_to st' (length (undo_log st)) = Some st'' \<and> agree st'' st)"

lemma agree_refl [simp]: "agree st st"
  by (simp add: agree_def)

lemma agree_trans: "agree a b \<Longrightarrow> agree b c \<Longrightarrow> agree a c"
  by (simp add: agree_def)

lemma undo_item_agree:
  assumes "agree st st'" "undo_item e st = Some u"
  shows "\<exists>u'. undo_item e st' = Some u' \<and> agree u u'"
proof (cases e)
  case Snapshot
  with assms show ?thesis by simp
next
  case (AddVar v)
  with assms show ?thesis by (simp add: agree_def split: if_splits) force
next
  case (AddConstraint c)
  with assms show ?thesis by (force simp: agree_def)
next
  case (AddCombination t rs)
  with assms show ?thesis by (cases t) (simp add: agree_def, force)+
qed

lemma rollback_to_agree:
  "agree st st' \<Longrightarrow> rollback_to st n = Some u \<Longrightarrow> \<exists>u'. rollback_to st' n = Some u' \<and> agree u u'"
proof (induction st n arbitrary: st' rule: rollback_to.induct)
  case (1 st n)
  have log: "undo_log st' = undo_log st" using "1.prems"(1) by (simp add: agree_def)
  show ?case
  proof (cases "length (undo_log st) > n")
    case False
    with 1 log show ?thesis by (auto simp: rollback_to.simps [of st] rollback_to.simps [of st'])
  next
    case True
    let ?e = "last (undo_log st)" and ?s = "st\<lparr>undo_log := butlast (undo_log st)\<rparr>"
      and ?s' = "st'\<lparr>undo_log := butlast (undo_log st)\<rparr>"
    obtain v where v: "undo_item ?e ?s = Some v" "rollback_to v n = Some u"
      using "1.prems"(2) True by (auto simp: rollback_to.simps [of st] split: option.splits)
    have "agree ?s ?s'" using "1.prems"(1) by (simp add: agree_def)
    from undo_item_agree [OF this v(1)] obtain v' where v': "undo_item ?e ?s' = Some v'" "agree v v'"
      by blast
    from "1.IH" [OF True v(1) v'(2) v(2)] v'(1) True log show ?thesis
      by (auto simp: rollback_to.simps [of st'])
  qed
qed

lemma rollback_to_split:
  "m \<le> n \<Longrightarrow> rollback_to st m = Option.bind (rollback_to st n) (\<lambda>st'. rollback_to st' m)"
proof (induction st n rule: rollback_to.induct)
  case (1 st n)
  show ?case
  proof (cases "length (undo_log st) > n")
    case False
    then show ?thesis by (simp add: rollback_to.simps [of st n])
  next
    case True
    then have "length (undo_log st) > m" using "1.prems" by simp
    with True 1 show ?thesis
      by (auto simp: rollback_to.simps [of st n] rollback_to.simps [of st m] split: option.splits)
  qed
qed

lemma revertible_refl [simp]: "revertible st st"
  by (auto simp: revertible_def rollback_to.simps [of st])

lemma revertible_trans:
  assumes "revertible a b" "revertible b c"
  shows "revertible a c"
proof -
  obtain b' where b': "rollback_to c (length (undo_log b)) = Some b'" "agree b' b"
    using assms(2) by (auto simp: revertible_def)
  obtain a' where a': "rollback_to b (length (undo_log a)) = Some a'" "agree a' a"
    using assms(1) by (auto simp: revertible_def)
  have "agree b b'" using b'(2) by (simp add: agree_def)
  from rollback_to_agree [OF this a'(1)] obtain a'' where
    "rollback_to b' (length (undo_log a)) = Some a''" "agree a' a''" by blast
  moreover have "length (undo_log a) \<le> length (undo_log b)" "length (undo_log b) \<le> length (undo_log c)"
    using assms by (auto simp: revertible_def)
  ultimately show ?thesis
    using b'(1) a'(2) rollback_to_split [of "length (undo_log a)" "length (undo_log b)" c]
    by (auto simp: revertible_def agree_def)
qed

lemma revertible_agree: "agree st' st \<Longrightarrow> revertible st st'"
  by (auto simp: revertible_def agree_def rollback_to.simps [of st'])

text \<open>A step that appends one log entry, and whose entry undoes it.\<close>

lemma revertible_log:
  assumes "undo_log st' = undo_log st @ [e]"
    and "undo_item e (st'\<lparr>undo_log := undo_log st\<rparr>) = Some u" and "agree u st"
  shows "revertible st st'"
proof -
  have "undo_log u = undo_log st" using assms(3) by (simp add: agree_def)
  with assms show ?thesis
    by (simp add: revertible_def rollback_to.simps [of st'] rollback_to.simps [of u])
qed

lemma in_snapshot_revertible: "in_snapshot st \<Longrightarrow> revertible st st' \<Longrightarrow> in_snapshot st'"
  by (auto simp: in_snapshot_def revertible_def)

lemma new_region_var_revertible:
  assumes "in_snapshot st" "new_region_var st origin = (vid, st')"
  shows "revertible st st'"
  by (rule revertible_log [where e = "AddVar (num_vars st)" and u = st])
    (use assms in \<open>auto simp: new_region_var_def log_entry_def in_snapshot_def num_vars_def Let_def\<close>)

lemma add_constraint_revertible:
  assumes "in_snapshot st" "add_constraint st c origin = Some st'"
  shows "revertible st st'"
proof (cases "c \<in> hm_keys (constraints st)")
  case True
  with assms show ?thesis
    by (intro revertible_agree)
      (auto simp: add_constraint_def hm_insert_def agree_def Let_def insert_absorb split: if_splits)
next
  case False
  have keys: "hm_keys (AList.delete c (AList.update c origin (constraints st))) = hm_keys (constraints st)"
    using False by simp
  have st': "st' = st\<lparr>constraints := AList.update c origin (constraints st),
      undo_log := undo_log st @ [AddConstraint c]\<rparr>"
    using assms False by (auto simp: add_constraint_def hm_insert_def log_entry_def in_snapshot_def Let_def
        split: if_splits)
  show ?thesis
    by (rule revertible_log [where e = "AddConstraint c" and
          u = "st\<lparr>constraints := AList.delete c (AList.update c origin (constraints st))\<rparr>"])
      (simp_all add: st' agree_def keys False)
qed

text \<open>The constraint that relating two regions adds.\<close>

fun as_var :: "region \<Rightarrow> region_vid option" where
  "as_var (ReInfer (ReVar v)) = Some v"
| "as_var _ = None"

definition subregion_constraint :: "region \<Rightarrow> region \<Rightarrow> constraint" where
  "subregion_constraint a b =
     (case (as_var a, as_var b) of
        (Some x, Some y) \<Rightarrow> ConstrainVarSubVar x y
      | (None, Some y) \<Rightarrow> ConstrainRegSubVar a y
      | (Some x, None) \<Rightarrow> ConstrainVarSubReg x b
      | (None, None) \<Rightarrow> ConstrainRegSubReg a b)"

fun is_bound :: "region \<Rightarrow> bool" where
  "is_bound (ReEarlyBound _ _ _) = True"
| "is_bound (ReLateBound _ _) = True"
| "is_bound _ = False"

lemma make_subregion_eq:
  "make_subregion st origin a b =
     (if is_bound a \<or> is_bound b then None else add_constraint st (subregion_constraint a b) origin)"
proof (cases "values_are_none st")
  case True
  then show ?thesis
    by (cases a rule: canon.cases; cases b rule: canon.cases)
      (simp_all add: make_subregion_def subregion_constraint_def)
next
  case False
  then show ?thesis by (simp add: make_subregion_def add_constraint_def)
qed

lemma make_subregion_revertible:
  "in_snapshot st \<Longrightarrow> make_subregion st origin a b = Some st' \<Longrightarrow> revertible st st'"
  by (auto simp: make_subregion_eq split: if_splits intro: add_constraint_revertible)

lemma combine_insert_revertible:
  assumes "in_snapshot st" "get_combine_map t st rs = None"
  shows "revertible st (log_entry (AddCombination t rs) (insert_combine_map t rs c st))"
proof -
  let ?u = "(insert_combine_map t rs c st)\<lparr>undo_log := undo_log st @ [AddCombination t rs]\<rparr>"
  have "log_entry (AddCombination t rs) (insert_combine_map t rs c st) = ?u"
    using assms(1) by (cases t) (simp_all add: log_entry_def in_snapshot_def)
  moreover have "revertible st ?u"
    by (rule revertible_log [where e = "AddCombination t rs" and u = st])
      (use assms(2) in \<open>cases t; simp add: fun_upd_idem\<close>)+
  ultimately show ?thesis by simp
qed

lemma combine_vars_revertible:
  assumes "in_snapshot st" "combine_vars misc st t a b origin relate = Some (r, st')"
    and relate: "\<And>s x y s'. in_snapshot s \<Longrightarrow> relate s x y = Some s' \<Longrightarrow> revertible s s'"
  shows "revertible st st'"
proof (cases "get_combine_map t st (a, b)")
  case (Some c)
  with assms(2) show ?thesis by (simp add: combine_vars_def)
next
  case None
  obtain c st1 where 1: "new_region_var st (misc origin) = (c, st1)" by fastforce
  let ?st2 = "log_entry (AddCombination t (a, b)) (insert_combine_map t (a, b) c st1)"
  obtain st3 where 3: "relate ?st2 a (ReInfer (ReVar c)) = Some st3"
    and 4: "relate st3 b (ReInfer (ReVar c)) = Some st'"
    using assms(2) None 1 by (auto simp: combine_vars_def Let_def split: bind_splits)
  have r1: "revertible st st1" by (rule new_region_var_revertible [OF assms(1) 1])
  note s1 = in_snapshot_revertible [OF assms(1) r1]
  have "get_combine_map t st1 (a, b) = None"
    using None 1 by (cases t) (auto simp: new_region_var_def log_entry_def Let_def)
  note r2 = combine_insert_revertible [OF s1 this, of c]
  note s2 = in_snapshot_revertible [OF s1 r2]
  note r3 = relate [OF s2 3] and r4 = relate [OF in_snapshot_revertible [OF s2 relate [OF s2 3]] 4]
  show ?thesis by (blast intro: revertible_trans r1 r2 r3 r4)
qed

text \<open>The operations that run between a snapshot and its rollback, nested probes included.\<close>

datatype ('vo, 'so) rvb_op =
    NewVar 'vo
  | NewSkolemized bound_region
  | NewBound node_id
  | MakeSubregion 'so region region
  | LubRegions 'so region region
  | GlbRegions 'so region region
  | Probe "('vo, 'so) rvb_op list"

fun run_op :: "('so \<Rightarrow> 'vo) \<Rightarrow> ('vo, 'so) rvb_op \<Rightarrow> ('vo, 'so) region_var_bindings
      \<Rightarrow> ('vo, 'so) region_var_bindings option"
  and run_ops :: "('so \<Rightarrow> 'vo) \<Rightarrow> ('vo, 'so) rvb_op list \<Rightarrow> ('vo, 'so) region_var_bindings
      \<Rightarrow> ('vo, 'so) region_var_bindings option" where
  "run_op misc (NewVar o1) st = Some (snd (new_region_var st o1))"
| "run_op misc (NewSkolemized br) st = Some (snd (new_skolemized st br))"
| "run_op misc (NewBound i) st = map_option snd (new_bound st i)"
| "run_op misc (MakeSubregion o1 a b) st = make_subregion st o1 a b"
| "run_op misc (LubRegions o1 a b) st = map_option snd (lub_regions misc st o1 a b)"
| "run_op misc (GlbRegions o1 a b) st = map_option snd (glb_regions misc st o1 a b)"
| "run_op misc (Probe ops) st =
     (case start_snapshot st of
        (n, st1) \<Rightarrow> Option.bind (run_ops misc ops st1) (\<lambda>st2. rollback_to st2 n))"
| "run_ops misc [] st = Some st"
| "run_ops misc (x # xs) st = Option.bind (run_op misc x st) (run_ops misc xs)"

lemma lub_regions_revertible:
  assumes "in_snapshot st" "lub_regions misc st o1 a b = Some (r, st')"
  shows "revertible st st'"
proof (cases "a = ReStatic \<or> b = ReStatic")
  case True
  with assms show ?thesis
    by (cases a; cases b) (auto simp: lub_regions_def split: if_splits)
next
  case False
  then have "lub_regions misc st o1 a b =
      (if values_are_none st then combine_vars misc st Lub a b o1 (\<lambda>this x y. make_subregion this o1 x y) else None)"
    by (cases a; cases b) (simp_all add: lub_regions_def)
  with assms show ?thesis
    by (auto split: if_splits intro: combine_vars_revertible make_subregion_revertible)
qed

lemma glb_regions_revertible:
  assumes "in_snapshot st" "glb_regions misc st o1 a b = Some (r, st')"
  shows "revertible st st'"
proof (cases "a = ReStatic \<or> b = ReStatic")
  case True
  with assms show ?thesis
    by (cases a; cases b) (auto simp: glb_regions_def split: if_splits)
next
  case False
  then have "glb_regions misc st o1 a b =
      (if values_are_none st then combine_vars misc st Glb a b o1 (\<lambda>this x y. make_subregion this o1 y x) else None)"
    by (cases a; cases b) (simp_all add: glb_regions_def)
  with assms show ?thesis
    by (auto split: if_splits intro: combine_vars_revertible make_subregion_revertible)
qed

lemma run_op_revertible:
  "in_snapshot st \<Longrightarrow> run_op misc x st = Some st' \<Longrightarrow> revertible st st'"
  "in_snapshot st \<Longrightarrow> run_ops misc xs st = Some st' \<Longrightarrow> revertible st st'"
proof (induction misc x st and misc xs st arbitrary: st' and st' rule: run_op_run_ops.induct)
  case (1 misc o1 st)
  then show ?case using new_region_var_revertible [of st o1] by (cases "new_region_var st o1") simp
next
  case (2 misc br st)
  then show ?case by (intro revertible_agree) (auto simp: new_skolemized_def agree_def Let_def)
next
  case (3 misc i st)
  then show ?case
    by (intro revertible_agree) (auto simp: new_bound_def agree_def Let_def split: if_splits)
next
  case (4 misc o1 a b st)
  then show ?case by (auto intro: make_subregion_revertible)
next
  case (5 misc o1 a b st)
  then show ?case by (auto intro: lub_regions_revertible)
next
  case (6 misc o1 a b st)
  then show ?case by (auto intro: glb_regions_revertible)
next
  case (7 misc ops st)
  then have ss: "start_snapshot st = (length (undo_log st), st)" by (simp add: start_snapshot_def)
  with "7.prems" obtain st2 where st2: "run_ops misc ops st = Some st2"
    "rollback_to st2 (length (undo_log st)) = Some st'" by (auto split: bind_splits)
  from "7.IH" [OF ss [symmetric] "7.prems"(1) st2(1)] st2(2)
  have "agree st' st" by (simp add: revertible_def)
  then show ?case by (rule revertible_agree)
next
  case (8 misc st)
  then show ?case by simp
next
  case (9 misc x xs st)
  then obtain st1 where 1: "run_op misc x st = Some st1" "run_ops misc xs st1 = Some st'"
    by (auto split: bind_splits)
  note r1 = "9.IH"(1) [OF "9.prems"(1) 1(1)]
  from "9.IH"(2) [OF 1(1) in_snapshot_revertible [OF "9.prems"(1) r1] 1(2)] r1
  show ?case by (rule revertible_trans [rotated])
qed

lemma start_snapshot_revertible:
  assumes "start_snapshot st = (n, st1)"
  shows "revertible st st1" "in_snapshot st1" "n = length (undo_log st)"
proof -
  show "n = length (undo_log st)" "in_snapshot st1"
    using assms by (auto simp: start_snapshot_def in_snapshot_def split: if_splits)
  show "revertible st st1"
  proof (cases "in_snapshot st")
    case True
    then show ?thesis using assms by (simp add: start_snapshot_def)
  next
    case False
    with assms have "st1 = st\<lparr>undo_log := undo_log st @ [Snapshot]\<rparr>" by (auto simp: start_snapshot_def)
    then show ?thesis by (intro revertible_log [where e = Snapshot and u = st]) simp_all
  qed
qed

subsection \<open>Taint propagation\<close>

text \<open>One undirected step along a constraint logged since the snapshot, on regions up to the
  equality of the source.\<close>

definition taint_rel :: "undo_log_entry list \<Rightarrow> (region \<times> region) set" where
  "taint_rel es = {(canon a, canon b) | a b e. e \<in> set es \<and>
     (constraint_regions e = Some (a, b) \<or> constraint_regions e = Some (b, a))}"

definition taint_nbrs :: "undo_log_entry list \<Rightarrow> region \<Rightarrow> region list" where
  "taint_nbrs es x = concat (map (\<lambda>e. case constraint_regions e of None \<Rightarrow> []
     | Some (a, b) \<Rightarrow> (if x = canon a then [canon b] else []) @ (if x = canon b then [canon a] else [])) es)"

lemma taint_nbrs_iff:
  "y \<in> set (taint_nbrs es x) \<longleftrightarrow> (\<exists>e \<in> set es. \<exists>a b. constraint_regions e = Some (a, b) \<and>
     (x = canon a \<and> y = canon b \<or> x = canon b \<and> y = canon a))"
proof (induction es)
  case (Cons e es)
  have "taint_nbrs (e # es) x = taint_nbrs [e] x @ taint_nbrs es x" by (simp add: taint_nbrs_def)
  moreover have "y \<in> set (taint_nbrs [e] x) \<longleftrightarrow> (\<exists>a b. constraint_regions e = Some (a, b) \<and>
     (x = canon a \<and> y = canon b \<or> x = canon b \<and> y = canon a))"
  proof (cases "constraint_regions e")
    case None
    then show ?thesis by (simp add: taint_nbrs_def)
  next
    case (Some p)
    obtain a b where p: "p = (a, b)" by fastforce
    have "taint_nbrs [e] x = (if x = canon a then [canon b] else []) @ (if x = canon b then [canon a] else [])"
      by (simp add: taint_nbrs_def Some p)
    then have "y \<in> set (taint_nbrs [e] x) \<longleftrightarrow> x = canon a \<and> y = canon b \<or> x = canon b \<and> y = canon a"
      by (cases "x = canon a"; cases "x = canon b") simp_all
    then show ?thesis unfolding Some p by blast
  qed
  ultimately show ?case using Cons.IH by (simp only: set_simps bex_simps set_append Un_iff)
qed (simp add: taint_nbrs_def)

lemma nbr_rel_taint_nbrs: "nbr_rel (taint_nbrs es) = taint_rel es"
  unfolding nbr_rel_def taint_nbrs_iff taint_rel_def by blast

lemma map_canon_consider:
  "map canon (consider_adding_edge q r r1 r2) =
   foldl push_new (map canon q) (if canon r = canon r1 then [canon r2] else [])"
  by (auto simp: consider_adding_edge_def push_new_def region_eq_canon image_iff)

lemma map_canon_taint_entries:
  "map canon (taint_entries r es q) = foldl push_new (map canon q) (taint_nbrs es (canon r))"
  by (induction es arbitrary: q)
    (auto simp: taint_nbrs_def map_canon_consider simp flip: foldl_append split: option.splits)

lemma taint_entries_ext: "\<exists>q'. taint_entries r es q = q @ q'"
proof (induction es arbitrary: q)
  case (Cons e es)
  have "\<exists>q'. consider_adding_edge q r a b = q @ q'" for q a b
    by (simp add: consider_adding_edge_def)
  with Cons show ?case
    by (simp split: option.splits) (metis append_assoc)
qed simp

definition taint_universe :: "undo_log_entry list \<Rightarrow> region set" where
  "taint_universe es = (\<Union>e \<in> set es. case constraint_regions e of None \<Rightarrow> {}
     | Some (a, b) \<Rightarrow> {canon a, canon b})"

lemma taint_universe:
  "finite (taint_universe es)" "set (taint_nbrs es x) \<subseteq> taint_universe es"
proof -
  show "finite (taint_universe es)"
    unfolding taint_universe_def by (intro finite_UN_I) (auto split: option.splits)
  show "set (taint_nbrs es x) \<subseteq> taint_universe es"
  proof
    fix y assume "y \<in> set (taint_nbrs es x)"
    then show "y \<in> taint_universe es"
      unfolding taint_nbrs_iff taint_universe_def by (force split: option.splits)
  qed
qed

text \<open>
  C4. Whatever sequence of operations runs after \<^const>\<open>start_snapshot\<close> -- fresh variables,
  skolemized and bound regions, subregion constraints, least upper and greatest lower bounds,
  and nested snapshots rolled back on the way -- rolling back to that snapshot succeeds and
  restores the variables, the set of constraints, both combination maps and the undo log.
\<close>

theorem rollback_to_restores:
  assumes "start_snapshot st = (n, st1)" and "run_ops misc ops st1 = Some st2"
  shows "\<exists>st3. rollback_to st2 n = Some st3 \<and> agree st3 st"
proof -
  note ss = start_snapshot_revertible [OF assms(1)]
  from revertible_trans [OF ss(1) run_op_revertible(2) [OF ss(2) assms(2)]] ss(3)
  show ?thesis by (simp add: revertible_def)
qed

definition sample_ops :: "(nat, nat) rvb_op list" where
  "sample_ops = [NewVar 1, NewVar 2, MakeSubregion 3 (ReInfer (ReVar 0)) (ReInfer (ReVar 1)),
     LubRegions 4 (ReScope 7) (ReInfer (ReVar 1)), Probe [NewVar 5, NewVar 6]]"

theorem rollback_to_restores_witness:
  "\<exists>st1 st2 st3. start_snapshot new_region_var_bindings = (0, st1) \<and>
     run_ops (\<lambda>x. x) sample_ops st1 = Some st2 \<and> num_vars st2 = 3 \<and>
     rollback_to st2 0 = Some st3 \<and> agree st3 (new_region_var_bindings :: (nat, nat) region_var_bindings)"
proof -
  obtain st1 where 1: "start_snapshot (new_region_var_bindings :: (nat, nat) region_var_bindings) = (0, st1)"
    by (simp add: start_snapshot_def new_region_var_bindings_def in_snapshot_def)
  have "map_option num_vars (run_ops (\<lambda>x. x) sample_ops
      (snd (start_snapshot (new_region_var_bindings :: (nat, nat) region_var_bindings)))) = Some 3"
    by code_simp
  then obtain st2 where 2: "run_ops (\<lambda>x. x) sample_ops st1 = Some st2" "num_vars st2 = 3"
    by (auto simp: 1)
  from rollback_to_restores [OF 1 2(1)] 1 2 show ?thesis by blast
qed

text \<open>
  C5. \<^const>\<open>tainted\<close> returns, its result starts with the region asked about, holds no
  region twice, and is exactly the set of regions connected to it, in either direction, by
  constraints added since the snapshot.
\<close>

theorem tainted_reachable:
  "\<exists>rs. tainted st snapshot r0 = Some rs \<and> hd rs = r0 \<and> distinct (map canon rs) \<and>
     canon ` set rs = {r. (canon r0, r) \<in> (taint_rel (drop snapshot (undo_log st)))\<^sup>*}"
proof -
  let ?es = "drop snapshot (undo_log st)"
  have "\<exists>q. worklist (\<lambda>q r. taint_entries r ?es q) 0 [r0] = Some q \<and> distinct (map canon q) \<and>
      hd q = r0 \<and> canon ` set q = {b. (canon r0, b) \<in> (nbr_rel (taint_nbrs ?es))\<^sup>*}"
    by (rule worklist_reach [where U = "insert (canon r0) (taint_universe ?es)"])
      (use taint_universe in \<open>auto simp: map_canon_taint_entries taint_entries_ext\<close>)
  then show ?thesis by (auto simp: tainted_def nbr_rel_taint_nbrs)
qed

end
