(* ===== verification/Graph.thy ===== *)
theory Graph
  imports Loops
begin

text \<open>
  The graph of \<open>librustc/middle/graph.rs\<close>: nodes and edges in two vectors, every edge
  threaded onto the outgoing list of its source and the incoming list of its target.
  The two-element arrays \<open>first_edge\<close> and \<open>next_edge\<close> are pairs indexed by the
  direction; the callbacks of the iteration functions are functions that pass the state
  they capture.
\<close>

section \<open>Data\<close>

type_synonym node_index = uint
type_synonym edge_index = uint

datatype direction = Outgoing | Incoming

record 'n node =
  first_edge :: "edge_index \<times> edge_index"
  node_data :: 'n

record 'e edge =
  next_edge :: "edge_index \<times> edge_index"
  source :: node_index
  target :: node_index
  edge_data :: 'e

record ('n, 'e) graph =
  nodes :: "'n node list"
  edges :: "'e edge list"

definition InvalidNodeIndex :: node_index where
  "InvalidNodeIndex = uint_max"

definition InvalidEdgeIndex :: edge_index where
  "InvalidEdgeIndex = uint_max"

text \<open>Indexing a \<open>[EdgeIndex, ..2]\<close> by \<open>Direction.repr\<close>.\<close>

fun repr :: "direction \<Rightarrow> 'a \<times> 'a \<Rightarrow> 'a" where
  "repr Outgoing p = fst p"
| "repr Incoming p = snd p"

fun set_repr :: "direction \<Rightarrow> 'a \<Rightarrow> 'a \<times> 'a \<Rightarrow> 'a \<times> 'a" where
  "set_repr Outgoing x p = (x, snd p)"
| "set_repr Incoming x p = (fst p, x)"

section \<open>Operations\<close>

definition graph_new :: "('n, 'e) graph" where
  "graph_new = \<lparr>nodes = [], edges = []\<rparr>"

text \<open>The capacities only reserve memory.\<close>

definition graph_with_capacity :: "uint \<Rightarrow> uint \<Rightarrow> ('n, 'e) graph" where
  "graph_with_capacity num_nodes num_edges = \<lparr>nodes = [], edges = []\<rparr>"

definition next_node_index :: "('n, 'e) graph \<Rightarrow> node_index" where
  "next_node_index g = length (nodes g)"

definition add_node :: "('n, 'e) graph \<Rightarrow> 'n \<Rightarrow> node_index \<times> ('n, 'e) graph" where
  "add_node g d =
     (let idx = next_node_index g
      in (idx, g\<lparr>nodes := nodes g @
            [\<lparr>first_edge = (InvalidEdgeIndex, InvalidEdgeIndex), node_data = d\<rparr>]\<rparr>))"

definition next_edge_index :: "('n, 'e) graph \<Rightarrow> edge_index" where
  "next_edge_index g = length (edges g)"

definition set_first_edge ::
  "'n node list \<Rightarrow> node_index \<Rightarrow> direction \<Rightarrow> edge_index \<Rightarrow> 'n node list option" where
  "set_first_edge ns n dir idx =
     do { nd \<leftarrow> vec_get ns n;
          vec_set ns n (nd\<lparr>first_edge := set_repr dir idx (first_edge nd)\<rparr>) }"

definition add_edge ::
  "('n, 'e) graph \<Rightarrow> node_index \<Rightarrow> node_index \<Rightarrow> 'e
     \<Rightarrow> (edge_index \<times> ('n, 'e) graph) option" where
  "add_edge g src tgt d =
     do { let idx = next_edge_index g;
          sn \<leftarrow> vec_get (nodes g) src;
          let source_first = repr Outgoing (first_edge sn);
          tn \<leftarrow> vec_get (nodes g) tgt;
          let target_first = repr Incoming (first_edge tn);
          let es = edges g @ [\<lparr>next_edge = (source_first, target_first),
                                source = src, target = tgt, edge_data = d\<rparr>];
          ns1 \<leftarrow> set_first_edge (nodes g) src Outgoing idx;
          ns2 \<leftarrow> set_first_edge ns1 tgt Incoming idx;
          Some (idx, \<lparr>nodes = ns2, edges = es\<rparr>) }"

definition first_adjacent ::
  "('n, 'e) graph \<Rightarrow> node_index \<Rightarrow> direction \<Rightarrow> edge_index option" where
  "first_adjacent g n dir = map_option (\<lambda>nd. repr dir (first_edge nd)) (vec_get (nodes g) n)"

definition next_adjacent ::
  "('n, 'e) graph \<Rightarrow> edge_index \<Rightarrow> direction \<Rightarrow> edge_index option" where
  "next_adjacent g e dir = map_option (\<lambda>ed. repr dir (next_edge ed)) (vec_get (edges g) e)"

text \<open>
  \<open>iter().enumerate().advance(f)\<close>: visit in index order while \<open>f\<close> returns true.
\<close>

fun advance ::
  "(uint \<Rightarrow> 'a \<Rightarrow> 's \<Rightarrow> bool \<times> 's) \<Rightarrow> uint \<Rightarrow> 'a list \<Rightarrow> 's \<Rightarrow> bool \<times> 's" where
  "advance f i [] s = (True, s)"
| "advance f i (x # xs) s =
     (case f i x s of (go, s') \<Rightarrow> if go then advance f (Suc i) xs s' else (False, s'))"

definition each_node ::
  "('n, 'e) graph \<Rightarrow> (node_index \<Rightarrow> 'n node \<Rightarrow> 's \<Rightarrow> bool \<times> 's) \<Rightarrow> 's \<Rightarrow> bool \<times> 's" where
  "each_node g f s = advance f 0 (nodes g) s"

definition each_edge ::
  "('n, 'e) graph \<Rightarrow> (edge_index \<Rightarrow> 'e edge \<Rightarrow> 's \<Rightarrow> bool \<times> 's) \<Rightarrow> 's \<Rightarrow> bool \<times> 's" where
  "each_edge g f s = advance f 0 (edges g) s"

text \<open>The \<open>while\<close> loop of \<open>each_adjacent_edge\<close>, from a given edge on.\<close>

partial_function (option) adjacent_loop ::
  "('n, 'e) graph \<Rightarrow> direction \<Rightarrow> (edge_index \<Rightarrow> 'e edge \<Rightarrow> 's \<Rightarrow> bool \<times> 's)
     \<Rightarrow> edge_index \<Rightarrow> 's \<Rightarrow> (bool \<times> 's) option" where
  "adjacent_loop g dir f edge_idx s =
     (if edge_idx = InvalidEdgeIndex then Some (True, s)
      else case vec_get (edges g) edge_idx of
             None \<Rightarrow> None
           | Some ed \<Rightarrow>
               (case f edge_idx ed s of
                  (go, s') \<Rightarrow>
                    if go then adjacent_loop g dir f (repr dir (next_edge ed)) s'
                    else Some (False, s')))"

definition each_adjacent_edge ::
  "('n, 'e) graph \<Rightarrow> node_index \<Rightarrow> direction
     \<Rightarrow> (edge_index \<Rightarrow> 'e edge \<Rightarrow> 's \<Rightarrow> bool \<times> 's) \<Rightarrow> 's \<Rightarrow> (bool \<times> 's) option" where
  "each_adjacent_edge g n dir f s =
     do { edge_idx \<leftarrow> first_adjacent g n dir; adjacent_loop g dir f edge_idx s }"

definition each_outgoing_edge ::
  "('n, 'e) graph \<Rightarrow> node_index
     \<Rightarrow> (edge_index \<Rightarrow> 'e edge \<Rightarrow> 's \<Rightarrow> bool \<times> 's) \<Rightarrow> 's \<Rightarrow> (bool \<times> 's) option" where
  "each_outgoing_edge g src f s = each_adjacent_edge g src Outgoing f s"

definition each_incoming_edge ::
  "('n, 'e) graph \<Rightarrow> node_index
     \<Rightarrow> (edge_index \<Rightarrow> 'e edge \<Rightarrow> 's \<Rightarrow> bool \<times> 's) \<Rightarrow> 's \<Rightarrow> (bool \<times> 's) option" where
  "each_incoming_edge g tgt f s = each_adjacent_edge g tgt Incoming f s"

text \<open>Writing through the references that \<open>mut_node_data\<close> and \<open>mut_edge_data\<close> return.\<close>

definition set_node_data :: "('n, 'e) graph \<Rightarrow> node_index \<Rightarrow> 'n \<Rightarrow> ('n, 'e) graph option" where
  "set_node_data g idx d =
     do { nd \<leftarrow> vec_get (nodes g) idx;
          Some (g\<lparr>nodes := (nodes g)[idx := nd\<lparr>node_data := d\<rparr>]\<rparr>) }"

definition set_edge_data :: "('n, 'e) graph \<Rightarrow> edge_index \<Rightarrow> 'e \<Rightarrow> ('n, 'e) graph option" where
  "set_edge_data g idx d =
     do { ed \<leftarrow> vec_get (edges g) idx;
          Some (g\<lparr>edges := (edges g)[idx := ed\<lparr>edge_data := d\<rparr>]\<rparr>) }"

definition iterate_until_fixed_point ::
  "('n, 'e) graph \<Rightarrow> (uint \<Rightarrow> edge_index \<Rightarrow> 'e edge \<Rightarrow> 's \<Rightarrow> bool \<times> 's) \<Rightarrow> 's \<Rightarrow> 's option" where
  "iterate_until_fixed_point g op s =
     iterate (\<lambda>iteration (i, ed) s. Some (op iteration i ed s)) (List.enumerate 0 (edges g)) 0 s"

text \<open>The loop of \<open>each_edge_index\<close>: \<open>i\<close> runs from 0 to \<open>n\<close>, unless \<open>f\<close> stops it.\<close>

function edge_index_loop :: "(edge_index \<Rightarrow> 's \<Rightarrow> bool \<times> 's) \<Rightarrow> uint \<Rightarrow> uint \<Rightarrow> 's \<Rightarrow> 's" where
  "edge_index_loop f i n s =
     (if i < n then (case f i s of (go, s') \<Rightarrow> if go then edge_index_loop f (Suc i) n s' else s')
      else s)"
  by pat_completeness auto
termination by (relation "measure (\<lambda>(f, i, n, s). n - i)") auto

declare edge_index_loop.simps [simp del]

definition each_edge_index :: "edge_index \<Rightarrow> (edge_index \<Rightarrow> 's \<Rightarrow> bool \<times> 's) \<Rightarrow> 's \<Rightarrow> 's" where
  "each_edge_index max_edge_index f s = edge_index_loop f 0 max_edge_index s"

section \<open>What the threading means\<close>

fun endpoint :: "direction \<Rightarrow> 'e edge \<Rightarrow> node_index" where
  "endpoint Outgoing e = source e"
| "endpoint Incoming e = target e"

text \<open>The edges below \<open>k\<close> that touch \<open>n\<close>, newest first.\<close>

definition adj_below :: "'e edge list \<Rightarrow> direction \<Rightarrow> node_index \<Rightarrow> nat \<Rightarrow> edge_index list" where
  "adj_below es dir n k = filter (\<lambda>i. endpoint dir (es ! i) = n) (rev [0..<k])"

definition adj :: "('n, 'e) graph \<Rightarrow> direction \<Rightarrow> node_index \<Rightarrow> edge_index list" where
  "adj g dir n = adj_below (edges g) dir n (length (edges g))"

fun head_or_invalid :: "edge_index list \<Rightarrow> edge_index" where
  "head_or_invalid [] = InvalidEdgeIndex"
| "head_or_invalid (i # is) = i"

text \<open>Visit a list of edges in order, while the callback returns true.\<close>

fun visit_edges ::
  "('n, 'e) graph \<Rightarrow> (edge_index \<Rightarrow> 'e edge \<Rightarrow> 's \<Rightarrow> bool \<times> 's) \<Rightarrow> edge_index list \<Rightarrow> 's
     \<Rightarrow> bool \<times> 's" where
  "visit_edges g f [] s = (True, s)"
| "visit_edges g f (i # is) s =
     (case f i (edges g ! i) s of (go, s') \<Rightarrow> if go then visit_edges g f is s' else (False, s'))"

definition graph_ok :: "('n, 'e) graph \<Rightarrow> bool" where
  "graph_ok g \<longleftrightarrow>
     length (edges g) \<le> uint_max \<and>
     (\<forall>i < length (edges g). \<forall>dir. endpoint dir (edges g ! i) < length (nodes g)) \<and>
     (\<forall>n < length (nodes g). \<forall>dir.
        repr dir (first_edge (nodes g ! n)) = head_or_invalid (adj g dir n)) \<and>
     (\<forall>i < length (edges g). \<forall>dir.
        repr dir (next_edge (edges g ! i)) =
          head_or_invalid (adj_below (edges g) dir (endpoint dir (edges g ! i)) i))"

lemma graph_okD:
  assumes "graph_ok g"
  shows "length (edges g) \<le> uint_max"
    and "i < length (edges g) \<Longrightarrow> endpoint dir (edges g ! i) < length (nodes g)"
    and "n < length (nodes g) \<Longrightarrow> repr dir (first_edge (nodes g ! n)) = head_or_invalid (adj g dir n)"
    and "i < length (edges g) \<Longrightarrow> repr dir (next_edge (edges g ! i)) =
           head_or_invalid (adj_below (edges g) dir (endpoint dir (edges g ! i)) i)"
  using assms by (auto simp: graph_ok_def)

lemma adj_below_0 [simp]: "adj_below es dir n 0 = []"
  by (simp add: adj_below_def)

lemma adj_below_Suc [simp]:
  "adj_below es dir n (Suc k) =
     (if endpoint dir (es ! k) = n then k # adj_below es dir n k else adj_below es dir n k)"
  by (simp add: adj_below_def)

lemma adj_below_snoc [simp]: "k \<le> length es \<Longrightarrow> adj_below (es @ [e]) dir n k = adj_below es dir n k"
  unfolding adj_below_def by (rule filter_cong) (auto simp: nth_append)

lemma adjacent_loop_adj:
  assumes "graph_ok g" "k \<le> length (edges g)"
  shows "adjacent_loop g dir f (head_or_invalid (adj_below (edges g) dir n k)) s =
           Some (visit_edges g f (adj_below (edges g) dir n k) s)"
  using assms(2)
proof (induction k arbitrary: s)
  case 0
  then show ?case by (simp add: adjacent_loop.simps)
next
  case (Suc k)
  then have k: "k < length (edges g)" "k \<noteq> InvalidEdgeIndex"
    using assms(1) by (auto simp: graph_ok_def InvalidEdgeIndex_def)
  have nxt: "repr dir (next_edge (edges g ! k)) =
      head_or_invalid (adj_below (edges g) dir (endpoint dir (edges g ! k)) k)"
    using assms(1) k by (simp add: graph_ok_def)
  show ?case
  proof (cases "endpoint dir (edges g ! k) = n")
    case True
    with k nxt Suc show ?thesis
      by (subst adjacent_loop.simps) (auto simp: vec_simps split: prod.split)
  next
    case False
    with Suc show ?thesis by simp
  qed
qed

lemma each_adjacent_edge_ok:
  assumes "graph_ok g" "n < length (nodes g)"
  shows "each_adjacent_edge g n dir f s = Some (visit_edges g f (adj g dir n) s)"
proof -
  have "first_adjacent g n dir = Some (head_or_invalid (adj g dir n))"
    using assms by (simp add: first_adjacent_def vec_simps graph_ok_def)
  then show ?thesis
    using adjacent_loop_adj [OF assms(1) order_refl] by (simp add: each_adjacent_edge_def adj_def)
qed

section \<open>Every operation keeps the threading\<close>

lemma graph_ok_new: "graph_ok graph_new"
  by (simp add: graph_ok_def graph_new_def)

lemma repr_set_repr: "repr d (set_repr d' x p) = (if d = d' then x else repr d p)"
  by (cases d; cases d') auto

lemma repr_pair: "repr d (a, b) = (case d of Outgoing \<Rightarrow> a | Incoming \<Rightarrow> b)"
  by (cases d) auto

lemma adj_none:
  assumes "\<forall>i < k. endpoint dir (es ! i) \<noteq> n"
  shows "adj_below es dir n k = []"
  using assms by (auto simp: adj_below_def filter_empty_conv)

lemma graph_ok_add_node:
  assumes "graph_ok g" "add_node g d = (idx, g')"
  shows "graph_ok g' \<and> idx = length (nodes g) \<and> edges g' = edges g \<and>
         map node_data (nodes g') = map node_data (nodes g) @ [d]"
proof -
  let ?new = "\<lparr>first_edge = (InvalidEdgeIndex, InvalidEdgeIndex), node_data = d\<rparr>"
  have g': "g' = g\<lparr>nodes := nodes g @ [?new]\<rparr>" and idx: "idx = length (nodes g)"
    using assms(2) by (auto simp: add_node_def next_node_index_def Let_def)
  have "adj g dir (length (nodes g)) = []" for dir
    unfolding adj_def using graph_okD(2) [OF assms(1)] by (intro adj_none) (metis less_irrefl)
  then have "repr dir (first_edge ((nodes g @ [?new]) ! n)) = head_or_invalid (adj g dir n)"
    if "n < Suc (length (nodes g))" for n dir
    using that assms(1) by (auto simp: nth_append graph_ok_def less_Suc_eq repr_pair split: direction.split)
  then show ?thesis
    using assms(1) by (auto simp: g' idx graph_ok_def adj_def less_Suc_eq)
qed

lemma add_edge_eq:
  assumes "graph_ok g"
  shows "add_edge g src tgt d =
    (if src < length (nodes g) \<and> tgt < length (nodes g)
     then Some (length (edges g),
       \<lparr>nodes = map (\<lambda>n. (nodes g ! n)\<lparr>first_edge :=
                  (if n = src then length (edges g) else fst (first_edge (nodes g ! n)),
                   if n = tgt then length (edges g) else snd (first_edge (nodes g ! n)))\<rparr>)
                [0..<length (nodes g)],
        edges = edges g @ [\<lparr>next_edge = (fst (first_edge (nodes g ! src)), snd (first_edge (nodes g ! tgt))),
                             source = src, target = tgt, edge_data = d\<rparr>]\<rparr>)
     else None)"
  by (auto simp: add_edge_def set_first_edge_def vec_get_def vec_set_def next_edge_index_def Let_def
      nth_list_update intro!: nth_equalityI)

lemma graph_ok_add_edge:
  assumes ok: "graph_ok g" and e: "add_edge g src tgt d = Some (idx, g')"
    and len: "length (edges g) < uint_max"
  shows "graph_ok g' \<and> idx = length (edges g) \<and> length (nodes g') = length (nodes g) \<and>
         adj g' dir n = (if endpoint dir (edges g' ! idx) = n then [idx] else []) @ adj g dir n"
proof -
  let ?e = "\<lparr>next_edge = (fst (first_edge (nodes g ! src)), snd (first_edge (nodes g ! tgt))),
              source = src, target = tgt, edge_data = d\<rparr>"
  let ?k = "length (edges g)"
  have lt: "src < length (nodes g)" "tgt < length (nodes g)"
    using e add_edge_eq [OF ok] by (auto split: if_splits)
  have idx: "idx = ?k" and es: "edges g' = edges g @ [?e]" and ln: "length (nodes g') = length (nodes g)"
    and ns: "\<And>n dir. n < length (nodes g) \<Longrightarrow> repr dir (first_edge (nodes g' ! n)) =
       (if endpoint dir ?e = n then ?k else repr dir (first_edge (nodes g ! n)))"
    using e lt add_edge_eq [OF ok] by (auto simp: repr_pair split: direction.split)
  have adj': "adj g' dir n = (if endpoint dir ?e = n then [?k] else []) @ adj g dir n" for dir n
    by (simp add: adj_def es nth_append)
  have new: "repr dir (next_edge ?e) = head_or_invalid (adj g dir (endpoint dir ?e))" for dir
    using ok lt unfolding graph_ok_def by (cases dir) (metis endpoint.simps repr.simps edge.select_convs fst_conv snd_conv)+
  have first: "repr dir (first_edge (nodes g' ! n)) = head_or_invalid (adj g' dir n)"
    if "n < length (nodes g)" for n dir
    using ok ns [OF that] that by (auto simp: adj' graph_ok_def)
  have links: "repr dir (next_edge (edges g' ! i)) =
      head_or_invalid (adj_below (edges g') dir (endpoint dir (edges g' ! i)) i)"
    if "i < Suc ?k" for i dir
    using that ok new by (cases "i = ?k") (auto simp: es nth_append graph_ok_def adj_def)
  have "endpoint dir (edges g' ! i) < length (nodes g)" if "i < Suc ?k" for i dir
    using that graph_okD(2) [OF ok, of i dir] lt
    by (cases "i = ?k"; cases dir) (simp_all add: es nth_append)
  with first links ln len have "graph_ok g'"
    by (simp add: graph_ok_def es)
  with adj' idx ln show ?thesis by (simp add: es nth_append)
qed

lemma endpoint_edge_data [simp]: "endpoint dir (e\<lparr>edge_data := d\<rparr>) = endpoint dir e"
  by (cases dir) auto

lemma adj_below_set_edge_data:
  "adj_below (es[i := (es ! i)\<lparr>edge_data := d\<rparr>]) dir n k = adj_below es dir n k"
  unfolding adj_below_def
  by (cases "i < length es"; rule filter_cong) (auto simp: nth_list_update list_update_beyond)

lemma graph_ok_set_node_data:
  assumes "graph_ok g" "set_node_data g idx d = Some g'"
  shows "graph_ok g' \<and> edges g' = edges g"
proof -
  have "idx < length (nodes g)" and g': "g' = g\<lparr>nodes := (nodes g)[idx := (nodes g ! idx)\<lparr>node_data := d\<rparr>]\<rparr>"
    using assms(2) by (auto simp: set_node_data_def vec_get_def split: if_splits)
  then show ?thesis using assms(1) by (auto simp: graph_ok_def adj_def nth_list_update)
qed

lemma graph_ok_set_edge_data:
  assumes "graph_ok g" "set_edge_data g idx d = Some g'"
  shows "graph_ok g' \<and> adj g' dir n = adj g dir n"
proof -
  have "idx < length (edges g)" and g': "g' = g\<lparr>edges := (edges g)[idx := (edges g ! idx)\<lparr>edge_data := d\<rparr>]\<rparr>"
    using assms(2) by (auto simp: set_edge_data_def vec_get_def split: if_splits)
  then show ?thesis using assms(1)
    by (auto simp: graph_ok_def adj_def nth_list_update adj_below_set_edge_data)
qed

section \<open>Graphs built through the interface\<close>

inductive built :: "('n, 'e) graph \<Rightarrow> bool" where
  new: "built graph_new"
| node: "built g \<Longrightarrow> built (snd (add_node g d))"
| edge: "built g \<Longrightarrow> length (edges g) < uint_max \<Longrightarrow> add_edge g s t d = Some (i, g') \<Longrightarrow> built g'"
| node_data: "built g \<Longrightarrow> set_node_data g i d = Some g' \<Longrightarrow> built g'"
| edge_data: "built g \<Longrightarrow> set_edge_data g i d = Some g' \<Longrightarrow> built g'"

lemma built_graph_ok: "built g \<Longrightarrow> graph_ok g"
proof (induction rule: built.induct)
  case (node g d)
  then show ?case using graph_ok_add_node [of g d] by (cases "add_node g d") simp
next
  case (edge g s t d i g')
  then show ?case using graph_ok_add_edge [OF edge.IH edge.hyps(3,2)] by simp
qed (auto simp: graph_ok_new dest: graph_ok_set_node_data graph_ok_set_edge_data)

lemma set_adj: "set (adj g dir n) = {i. i < length (edges g) \<and> endpoint dir (edges g ! i) = n}"
  by (auto simp: adj_def adj_below_def)

lemma distinct_adj: "distinct (adj g dir n)"
  by (simp add: adj_def adj_below_def)

text \<open>The index loop visits the indices below the bound, in order, until told to stop.\<close>

fun visit_indices :: "(edge_index \<Rightarrow> 's \<Rightarrow> bool \<times> 's) \<Rightarrow> edge_index list \<Rightarrow> 's \<Rightarrow> 's" where
  "visit_indices f [] s = s"
| "visit_indices f (i # is) s = (case f i s of (go, s') \<Rightarrow> if go then visit_indices f is s' else s')"

lemma edge_index_loop_eq: "edge_index_loop f i n s = visit_indices f [i..<n] s"
proof (induction f i n s rule: edge_index_loop.induct)
  case (1 f i n s)
  show ?case
  proof (cases "i < n")
    case True
    with 1 show ?thesis
      by (subst edge_index_loop.simps) (auto simp: upt_conv_Cons split: prod.split)
  next
    case False
    then show ?thesis by (subst edge_index_loop.simps) simp
  qed
qed

section \<open>Fixed points\<close>

text \<open>
  The contract of a callback of \<open>iterate_until_fixed_point\<close>: it reports exactly the
  changes it makes, and there is a measure that every change makes smaller.  The
  interpretation below instantiates the generic loop with the graph's own iteration.
\<close>

definition settles ::
  "('n, 'e) graph \<Rightarrow> (uint \<Rightarrow> edge_index \<Rightarrow> 'e edge \<Rightarrow> 's \<Rightarrow> bool \<times> 's) \<Rightarrow> ('s \<Rightarrow> nat) \<Rightarrow> bool" where
  "settles g op m \<longleftrightarrow>
     (\<forall>k s. \<forall>i < length (edges g). case op k i (edges g ! i) s of
        (True, s') \<Rightarrow> m s' < m s | (False, s') \<Rightarrow> s' = s)"

interpretation fixed_point: sweep_body
  "\<lambda>iteration (i, ed) s. Some (op iteration i ed s)" "List.enumerate 0 (edges g)"
  "\<lambda>s. settles g op m" m "\<lambda>s. False"
  for op :: "uint \<Rightarrow> edge_index \<Rightarrow> 'e edge \<Rightarrow> 's \<Rightarrow> bool \<times> 's" and g :: "('n, 'e) graph"
    and m :: "'s \<Rightarrow> nat"
proof
  fix s s' c n
  assume st: "settles g op m" and c: "c \<in> set (List.enumerate 0 (edges g))"
  obtain i where i: "i < length (edges g)" "c = (i, edges g ! i)"
    using c by (auto simp: in_set_enumerate_eq)
  have st': "case op n i (edges g ! i) s of (True, s') \<Rightarrow> m s' < m s | (False, s') \<Rightarrow> s' = s"
    using st i(1) by (auto simp: settles_def)
  show "\<exists>b s'. (case c of (i, ed) \<Rightarrow> \<lambda>s. Some (op n i ed s)) s = Some (b, s') \<and> settles g op m"
    using st i by (cases "op n i (edges g ! i) s") auto
  show "m s' < m s" if "(case c of (i, ed) \<Rightarrow> \<lambda>s. Some (op n i ed s)) s = Some (True, s')"
    using that st' i by (auto split: prod.splits)
  show "m s' \<le> m s \<and> (s' = s \<or> False)"
    if "(case c of (i, ed) \<Rightarrow> \<lambda>s. Some (op n i ed s)) s = Some (False, s')"
    using that st' i by (auto split: prod.splits)
qed auto

section \<open>Properties\<close>

text \<open>
  C12. In every graph built with \<open>new\<close>, \<open>add_node\<close>, \<open>add_edge\<close> and the data
  setters, \<open>each_adjacent_edge\<close> on an existing node returns without failing and has
  visited exactly the edges whose source (or target, for incoming) is the node, newest
  first and none twice, up to the first one on which the callback returned false.
\<close>

theorem each_adjacent_edge_visits:
  assumes "built g" and "n < length (nodes g)"
  shows "each_adjacent_edge g n dir f s = Some (visit_edges g f (adj g dir n) s) \<and>
         distinct (adj g dir n) \<and>
         set (adj g dir n) = {i. i < length (edges g) \<and> endpoint dir (edges g ! i) = n}"
  using each_adjacent_edge_ok [OF built_graph_ok [OF assms(1)] assms(2)]
  by (simp add: set_adj distinct_adj)

definition sample_graph :: "(string, string) graph" where
  "sample_graph =
     (let g2 = snd (add_node (snd (add_node graph_new ''A'')) ''B'')
      in case add_edge g2 0 1 ''AB'' of Some (_, g) \<Rightarrow> g | None \<Rightarrow> g2)"

lemma sample_graph_eq:
  "sample_graph =
     \<lparr>nodes = [\<lparr>first_edge = (0, InvalidEdgeIndex), node_data = ''A''\<rparr>,
               \<lparr>first_edge = (InvalidEdgeIndex, 0), node_data = ''B''\<rparr>],
      edges = [\<lparr>next_edge = (InvalidEdgeIndex, InvalidEdgeIndex), source = 0, target = 1,
                edge_data = ''AB''\<rparr>]\<rparr>"
  by (simp add: sample_graph_def add_node_def add_edge_def graph_new_def next_node_index_def
      next_edge_index_def set_first_edge_def vec_get_def vec_set_def Let_def)

lemma built_sample_graph: "built sample_graph"
proof -
  let ?g2 = "snd (add_node (snd (add_node graph_new ''A'')) ''B'') :: (string, string) graph"
  have g2: "built ?g2" by (intro built.intros)
  have e: "add_edge ?g2 0 1 ''AB'' = Some (0, sample_graph)"
    by (simp add: sample_graph_eq add_node_def add_edge_def graph_new_def next_node_index_def
        next_edge_index_def set_first_edge_def vec_get_def vec_set_def Let_def)
  have "length (edges ?g2) < uint_max" by (simp add: add_node_def graph_new_def Let_def uint_max_def)
  from built.edge [OF g2 this e] show ?thesis .
qed

theorem each_adjacent_edge_visits_witness:
  "built sample_graph \<and> 0 < length (nodes sample_graph) \<and>
   each_adjacent_edge sample_graph 0 Outgoing (\<lambda>i ed s. (True, i # s)) [] = Some (True, [0])"
proof -
  have n: "0 < length (nodes sample_graph)" by (simp add: sample_graph_eq)
  have "visit_edges sample_graph (\<lambda>i ed s. (True, i # s)) (adj sample_graph Outgoing 0) [] = (True, [0])"
    by (simp add: sample_graph_eq adj_def)
  with built_sample_graph n
    each_adjacent_edge_visits [OF built_sample_graph n, of Outgoing "\<lambda>i ed s. (True, i # s)" "[]"]
  show ?thesis by simp
qed

text \<open>
  C13. \<open>iterate_until_fixed_point\<close> returns, provided its callback reports exactly the
  changes it makes and every change decreases some measure; in the state it returns, the
  callback changes nothing on any edge.
\<close>

theorem iterate_until_fixed_point_stable:
  assumes "settles g op m"
  shows "\<exists>s' k. iterate_until_fixed_point g op s = Some s' \<and>
           (\<forall>i < length (edges g). op k i (edges g ! i) s' = (False, s'))"
proof -
  obtain s' k where 1: "iterate_until_fixed_point g op s = Some s'"
    "\<forall>c \<in> set (List.enumerate 0 (edges g)). (case c of (i, ed) \<Rightarrow> \<lambda>s. Some (op k i ed s)) s' = Some (False, s')"
    using fixed_point.iterate_stable [of g op m 0 s] assms
    unfolding iterate_until_fixed_point_def by blast
  have "op k i (edges g ! i) s' = (False, s')" if "i < length (edges g)" for i
  proof -
    have "(i, edges g ! i) \<in> set (List.enumerate 0 (edges g))"
      using that by (simp add: in_set_enumerate_eq)
    from bspec [OF 1(2) this] show ?thesis by simp
  qed
  with 1(1) show ?thesis by blast
qed

text \<open>The callback that propagates a flag along the edges, on the graph above.\<close>

definition flag_op :: "uint \<Rightarrow> edge_index \<Rightarrow> string edge \<Rightarrow> bool list \<Rightarrow> bool \<times> bool list" where
  "flag_op k i ed s =
     (if source ed < length s \<and> s ! source ed \<and> target ed < length s \<and> \<not> s ! target ed
      then (True, s[target ed := True]) else (False, s))"

lemma flag_op_settles: "settles g flag_op (\<lambda>s. length (filter Not s))"
proof -
  have "length (filter Not (s[j := True])) < length (filter Not s)" if "j < length s" "\<not> s ! j" for s j
    using that
  proof (induction s arbitrary: j)
    case (Cons x s)
    then show ?case by (cases j) auto
  qed simp
  then show ?thesis by (simp add: settles_def flag_op_def)
qed

theorem iterate_until_fixed_point_stable_witness:
  "settles sample_graph flag_op (\<lambda>s. length (filter Not s)) \<and>
   (\<exists>s' k. iterate_until_fixed_point sample_graph flag_op [True, False] = Some s' \<and>
      flag_op k 0 (edges sample_graph ! 0) s' = (False, s'))"
proof -
  have "0 < length (edges sample_graph)" by (simp add: sample_graph_eq)
  with iterate_until_fixed_point_stable [OF flag_op_settles, of sample_graph "[True, False]"]
  show ?thesis using flag_op_settles by blast
qed

end
