(* ===== verification/RegionResolve.thy ===== *)
theory RegionResolve
  imports RegionConstraints Graph
begin

text \<open>
  The second half of \<open>region_inference/mod.rs\<close>: solving the constraints of
  \<^typ>\<open>('vo, 'so) region_var_bindings\<close> by expansion and contraction, and collecting the
  errors.  The constraint table is iterated in the order of its association list, for
  every pass the same, as a hash table that is not written to is.

  \<^const>\<open>None\<close> stands for the calls of \<open>span_bug\<close> and failing assertions.
\<close>

section \<open>Data\<close>

datatype classification = Expanding | Contracting

record var_data =
  classification :: classification
  data_value :: var_value

record 'so region_and_origin =
  ro_region :: region
  ro_origin :: 'so

record same_regions =
  same_scope_id :: node_id
  same_region_list :: "bound_region list"

definition same_regions_contains :: "same_regions \<Rightarrow> bound_region \<Rightarrow> bool" where
  "same_regions_contains sr other \<longleftrightarrow> other \<in> set (same_region_list sr)"

definition same_regions_push :: "same_regions \<Rightarrow> bound_region \<Rightarrow> same_regions" where
  "same_regions_push sr other = sr\<lparr>same_region_list := same_region_list sr @ [other]\<rparr>"

text \<open>\<open>'tt\<close> stands for the pairs of a type trace and a type error.\<close>

datatype ('vo, 'so, 'tt) region_resolution_error =
    ConcreteFailure 'so region region
  | SubSupConflict 'vo 'so region 'so region
  | SupSupConflict 'vo 'so region 'so region
  | ProcessedErrors "'vo list" "'tt list" "same_regions list"

type_synonym region_graph = "(unit, constraint) graph"

section \<open>Fixed points\<close>

text \<open>\<open>iterate_until_fixed_point\<close> over the constraints; the body passes the variable data.\<close>

definition iterate_constraints ::
  "('vo, 'so) region_var_bindings \<Rightarrow> (constraint \<Rightarrow> var_data list \<Rightarrow> (bool \<times> var_data list) option)
     \<Rightarrow> var_data list \<Rightarrow> var_data list option" where
  "iterate_constraints st body vd = iterate (\<lambda>_. body) (map fst (constraints st)) 0 vd"

text \<open>\<open>&mut var_data[i]\<close> handed to a function.\<close>

definition on_node ::
  "var_data list \<Rightarrow> region_vid \<Rightarrow> (var_data \<Rightarrow> (bool \<times> var_data) option)
     \<Rightarrow> (bool \<times> var_data list) option" where
  "on_node vd i f =
     do { d \<leftarrow> vec_get vd i;
          (changed, d') \<leftarrow> f d;
          Some (changed, vd[i := d']) }"

definition construct_var_data :: "('vo, 'so) region_var_bindings \<Rightarrow> var_data list" where
  "construct_var_data st =
     replicate (num_vars st) \<lparr>classification = Contracting, data_value = NoValue\<rparr>"

definition expand_node :: "region_maps \<Rightarrow> region \<Rightarrow> var_data \<Rightarrow> (bool \<times> var_data) option" where
  "expand_node rm a_region b_data0 =
     (let b_data = b_data0\<lparr>classification := Expanding\<rparr>
      in case data_value b_data of
           NoValue \<Rightarrow> Some (True, b_data\<lparr>data_value := Value a_region\<rparr>)
         | Value cur_region \<Rightarrow>
             do { lub \<leftarrow> lub_concrete_regions rm a_region cur_region;
                  if region_eq lub cur_region then Some (False, b_data)
                  else Some (True, b_data\<lparr>data_value := Value lub\<rparr>) }
         | ErrorValue \<Rightarrow> Some (False, b_data))"

fun expand_constraint ::
  "region_maps \<Rightarrow> constraint \<Rightarrow> var_data list \<Rightarrow> (bool \<times> var_data list) option" where
  "expand_constraint rm (ConstrainRegSubVar a_region b_vid) vd =
     on_node vd b_vid (expand_node rm a_region)"
| "expand_constraint rm (ConstrainVarSubVar a_vid b_vid) vd =
     do { a_data \<leftarrow> vec_get vd a_vid;
          case data_value a_data of
            NoValue \<Rightarrow> Some (False, vd)
          | ErrorValue \<Rightarrow> Some (False, vd)
          | Value a_region \<Rightarrow> on_node vd b_vid (expand_node rm a_region) }"
| "expand_constraint rm (ConstrainVarSubReg _ _) vd = Some (False, vd)"
| "expand_constraint rm (ConstrainRegSubReg _ _) vd = Some (False, vd)"

definition expansion ::
  "region_maps \<Rightarrow> ('vo, 'so) region_var_bindings \<Rightarrow> var_data list \<Rightarrow> var_data list option" where
  "expansion rm st vd = iterate_constraints st (expand_constraint rm) vd"

definition check_node ::
  "region_maps \<Rightarrow> var_data \<Rightarrow> region \<Rightarrow> region \<Rightarrow> (bool \<times> var_data) option" where
  "check_node rm a_data a_region b_region =
     do { sub \<leftarrow> is_subregion_of rm a_region b_region;
          Some (False, if \<not> sub then a_data\<lparr>data_value := ErrorValue\<rparr> else a_data) }"

definition adjust_node ::
  "region_maps \<Rightarrow> var_data \<Rightarrow> region \<Rightarrow> region \<Rightarrow> (bool \<times> var_data) option" where
  "adjust_node rm a_data a_region b_region =
     do { r \<leftarrow> glb_concrete_regions rm a_region b_region;
          case r of
            Inr glb \<Rightarrow>
              if region_eq glb a_region then Some (False, a_data)
              else Some (True, a_data\<lparr>data_value := Value glb\<rparr>)
          | Inl _ \<Rightarrow> Some (False, a_data\<lparr>data_value := ErrorValue\<rparr>) }"

definition contract_node :: "region_maps \<Rightarrow> var_data \<Rightarrow> region \<Rightarrow> (bool \<times> var_data) option" where
  "contract_node rm a_data b_region =
     (case data_value a_data of
        NoValue \<Rightarrow>
          if classification a_data = Contracting
          then Some (True, a_data\<lparr>data_value := Value b_region\<rparr>) else None
      | ErrorValue \<Rightarrow> Some (False, a_data)
      | Value a_region \<Rightarrow>
          (case classification a_data of
             Expanding \<Rightarrow> check_node rm a_data a_region b_region
           | Contracting \<Rightarrow> adjust_node rm a_data a_region b_region))"

fun contract_constraint ::
  "region_maps \<Rightarrow> constraint \<Rightarrow> var_data list \<Rightarrow> (bool \<times> var_data list) option" where
  "contract_constraint rm (ConstrainRegSubVar _ _) vd = Some (False, vd)"
| "contract_constraint rm (ConstrainVarSubVar a_vid b_vid) vd =
     do { b_data \<leftarrow> vec_get vd b_vid;
          case data_value b_data of
            NoValue \<Rightarrow> Some (False, vd)
          | ErrorValue \<Rightarrow> Some (False, vd)
          | Value b_region \<Rightarrow> on_node vd a_vid (\<lambda>a_data. contract_node rm a_data b_region) }"
| "contract_constraint rm (ConstrainVarSubReg a_vid b_region) vd =
     on_node vd a_vid (\<lambda>a_data. contract_node rm a_data b_region)"
| "contract_constraint rm (ConstrainRegSubReg _ _) vd = Some (False, vd)"

definition contraction ::
  "region_maps \<Rightarrow> ('vo, 'so) region_var_bindings \<Rightarrow> var_data list \<Rightarrow> var_data list option" where
  "contraction rm st vd = iterate_constraints st (contract_constraint rm) vd"

section \<open>Errors\<close>

fun concrete_errors ::
  "region_maps \<Rightarrow> (constraint \<times> 'so) list \<Rightarrow> constraint list
     \<Rightarrow> ('vo, 'so, 'tt) region_resolution_error list
     \<Rightarrow> ('vo, 'so, 'tt) region_resolution_error list option" where
  "concrete_errors rm tab [] errors = Some errors"
| "concrete_errors rm tab (c # cs) errors =
     (case c of
        ConstrainRegSubReg sub super \<Rightarrow>
          do { ok \<leftarrow> is_subregion_of rm sub super;
               if ok then concrete_errors rm tab cs errors
               else do { origin \<leftarrow> map_of tab c;
                         concrete_errors rm tab cs (errors @ [ConcreteFailure origin sub super]) } }
      | _ \<Rightarrow> concrete_errors rm tab cs errors)"

definition collect_concrete_region_errors ::
  "region_maps \<Rightarrow> ('vo, 'so) region_var_bindings
     \<Rightarrow> ('vo, 'so, 'tt) region_resolution_error list
     \<Rightarrow> ('vo, 'so, 'tt) region_resolution_error list option" where
  "collect_concrete_region_errors rm st errors =
     concrete_errors rm (constraints st) (map fst (constraints st)) errors"

fun add_constraint_edge ::
  "node_index \<Rightarrow> constraint \<Rightarrow> region_graph \<Rightarrow> region_graph option" where
  "add_constraint_edge dummy_idx (ConstrainVarSubVar a_id b_id) g =
     map_option snd (add_edge g a_id b_id (ConstrainVarSubVar a_id b_id))"
| "add_constraint_edge dummy_idx (ConstrainRegSubVar r b_id) g =
     map_option snd (add_edge g dummy_idx b_id (ConstrainRegSubVar r b_id))"
| "add_constraint_edge dummy_idx (ConstrainVarSubReg a_id r) g =
     map_option snd (add_edge g a_id dummy_idx (ConstrainVarSubReg a_id r))"
| "add_constraint_edge dummy_idx (ConstrainRegSubReg _ _) g = Some g"

fun add_constraint_edges ::
  "node_index \<Rightarrow> constraint list \<Rightarrow> region_graph \<Rightarrow> region_graph option" where
  "add_constraint_edges dummy_idx [] g = Some g"
| "add_constraint_edges dummy_idx (c # cs) g =
     do { g1 \<leftarrow> add_constraint_edge dummy_idx c g; add_constraint_edges dummy_idx cs g1 }"

fun add_nodes :: "nat \<Rightarrow> region_graph \<Rightarrow> region_graph" where
  "add_nodes 0 g = g"
| "add_nodes (Suc n) g = add_nodes n (snd (add_node g ()))"

definition construct_graph ::
  "('vo, 'so) region_var_bindings \<Rightarrow> region_graph option" where
  "construct_graph st =
     (let g0 = graph_with_capacity (num_vars st + 1) (length (constraints st));
          (dummy_idx, g1) = add_node (add_nodes (num_vars st) g0) ()
      in add_constraint_edges dummy_idx (map fst (constraints st)) g1)"

record 'so walk_state =
  walk_set :: "region_vid set"
  walk_stack :: "region_vid list"
  walk_result :: "'so region_and_origin list"
  walk_dup :: bool

text \<open>
  The callback of \<open>process_edges\<close>: \<open>get_copy\<close> fails on a missing key, which ends
  the walk.
\<close>

definition process_edge ::
  "(constraint \<times> 'so) list \<Rightarrow> region_vid \<Rightarrow> edge_index \<Rightarrow> constraint edge
     \<Rightarrow> 'so walk_state option \<Rightarrow> bool \<times> 'so walk_state option" where
  "process_edge tab source_vid i ed s =
     (case s of
        None \<Rightarrow> (False, None)
      | Some state \<Rightarrow>
          (case edge_data ed of
             ConstrainVarSubVar from_vid to_vid \<Rightarrow>
               let opp_vid = (if from_vid = source_vid then to_vid else from_vid)
               in (True, Some (if opp_vid \<in> walk_set state then state
                     else state\<lparr>walk_set := insert opp_vid (walk_set state),
                                walk_stack := walk_stack state @ [opp_vid]\<rparr>))
           | ConstrainRegSubReg _ _ \<Rightarrow> (True, Some state)
           | ConstrainRegSubVar region _ \<Rightarrow>
               (case map_of tab (edge_data ed) of
                  None \<Rightarrow> (False, None)
                | Some origin \<Rightarrow> (True, Some (state\<lparr>walk_result :=
                     walk_result state @ [\<lparr>ro_region = region, ro_origin = origin\<rparr>]\<rparr>)))
           | ConstrainVarSubReg _ region \<Rightarrow>
               (case map_of tab (edge_data ed) of
                  None \<Rightarrow> (False, None)
                | Some origin \<Rightarrow> (True, Some (state\<lparr>walk_result :=
                     walk_result state @ [\<lparr>ro_region = region, ro_origin = origin\<rparr>]\<rparr>)))))"

definition process_edges ::
  "(constraint \<times> 'so) list \<Rightarrow> 'so walk_state \<Rightarrow> region_graph \<Rightarrow> region_vid \<Rightarrow> direction
     \<Rightarrow> 'so walk_state option" where
  "process_edges tab state g source_vid dir =
     do { (_, s) \<leftarrow> each_adjacent_edge g source_vid dir (process_edge tab source_vid) (Some state); s }"

fun class_direction :: "classification \<Rightarrow> direction" where
  "class_direction Expanding = Incoming"
| "class_direction Contracting = Outgoing"

text \<open>One turn of the \<open>while\<close> loop of \<open>collect_concrete_regions\<close>, with the stack popped.\<close>

definition walk_step ::
  "(constraint \<times> 'so) list \<Rightarrow> region_graph \<Rightarrow> var_data list \<Rightarrow> region_vid
     \<Rightarrow> region_vid \<Rightarrow> 'so walk_state \<Rightarrow> uint list \<Rightarrow> ('so walk_state \<times> uint list) option" where
  "walk_step tab g vd orig_node_idx node_idx state dup_vec =
     do { d \<leftarrow> vec_get vd node_idx;
          n \<leftarrow> vec_get dup_vec node_idx;
          let (state1, dup_vec1) =
            (if n = uint_max then (state, dup_vec[node_idx := orig_node_idx])
             else if n \<noteq> orig_node_idx then (state\<lparr>walk_dup := True\<rparr>, dup_vec)
             else (state, dup_vec));
          state2 \<leftarrow> process_edges tab state1 g node_idx (class_direction (classification d));
          Some (state2, dup_vec1) }"

partial_function (option) walk_loop ::
  "(constraint \<times> 'so) list \<Rightarrow> region_graph \<Rightarrow> var_data list \<Rightarrow> region_vid
     \<Rightarrow> 'so walk_state \<Rightarrow> uint list \<Rightarrow> ('so walk_state \<times> uint list) option" where
  "walk_loop tab g vd orig_node_idx state dup_vec =
     (case vec_pop (walk_stack state) of
        None \<Rightarrow> Some (state, dup_vec)
      | Some (node_idx, rest) \<Rightarrow>
          (case walk_step tab g vd orig_node_idx node_idx (state\<lparr>walk_stack := rest\<rparr>) dup_vec of
             None \<Rightarrow> None
           | Some (state', dup_vec') \<Rightarrow> walk_loop tab g vd orig_node_idx state' dup_vec'))"

definition collect_concrete_regions ::
  "(constraint \<times> 'so) list \<Rightarrow> region_graph \<Rightarrow> var_data list \<Rightarrow> region_vid \<Rightarrow> direction
     \<Rightarrow> uint list \<Rightarrow> ('so region_and_origin list \<times> bool \<times> uint list) option" where
  "collect_concrete_regions tab g vd orig_node_idx dir dup_vec =
     do { state \<leftarrow> process_edges tab
            \<lparr>walk_set = {orig_node_idx}, walk_stack = [orig_node_idx], walk_result = [],
             walk_dup = False\<rparr> g orig_node_idx dir;
          (state', dup_vec') \<leftarrow> walk_loop tab g vd orig_node_idx state dup_vec;
          Some (walk_result state', walk_dup state', dup_vec') }"

fun free_regions_first ::
  "'so region_and_origin \<Rightarrow> 'so region_and_origin \<Rightarrow> ordering" where
  "free_regions_first a b =
     (case (ro_region a, ro_region b) of
        (ReFree _, ReFree _) \<Rightarrow> Equal
      | (ReFree _, _) \<Rightarrow> Less
      | (_, ReFree _) \<Rightarrow> Greater
      | (_, _) \<Rightarrow> Equal)"

text \<open>
  The nested \<open>for\<close> loops over two vectors that stop at the first pair with a property;
  the test may itself fail.
\<close>

fun find_pair :: "('a \<times> 'a \<Rightarrow> bool option) \<Rightarrow> ('a \<times> 'a) list \<Rightarrow> ('a \<times> 'a) option option" where
  "find_pair bad [] = Some None"
| "find_pair bad (p # ps) =
     do { b \<leftarrow> bad p; if b then Some (Some p) else find_pair bad ps }"

definition collect_error_for_expanding_node ::
  "region_maps \<Rightarrow> ('vo, 'so) region_var_bindings \<Rightarrow> region_graph \<Rightarrow> var_data list
     \<Rightarrow> uint list \<Rightarrow> region_vid \<Rightarrow> ('vo, 'so, 'tt) region_resolution_error list
     \<Rightarrow> (('vo, 'so, 'tt) region_resolution_error list \<times> uint list) option" where
  "collect_error_for_expanding_node rm st g vd dup_vec node_idx errors =
     do { (lower_bounds0, lower_dup, dup_vec1) \<leftarrow>
            collect_concrete_regions (constraints st) g vd node_idx Incoming dup_vec;
          (upper_bounds0, upper_dup, dup_vec2) \<leftarrow>
            collect_concrete_regions (constraints st) g vd node_idx Outgoing dup_vec1;
          if lower_dup \<or> upper_dup then Some (errors, dup_vec2)
          else do {
            let lower_bounds = sort_by free_regions_first lower_bounds0;
            let upper_bounds = sort_by free_regions_first upper_bounds0;
            found \<leftarrow> find_pair (\<lambda>(l, u). map_option Not (is_subregion_of rm (ro_region l) (ro_region u)))
              (List.product lower_bounds upper_bounds);
            case found of
              Some (l, u) \<Rightarrow>
                do { origin \<leftarrow> vec_get (var_origins st) node_idx;
                     Some (errors @ [SubSupConflict origin (ro_origin l) (ro_region l)
                                       (ro_origin u) (ro_region u)], dup_vec2) }
            | None \<Rightarrow> None } }"

definition collect_error_for_contracting_node ::
  "region_maps \<Rightarrow> ('vo, 'so) region_var_bindings \<Rightarrow> region_graph \<Rightarrow> var_data list
     \<Rightarrow> uint list \<Rightarrow> region_vid \<Rightarrow> ('vo, 'so, 'tt) region_resolution_error list
     \<Rightarrow> (('vo, 'so, 'tt) region_resolution_error list \<times> uint list) option" where
  "collect_error_for_contracting_node rm st g vd dup_vec node_idx errors =
     do { (upper_bounds, dup_found, dup_vec1) \<leftarrow>
            collect_concrete_regions (constraints st) g vd node_idx Outgoing dup_vec;
          if dup_found then Some (errors, dup_vec1)
          else do {
            found \<leftarrow> find_pair (\<lambda>(u1, u2). map_option (\<lambda>r. case r of Inr _ \<Rightarrow> False | Inl _ \<Rightarrow> True)
                (glb_concrete_regions rm (ro_region u1) (ro_region u2)))
              (List.product upper_bounds upper_bounds);
            case found of
              Some (u1, u2) \<Rightarrow>
                do { origin \<leftarrow> vec_get (var_origins st) node_idx;
                     Some (errors @ [SupSupConflict origin (ro_origin u1) (ro_region u1)
                                       (ro_origin u2) (ro_region u2)], dup_vec1) }
            | None \<Rightarrow> None } }"

text \<open>
  The loop over the variables.  The graph is built when the first error is met and then
  kept; building it is a function of the constraints, which do not change.
\<close>

fun collect_conflicts ::
  "region_maps \<Rightarrow> ('vo, 'so) region_var_bindings \<Rightarrow> var_data list \<Rightarrow> uint list
     \<Rightarrow> region_graph option \<Rightarrow> uint list
     \<Rightarrow> ('vo, 'so, 'tt) region_resolution_error list
     \<Rightarrow> ('vo, 'so, 'tt) region_resolution_error list option" where
  "collect_conflicts rm st vd [] opt_graph dup_vec errors = Some errors"
| "collect_conflicts rm st vd (idx # idxs) opt_graph dup_vec errors =
     do { d \<leftarrow> vec_get vd idx;
          case data_value d of
            Value _ \<Rightarrow> collect_conflicts rm st vd idxs opt_graph dup_vec errors
          | NoValue \<Rightarrow> collect_conflicts rm st vd idxs opt_graph dup_vec errors
          | ErrorValue \<Rightarrow>
              do { g \<leftarrow> (case opt_graph of None \<Rightarrow> construct_graph st | Some g \<Rightarrow> Some g);
                   (errors1, dup_vec1) \<leftarrow>
                     (case classification d of
                        Expanding \<Rightarrow>
                          collect_error_for_expanding_node rm st g vd dup_vec idx errors
                      | Contracting \<Rightarrow>
                          collect_error_for_contracting_node rm st g vd dup_vec idx errors);
                   collect_conflicts rm st vd idxs (Some g) dup_vec1 errors1 } }"

definition extract_values_and_collect_conflicts ::
  "region_maps \<Rightarrow> ('vo, 'so) region_var_bindings \<Rightarrow> var_data list
     \<Rightarrow> ('vo, 'so, 'tt) region_resolution_error list
     \<Rightarrow> (var_value list \<times> ('vo, 'so, 'tt) region_resolution_error list) option" where
  "extract_values_and_collect_conflicts rm st vd errors =
     do { errors1 \<leftarrow> collect_conflicts rm st vd [0..<num_vars st] None
            (replicate (num_vars st) uint_max) errors;
          vs \<leftarrow> those (map (\<lambda>idx. map_option data_value (vec_get vd idx)) [0..<num_vars st]);
          Some (vs, errors1) }"

definition infer_variable_values ::
  "region_maps \<Rightarrow> ('vo, 'so) region_var_bindings
     \<Rightarrow> ('vo, 'so, 'tt) region_resolution_error list
     \<Rightarrow> (var_value list \<times> ('vo, 'so, 'tt) region_resolution_error list) option" where
  "infer_variable_values rm st errors =
     do { vd1 \<leftarrow> expansion rm st (construct_var_data st);
          vd2 \<leftarrow> contraction rm st vd1;
          errors1 \<leftarrow> collect_concrete_region_errors rm st errors;
          extract_values_and_collect_conflicts rm st vd2 errors1 }"

definition resolve_regions ::
  "region_maps \<Rightarrow> ('vo, 'so) region_var_bindings
     \<Rightarrow> (('vo, 'so, 'tt) region_resolution_error list \<times> ('vo, 'so) region_var_bindings) option" where
  "resolve_regions rm st =
     do { (v, errors) \<leftarrow> infer_variable_values rm st [];
          Some (errors, st\<lparr>var_values := Some v\<rparr>) }"

section \<open>Well-formed constraints\<close>

text \<open>
  Every constraint is about variables that exist and concrete regions: late and early bound
  regions are a compiler bug here, and the empty region is not one the lattice is closed under.
\<close>

fun constraint_ok :: "uint \<Rightarrow> constraint \<Rightarrow> bool" where
  "constraint_ok n (ConstrainVarSubVar a b) \<longleftrightarrow> a < n \<and> b < n"
| "constraint_ok n (ConstrainRegSubVar r b) \<longleftrightarrow> concrete r \<and> b < n"
| "constraint_ok n (ConstrainVarSubReg a r) \<longleftrightarrow> a < n \<and> concrete r"
| "constraint_ok n (ConstrainRegSubReg a b) \<longleftrightarrow> concrete a \<and> concrete b"

abbreviation constraint_set :: "('vo, 'so) region_var_bindings \<Rightarrow> constraint set" where
  "constraint_set st \<equiv> set (map fst (constraints st))"

fun bound_of :: "constraint \<Rightarrow> region set" where
  "bound_of (ConstrainRegSubVar r b) = {r}"
| "bound_of (ConstrainVarSubReg a r) = {r}"
| "bound_of _ = {}"

text \<open>The regions a value can be: a bound, the static region, or a scope around a bound.\<close>

definition candidates :: "region_maps \<Rightarrow> ('vo, 'so) region_var_bindings \<Rightarrow> region set" where
  "candidates rm st = universe rm (\<Union>c \<in> constraint_set st. bound_of c)"

definition solvable :: "region_maps \<Rightarrow> ('vo, 'so) region_var_bindings \<Rightarrow> bool" where
  "solvable rm st \<longleftrightarrow> maps_ok rm \<and> free_nested rm \<and>
     (\<forall>c \<in> constraint_set st. constraint_ok (num_vars st) c)"

lemma solvableD:
  assumes "solvable rm st"
  shows "maps_ok rm" "free_nested rm" "c \<in> constraint_set st \<Longrightarrow> constraint_ok (num_vars st) c"
    and "finite (candidates rm st)" "r \<in> candidates rm st \<Longrightarrow> concrete r"
    and "c \<in> constraint_set st \<Longrightarrow> r \<in> bound_of c \<Longrightarrow> r \<in> candidates rm st"
proof -
  show "maps_ok rm" "free_nested rm" "c \<in> constraint_set st \<Longrightarrow> constraint_ok (num_vars st) c"
    using assms unfolding solvable_def by blast+
  have fin: "finite (bound_of c)" for c by (cases c) auto
  show "finite (candidates rm st)" unfolding candidates_def
    by (rule finite_universe) (use assms fin in \<open>auto simp: solvable_def maps_ok_def\<close>)
  have ok: "concrete x" if "x \<in> (\<Union>c \<in> constraint_set st. bound_of c)" for x
  proof -
    from that obtain c where c: "c \<in> constraint_set st" "x \<in> bound_of c" by blast
    then have "constraint_ok (num_vars st) c" using assms unfolding solvable_def by blast
    with c(2) show ?thesis by (cases c) auto
  qed
  show "r \<in> candidates rm st \<Longrightarrow> concrete r"
    unfolding candidates_def by (rule universe_concrete [OF ballI [OF ok]])
  show "c \<in> constraint_set st \<Longrightarrow> r \<in> bound_of c \<Longrightarrow> r \<in> candidates rm st"
    unfolding candidates_def by (intro universe_incl) blast
qed

section \<open>Running a body on one node\<close>

lemma on_node_eq: "i < length vd \<Longrightarrow> f (vd ! i) = Some (b, d) \<Longrightarrow> on_node vd i f = Some (b, vd[i := d])"
  by (simp add: on_node_def vec_get_def)

definition rank_sum :: "(var_data \<Rightarrow> nat) \<Rightarrow> var_data list \<Rightarrow> nat" where
  "rank_sum rk vd = sum_list (map rk vd)"

lemma rank_sum_update:
  assumes "i < length vd"
  shows "rank_sum rk (vd[i := d]) + rk (vd ! i) = rank_sum rk vd + rk d"
  unfolding rank_sum_def using assms
  by (induction vd arbitrary: i) (auto simp: less_Suc_eq_0_disj)

lemma rank_sum_less: "i < length vd \<Longrightarrow> rk d < rk (vd ! i) \<Longrightarrow> rank_sum rk (vd[i := d]) < rank_sum rk vd"
  using rank_sum_update [of i vd rk d] by linarith

lemma rank_sum_le: "i < length vd \<Longrightarrow> rk d \<le> rk (vd ! i) \<Longrightarrow> rank_sum rk (vd[i := d]) \<le> rank_sum rk vd"
  using rank_sum_update [of i vd rk d] by linarith

section \<open>Expansion\<close>

text \<open>The variables some concrete region flows into.\<close>

inductive has_lower :: "('vo, 'so) region_var_bindings \<Rightarrow> region_vid \<Rightarrow> bool" for st where
  bound: "ConstrainRegSubVar r v \<in> constraint_set st \<Longrightarrow> has_lower st v"
| flow: "ConstrainVarSubVar u v \<in> constraint_set st \<Longrightarrow> has_lower st u \<Longrightarrow> has_lower st v"

fun expanded_ok :: "region set \<Rightarrow> var_data \<Rightarrow> bool" where
  "expanded_ok U d \<longleftrightarrow>
     (case data_value d of
        NoValue \<Rightarrow> classification d = Contracting
      | Value r \<Rightarrow> r \<in> U \<and> classification d = Expanding
      | ErrorValue \<Rightarrow> False)"

definition expand_inv ::
  "region_maps \<Rightarrow> ('vo, 'so) region_var_bindings \<Rightarrow> var_data list \<Rightarrow> bool" where
  "expand_inv rm st vd \<longleftrightarrow> solvable rm st \<and> length vd = num_vars st \<and>
     (\<forall>i < num_vars st. expanded_ok (candidates rm st) (vd ! i) \<and>
        (data_value (vd ! i) \<noteq> NoValue \<longrightarrow> has_lower st i))"

fun expand_rank :: "region_maps \<Rightarrow> region set \<Rightarrow> var_data \<Rightarrow> nat" where
  "expand_rank rm U d =
     (case data_value d of NoValue \<Rightarrow> card U + 1 | Value r \<Rightarrow> height rm U r | ErrorValue \<Rightarrow> 0)"

lemma expand_node_ok:
  assumes "solvable rm st" "U = candidates rm st" "expanded_ok U d" "a \<in> U"
  obtains b d' where "expand_node rm a d = Some (b, d')" "expanded_ok U d'" "data_value d' \<noteq> NoValue"
    "b \<longrightarrow> expand_rank rm U d' < expand_rank rm U d"
    "\<not> b \<longrightarrow> d' = d \<and> (\<exists>r. data_value d = Value r \<and> subregion rm a r)"
proof (cases "data_value d")
  case NoValue
  have "height rm U a < card U + 1" using height_le [of U rm a] solvableD(4) [OF assms(1)] assms(2) by simp
  with NoValue that assms(3,4) show ?thesis by (simp add: expand_node_def Let_def)
next
  case (Value r)
  then have r: "r \<in> U" "classification d = Expanding" using assms(3) by auto
  note sD = solvableD [OF assms(1)]
  obtain c where c: "lub_concrete_regions rm a r = Some c" "subregion rm a c"
    "region_eq c r \<or> below rm r c" "lub_reach rm a r c"
    using lub_ok [OF sD(1), of a r] assms(2,4) r(1) sD(5) by blast
  have U: "c \<in> U" using lub_in_universe [OF c(4)] assms(2,4) r(1) by (simp add: candidates_def)
  have d: "d\<lparr>classification := Expanding\<rparr> = d" using r(2) by simp
  show ?thesis
  proof (cases "region_eq c r")
    case True
    have "subregion rm a r" using subregion_trans [OF sD(2) c(2) subregion_eq [OF True]] .
    with True that [of False d] Value c r assms(3) d show ?thesis
      by (simp add: expand_node_def Let_def)
  next
    case False
    then have "height rm U c < height rm U r"
      using height_less [OF sD(2) sD(4), of r c] c(3) U assms(2) by simp
    with False that [of True "d\<lparr>data_value := Value c\<rparr>"] Value c r U d show ?thesis
      by (simp add: expand_node_def Let_def)
  qed
next
  case ErrorValue
  with assms(3) show ?thesis by simp
qed

lemma expand_inv_update:
  assumes "expand_inv rm st vd" "i < num_vars st" "expanded_ok (candidates rm st) d"
    "data_value d \<noteq> NoValue \<longrightarrow> has_lower st i"
  shows "expand_inv rm st (vd[i := d])"
  using assms by (auto simp: expand_inv_def nth_list_update)

text \<open>What one constraint does to data that satisfies the invariant.\<close>

definition expanded :: "region_maps \<Rightarrow> constraint \<Rightarrow> var_data list \<Rightarrow> bool" where
  "expanded rm c vd \<longleftrightarrow>
     (case c of
        ConstrainRegSubVar r b \<Rightarrow> \<exists>rb. data_value (vd ! b) = Value rb \<and> subregion rm r rb
      | ConstrainVarSubVar a b \<Rightarrow>
          \<forall>ra. data_value (vd ! a) = Value ra \<longrightarrow>
            (\<exists>rb. data_value (vd ! b) = Value rb \<and> subregion rm ra rb)
      | _ \<Rightarrow> True)"

lemma expand_on_node:
  assumes inv: "expand_inv rm st vd" and i: "i < num_vars st" and a: "a \<in> candidates rm st"
    and low: "has_lower st i"
  obtains b vd' where "on_node vd i (expand_node rm a) = Some (b, vd')" "expand_inv rm st vd'"
    "b \<longrightarrow> rank_sum (expand_rank rm (candidates rm st)) vd'
            < rank_sum (expand_rank rm (candidates rm st)) vd"
    "\<not> b \<longrightarrow> vd' = vd \<and> (\<exists>r. data_value (vd ! i) = Value r \<and> subregion rm a r)"
proof -
  have ok: "solvable rm st" "expanded_ok (candidates rm st) (vd ! i)" "i < length vd"
    using inv i by (auto simp: expand_inv_def)
  obtain b d' where d': "expand_node rm a (vd ! i) = Some (b, d')" "expanded_ok (candidates rm st) d'"
    "data_value d' \<noteq> NoValue"
    "b \<longrightarrow> expand_rank rm (candidates rm st) d' < expand_rank rm (candidates rm st) (vd ! i)"
    "\<not> b \<longrightarrow> d' = vd ! i \<and> (\<exists>r. data_value (vd ! i) = Value r \<and> subregion rm a r)"
    by (rule expand_node_ok [OF ok(1) refl ok(2) a])
  show ?thesis
  proof (rule that [of b "vd[i := d']"])
    show "on_node vd i (expand_node rm a) = Some (b, vd[i := d'])" by (rule on_node_eq [where f = "expand_node rm a", OF ok(3) d'(1)])
    show "expand_inv rm st (vd[i := d'])" using expand_inv_update [OF inv i d'(2)] low by simp
  qed (use d' ok(3) rank_sum_less in auto)
qed

lemma expand_constraint_ok:
  assumes inv: "expand_inv rm st vd" and c: "c \<in> constraint_set st"
  obtains b vd' where "expand_constraint rm c vd = Some (b, vd')" "expand_inv rm st vd'"
    "b \<longrightarrow> rank_sum (expand_rank rm (candidates rm st)) vd'
            < rank_sum (expand_rank rm (candidates rm st)) vd"
    "\<not> b \<longrightarrow> vd' = vd \<and> expanded rm c vd"
proof -
  have s: "solvable rm st" and len: "length vd = num_vars st" using inv by (auto simp: expand_inv_def)
  note ok = solvableD(3) [OF s c] and cand = solvableD(6) [OF s c]
  show ?thesis
  proof (cases c)
    case [simp]: (ConstrainRegSubVar r v)
    have "v < num_vars st" "r \<in> candidates rm st" "has_lower st v"
      using ok cand c has_lower.bound by auto
    then obtain b vd' where "on_node vd v (expand_node rm r) = Some (b, vd')" "expand_inv rm st vd'"
      "b \<longrightarrow> rank_sum (expand_rank rm (candidates rm st)) vd'
          < rank_sum (expand_rank rm (candidates rm st)) vd"
      "\<not> b \<longrightarrow> vd' = vd \<and> (\<exists>ra. data_value (vd ! v) = Value ra \<and> subregion rm r ra)"
      by (rule expand_on_node [OF inv])
    with that show ?thesis by (simp add: expanded_def)
  next
    case [simp]: (ConstrainVarSubVar a v)
    have av: "a < num_vars st" "v < num_vars st" using ok by auto
    show ?thesis
    proof (cases "data_value (vd ! a)")
      case (Value ra)
      then have ra: "ra \<in> candidates rm st" and "has_lower st a" using inv av by (auto simp: expand_inv_def)
      then have v: "has_lower st v" using has_lower.flow [of a v st] c by simp
      obtain b vd' where "on_node vd v (expand_node rm ra) = Some (b, vd')" "expand_inv rm st vd'"
        "b \<longrightarrow> rank_sum (expand_rank rm (candidates rm st)) vd'
            < rank_sum (expand_rank rm (candidates rm st)) vd"
        "\<not> b \<longrightarrow> vd' = vd \<and> (\<exists>r. data_value (vd ! v) = Value r \<and> subregion rm ra r)"
        by (rule expand_on_node [OF inv av(2) ra v])
      with Value av len that show ?thesis by (simp add: vec_simps expanded_def)
    qed (use that [of False vd] inv av len in \<open>auto simp: vec_simps expanded_def\<close>)
  qed (use that [of False vd] inv in \<open>auto simp: expanded_def\<close>)
qed

interpretation expansion_loop: sweep_body
  "\<lambda>_. expand_constraint rm" "map fst (constraints st)" "expand_inv rm st"
  "rank_sum (expand_rank rm (candidates rm st))" "\<lambda>_. False"
  for rm :: region_maps and st :: "('vo, 'so) region_var_bindings"
proof
  fix s s' c and n :: uint
  assume a: "expand_inv rm st s" "c \<in> set (map fst (constraints st))"
  show "\<exists>b s'. expand_constraint rm c s = Some (b, s') \<and> expand_inv rm st s'"
    by (rule expand_constraint_ok [OF a]) blast
  show "rank_sum (expand_rank rm (candidates rm st)) s' < rank_sum (expand_rank rm (candidates rm st)) s"
    if "expand_constraint rm c s = Some (True, s')"
    by (rule expand_constraint_ok [OF a]) (use that in simp)
  show "rank_sum (expand_rank rm (candidates rm st)) s' \<le> rank_sum (expand_rank rm (candidates rm st)) s \<and>
      (s' = s \<or> False)"
    if "expand_constraint rm c s = Some (False, s')"
    by (rule expand_constraint_ok [OF a]) (use that in simp)
qed

lemma expand_inv_start: "solvable rm st \<Longrightarrow> expand_inv rm st (construct_var_data st)"
  by (simp add: expand_inv_def construct_var_data_def)

lemma expansion_ok:
  assumes "solvable rm st"
  obtains vd where "expansion rm st (construct_var_data st) = Some vd" "expand_inv rm st vd"
    "\<forall>c \<in> constraint_set st. expanded rm c vd"
proof -
  obtain vd where vd: "expansion rm st (construct_var_data st) = Some vd" "expand_inv rm st vd"
    "\<forall>c \<in> constraint_set st. expand_constraint rm c vd = Some (False, vd)"
    using expansion_loop.iterate_stable [OF expand_inv_start [OF assms], of 0]
    unfolding expansion_def iterate_constraints_def by blast
  have "expanded rm c vd" if c: "c \<in> constraint_set st" for c
  proof (rule expand_constraint_ok [OF vd(2) c])
    fix b vd'
    assume "expand_constraint rm c vd = Some (b, vd')" "\<not> b \<longrightarrow> vd' = vd \<and> expanded rm c vd"
    with bspec [OF vd(3) c] show ?thesis by simp
  qed
  then show ?thesis by (intro that [OF vd(1,2)]) blast
qed

section \<open>Contraction\<close>

fun contracted_ok :: "region set \<Rightarrow> var_data \<Rightarrow> bool" where
  "contracted_ok U d \<longleftrightarrow>
     (case data_value d of
        NoValue \<Rightarrow> classification d = Contracting
      | Value r \<Rightarrow> r \<in> U
      | ErrorValue \<Rightarrow> True)"

text \<open>Contraction never changes a classification, and spoils an expanded value or keeps it.\<close>

definition kept :: "var_data \<Rightarrow> var_data \<Rightarrow> bool" where
  "kept d0 d \<longleftrightarrow> classification d = classification d0 \<and>
     (classification d0 = Expanding \<longrightarrow> data_value d = data_value d0 \<or> data_value d = ErrorValue)"

lemma kept_trans: "kept d0 d \<Longrightarrow> kept d d' \<Longrightarrow> kept d0 d'"
  by (auto simp: kept_def)

definition contract_inv ::
  "region_maps \<Rightarrow> ('vo, 'so) region_var_bindings \<Rightarrow> var_data list \<Rightarrow> var_data list \<Rightarrow> bool" where
  "contract_inv rm st vd0 vd \<longleftrightarrow> solvable rm st \<and> length vd = num_vars st \<and>
     (\<forall>i < num_vars st. contracted_ok (candidates rm st) (vd ! i) \<and> kept (vd0 ! i) (vd ! i))"

definition erroneous :: "var_data list \<Rightarrow> bool" where
  "erroneous vd \<longleftrightarrow> (\<exists>i < length vd. data_value (vd ! i) = ErrorValue)"

fun contract_rank :: "region_maps \<Rightarrow> region set \<Rightarrow> var_data \<Rightarrow> nat" where
  "contract_rank rm U d =
     (case data_value d of NoValue \<Rightarrow> card U + 2 | Value r \<Rightarrow> depth rm U r + 1 | ErrorValue \<Rightarrow> 0)"

definition contract_post :: "region_maps \<Rightarrow> region set \<Rightarrow> region \<Rightarrow> var_data \<Rightarrow> bool \<Rightarrow> var_data \<Rightarrow> bool" where
  "contract_post rm U b d ch d' \<longleftrightarrow>
     contracted_ok U d' \<and> kept d d' \<and> (data_value d = ErrorValue \<longrightarrow> d' = d) \<and>
     (if ch then contract_rank rm U d' < contract_rank rm U d
      else data_value d' = ErrorValue \<or>
           d' = d \<and> (\<exists>r. data_value d = Value r \<and> subregion rm r b))"

lemma contract_node_ok:
  assumes s: "solvable rm st" and U: "U = candidates rm st" and d: "contracted_ok U d" and b: "b \<in> U"
  obtains ch d' where "contract_node rm d b = Some (ch, d')" "contract_post rm U b d ch d'"
proof (cases "data_value d")
  case NoValue
  have "depth rm U b < card U + 1" using depth_le [of U rm b] solvableD(4) [OF s] U by simp
  with NoValue d b that show ?thesis by (simp add: contract_node_def contract_post_def kept_def)
next
  case ErrorValue
  with d that [of False d] show ?thesis by (simp add: contract_node_def contract_post_def kept_def)
next
  case (Value r)
  note sD = solvableD [OF s]
  have r: "r \<in> U" using d Value by simp
  show ?thesis
  proof (cases "classification d")
    case Expanding
    with Value r that [of False d] that [of False "d\<lparr>data_value := ErrorValue\<rparr>"] d show ?thesis
      by (cases "subregion rm r b")
        (simp_all add: contract_node_def check_node_def is_subregion_of_eq [OF sD(1)]
          contract_post_def kept_def)
  next
    case Contracting
    obtain g where g: "glb_concrete_regions rm r b = Some g" "glb_spec rm r b g"
      using glb_ok [OF sD(1), of r b] r b U sD(5) by blast
    show ?thesis
    proof (cases g)
      case (Inl e)
      with g Value Contracting that [of False "d\<lparr>data_value := ErrorValue\<rparr>"] show ?thesis
        by (simp add: contract_node_def adjust_node_def contract_post_def kept_def)
    next
      case (Inr c)
      then have c: "subregion rm c b" "region_eq c r \<or> below rm c r" "glb_reach rm r b c"
        using g(2) by (auto simp: glb_spec_def)
      have cU: "c \<in> U" using glb_in_universe [OF c(3)] r b U by (simp add: candidates_def)
      show ?thesis
      proof (cases "region_eq c r")
        case True
        have "subregion rm r b"
          using subregion_trans [OF sD(2) subregion_eq [OF region_eq_sym [OF True]] c(1)] .
        with True Inr g Value Contracting that [of False d] d show ?thesis
          by (simp add: contract_node_def adjust_node_def contract_post_def kept_def)
      next
        case False
        then have "depth rm U c < depth rm U r"
          using depth_less [OF sD(2) sD(4), of c r] c(2) cU U by simp
        with False Inr g Value Contracting that [of True "d\<lparr>data_value := Value c\<rparr>"] cU show ?thesis
          by (simp add: contract_node_def adjust_node_def contract_post_def kept_def)
      qed
    qed
  qed
qed

lemma contract_rank_quiet:
  assumes "contract_post rm U b d False d'"
  shows "contract_rank rm U d' \<le> contract_rank rm U d"
  using assms by (auto simp: contract_post_def)

text \<open>A constraint that contraction acts on, once it no longer does.\<close>

definition contracted :: "region_maps \<Rightarrow> constraint \<Rightarrow> var_data list \<Rightarrow> bool" where
  "contracted rm c vd \<longleftrightarrow>
     (case c of
        ConstrainVarSubReg a r \<Rightarrow> \<exists>ra. data_value (vd ! a) = Value ra \<and> subregion rm ra r
      | ConstrainVarSubVar a b \<Rightarrow>
          \<forall>rb. data_value (vd ! b) = Value rb \<longrightarrow>
            (\<exists>ra. data_value (vd ! a) = Value ra \<and> subregion rm ra rb)
      | _ \<Rightarrow> True)"

definition contract_step ::
  "region_maps \<Rightarrow> ('vo, 'so) region_var_bindings \<Rightarrow> var_data list \<Rightarrow> bool \<Rightarrow> var_data list \<Rightarrow> bool \<Rightarrow> bool" where
  "contract_step rm st vd b vd' settled \<longleftrightarrow>
     (erroneous vd \<longrightarrow> erroneous vd') \<and>
     (if b then rank_sum (contract_rank rm (candidates rm st)) vd'
             < rank_sum (contract_rank rm (candidates rm st)) vd
      else rank_sum (contract_rank rm (candidates rm st)) vd'
             \<le> rank_sum (contract_rank rm (candidates rm st)) vd \<and>
           (erroneous vd' \<or> vd' = vd \<and> settled))"

lemma contract_on_node:
  assumes inv: "contract_inv rm st vd0 vd" and i: "i < num_vars st" and r: "r \<in> candidates rm st"
  obtains b vd' where "on_node vd i (\<lambda>d. contract_node rm d r) = Some (b, vd')"
    "contract_inv rm st vd0 vd'"
    "contract_step rm st vd b vd' (\<exists>ra. data_value (vd ! i) = Value ra \<and> subregion rm ra r)"
proof -
  have ok: "solvable rm st" "contracted_ok (candidates rm st) (vd ! i)" "i < length vd"
    "kept (vd0 ! i) (vd ! i)" "length vd = num_vars st"
    using inv i by (auto simp: contract_inv_def)
  obtain b d' where n: "contract_node rm (vd ! i) r = Some (b, d')"
    and post: "contract_post rm (candidates rm st) r (vd ! i) b d'"
    by (rule contract_node_ok [OF ok(1) refl ok(2) r])
  have d': "contracted_ok (candidates rm st) d'" "kept (vd ! i) d'"
    "data_value (vd ! i) = ErrorValue \<longrightarrow> d' = vd ! i"
    using post unfolding contract_post_def by blast+
  have inv': "contract_inv rm st vd0 (vd[i := d'])"
    unfolding contract_inv_def
  proof (intro conjI allI impI)
    fix j assume j: "j < num_vars st"
    then have "contracted_ok (candidates rm st) (vd ! j)" "kept (vd0 ! j) (vd ! j)"
      using inv unfolding contract_inv_def by blast+
    with d'(1) kept_trans [OF ok(4) d'(2)] ok(3)
    show "contracted_ok (candidates rm st) (vd[i := d'] ! j)" "kept (vd0 ! j) (vd[i := d'] ! j)"
      by (cases "i = j"; simp del: contracted_ok.simps)+
  qed (use ok in simp_all)
  have err: "erroneous vd \<longrightarrow> erroneous (vd[i := d'])"
    using d'(3) ok(3) unfolding erroneous_def by (metis length_list_update nth_list_update_eq nth_list_update_neq)
  have step: "contract_step rm st vd b (vd[i := d']) (\<exists>ra. data_value (vd ! i) = Value ra \<and> subregion rm ra r)"
  proof (cases b)
    case True
    with post have "contract_rank rm (candidates rm st) d' < contract_rank rm (candidates rm st) (vd ! i)"
      unfolding contract_post_def by simp
    from rank_sum_less [where rk = "contract_rank rm (candidates rm st)", OF ok(3) this] err True
    show ?thesis unfolding contract_step_def by presburger
  next
    case False
    with post have "contract_rank rm (candidates rm st) d' \<le> contract_rank rm (candidates rm st) (vd ! i)"
      by (intro contract_rank_quiet [of _ _ r]) simp
    note le = rank_sum_le [where rk = "contract_rank rm (candidates rm st)", OF ok(3) this]
    have "erroneous (vd[i := d']) \<or> vd[i := d'] = vd \<and> (\<exists>ra. data_value (vd ! i) = Value ra \<and> subregion rm ra r)"
      using post False ok(3) unfolding contract_post_def erroneous_def
      by (metis length_list_update list_update_id nth_list_update_eq)
    with err le False show ?thesis unfolding contract_step_def by presburger
  qed
  show ?thesis
    by (rule that [OF on_node_eq [where f = "\<lambda>d. contract_node rm d r", OF ok(3) n] inv' step])
qed

lemma contract_step_same: "ok \<Longrightarrow> contract_step rm st vd False vd ok"
  by (simp add: contract_step_def)

lemma contract_constraint_ok:
  assumes inv: "contract_inv rm st vd0 vd" and c: "c \<in> constraint_set st"
  obtains b vd' where "contract_constraint rm c vd = Some (b, vd')" "contract_inv rm st vd0 vd'"
    "contract_step rm st vd b vd' (contracted rm c vd)"
proof -
  have s: "solvable rm st" and len: "length vd = num_vars st" using inv by (auto simp: contract_inv_def)
  note ok = solvableD(3) [OF s c] and cand = solvableD(6) [OF s c]
  show ?thesis
  proof (cases c)
    case [simp]: (ConstrainVarSubReg a r)
    have "a < num_vars st" "r \<in> candidates rm st" using ok cand by auto
    then obtain b vd' where "on_node vd a (\<lambda>d. contract_node rm d r) = Some (b, vd')"
      "contract_inv rm st vd0 vd'"
      "contract_step rm st vd b vd' (\<exists>ra. data_value (vd ! a) = Value ra \<and> subregion rm ra r)"
      by (rule contract_on_node [OF inv])
    with that show ?thesis by (simp add: contracted_def)
  next
    case [simp]: (ConstrainVarSubVar a v)
    have av: "a < num_vars st" "v < num_vars st" using ok by auto
    show ?thesis
    proof (cases "data_value (vd ! v)")
      case (Value rb)
      then have rb: "rb \<in> candidates rm st" using inv av by (auto simp: contract_inv_def)
      obtain b vd' where "on_node vd a (\<lambda>d. contract_node rm d rb) = Some (b, vd')"
        "contract_inv rm st vd0 vd'"
        "contract_step rm st vd b vd' (\<exists>ra. data_value (vd ! a) = Value ra \<and> subregion rm ra rb)"
        by (rule contract_on_node [OF inv av(1) rb])
      with Value av len that show ?thesis by (simp add: vec_simps contracted_def)
    qed (use that [of False vd] inv av len contract_step_same in \<open>auto simp: vec_simps contracted_def\<close>)
  qed (use that [of False vd] inv contract_step_same in \<open>auto simp: contracted_def\<close>)
qed

interpretation contraction_loop: sweep_body
  "\<lambda>_. contract_constraint rm" "map fst (constraints st)" "contract_inv rm st vd0"
  "rank_sum (contract_rank rm (candidates rm st))" erroneous
  for rm :: region_maps and st :: "('vo, 'so) region_var_bindings" and vd0 :: "var_data list"
proof
  fix s s' c b and n :: uint
  assume a: "contract_inv rm st vd0 s" "c \<in> set (map fst (constraints st))"
  obtain b1 s1 where 1: "contract_constraint rm c s = Some (b1, s1)" "contract_inv rm st vd0 s1"
    "contract_step rm st s b1 s1 (contracted rm c s)"
    by (rule contract_constraint_ok [OF a])
  show "\<exists>b s'. contract_constraint rm c s = Some (b, s') \<and> contract_inv rm st vd0 s'" using 1 by blast
  show "rank_sum (contract_rank rm (candidates rm st)) s' < rank_sum (contract_rank rm (candidates rm st)) s"
    if "contract_constraint rm c s = Some (True, s')"
    using 1 that by (simp add: contract_step_def)
  show "rank_sum (contract_rank rm (candidates rm st)) s' \<le> rank_sum (contract_rank rm (candidates rm st)) s \<and>
      (s' = s \<or> erroneous s')"
    if "contract_constraint rm c s = Some (False, s')"
    using 1 that by (auto simp: contract_step_def)
  show "erroneous s'" if "erroneous s" "contract_constraint rm c s = Some (b, s')"
    using 1 that by (simp add: contract_step_def)
qed

lemma contract_inv_start:
  assumes "expand_inv rm st vd"
  shows "contract_inv rm st vd vd"
  unfolding contract_inv_def
proof (intro conjI allI impI)
  fix i assume "i < num_vars st"
  with assms have "expanded_ok (candidates rm st) (vd ! i)" by (simp add: expand_inv_def)
  then show "contracted_ok (candidates rm st) (vd ! i)" by (auto split: var_value.splits)
qed (use assms in \<open>simp_all add: expand_inv_def kept_def\<close>)

lemma contraction_ok:
  assumes "expand_inv rm st vd0"
  obtains vd where "contraction rm st vd0 = Some vd" "contract_inv rm st vd0 vd"
    "\<not> erroneous vd \<longrightarrow> (\<forall>c \<in> constraint_set st. contracted rm c vd)"
proof -
  obtain vd where vd: "contraction rm st vd0 = Some vd" "contract_inv rm st vd0 vd"
    "erroneous vd \<or> (\<forall>c \<in> constraint_set st. contract_constraint rm c vd = Some (False, vd))"
    using contraction_loop.iterate_stable [OF contract_inv_start [OF assms], of 0]
    unfolding contraction_def iterate_constraints_def by blast
  have "contracted rm c vd" if c: "c \<in> constraint_set st" and ne: "\<not> erroneous vd" for c
  proof (rule contract_constraint_ok [OF vd(2) c])
    fix b vd'
    assume "contract_constraint rm c vd = Some (b, vd')" "contract_step rm st vd b vd' (contracted rm c vd)"
    moreover have "contract_constraint rm c vd = Some (False, vd)" using vd(3) c ne by blast
    ultimately show ?thesis using ne by (simp add: contract_step_def)
  qed
  then show ?thesis by (intro that [OF vd(1,2)]) blast
qed

section \<open>Expansion solves the lower bounds\<close>

lemma expanded_has_lower:
  assumes "\<forall>c \<in> constraint_set st. expanded rm c vd" and "expand_inv rm st vd" and "has_lower st v"
  shows "v < num_vars st \<and> data_value (vd ! v) \<noteq> NoValue"
  using assms(3)
proof induction
  case (bound r v)
  then show ?case
    using bspec [OF assms(1) bound] solvableD(3) [OF _ bound] assms(2) by (auto simp: expanded_def expand_inv_def)
next
  case (flow u v)
  have "expanded_ok (candidates rm st) (vd ! u)" using flow.IH assms(2) by (auto simp: expand_inv_def)
  with flow.IH obtain ru where "data_value (vd ! u) = Value ru"
    by (auto split: var_value.splits)
  then show ?case
    using bspec [OF assms(1) flow.hyps(1)] solvableD(3) [OF _ flow.hyps(1)] assms(2)
    by (auto simp: expanded_def expand_inv_def)
qed

text \<open>
  C3. On well-formed constraints, whatever the order of the constraint table, expansion
  terminates without a compiler bug; every concrete lower bound is then below the value of
  its variable, the values grow along every constraint between two variables, and a variable
  has a value exactly when some concrete region flows into it.
\<close>

theorem expansion_correct:
  assumes "solvable rm st"
  shows "\<exists>vd. expansion rm st (construct_var_data st) = Some vd \<and> length vd = num_vars st \<and>
     (\<forall>r b. ConstrainRegSubVar r b \<in> constraint_set st \<longrightarrow>
        (\<exists>rb. data_value (vd ! b) = Value rb \<and> is_subregion_of rm r rb = Some True)) \<and>
     (\<forall>a b ra. ConstrainVarSubVar a b \<in> constraint_set st \<longrightarrow> data_value (vd ! a) = Value ra \<longrightarrow>
        (\<exists>rb. data_value (vd ! b) = Value rb \<and> is_subregion_of rm ra rb = Some True)) \<and>
     (\<forall>v < num_vars st. data_value (vd ! v) \<noteq> NoValue \<longleftrightarrow> has_lower st v)"
proof -
  obtain vd where vd: "expansion rm st (construct_var_data st) = Some vd" "expand_inv rm st vd"
    "\<forall>c \<in> constraint_set st. expanded rm c vd"
    by (rule expansion_ok [OF assms])
  note sub = is_subregion_of_eq [OF solvableD(1) [OF assms]]
  have 1: "\<exists>rb. data_value (vd ! b) = Value rb \<and> is_subregion_of rm r rb = Some True"
    if "ConstrainRegSubVar r b \<in> constraint_set st" for r b
    using bspec [OF vd(3) that] by (simp add: expanded_def sub)
  have 2: "\<exists>rb. data_value (vd ! b) = Value rb \<and> is_subregion_of rm ra rb = Some True"
    if "ConstrainVarSubVar a b \<in> constraint_set st" "data_value (vd ! a) = Value ra" for a b ra
    using bspec [OF vd(3) that(1)] that(2) by (simp add: expanded_def sub)
  have 3: "data_value (vd ! v) \<noteq> NoValue \<longleftrightarrow> has_lower st v" if "v < num_vars st" for v
    using expanded_has_lower [OF vd(3,2), of v] vd(2) that by (auto simp: expand_inv_def)
  have "length vd = num_vars st" using vd(2) by (simp add: expand_inv_def)
  with vd(1) 1 2 3 show ?thesis by blast
qed

definition sample_bindings :: "(nat, nat) region_var_bindings" where
  "sample_bindings = new_region_var_bindings\<lparr>var_origins := [0, 0],
     constraints := [(ConstrainVarSubVar 0 1, 10), (ConstrainRegSubVar (ReScope 4) 0, 11),
                     (ConstrainVarSubReg 1 (ReScope 2), 12), (ConstrainRegSubReg (ReScope 3) (ReScope 1), 13)]\<rparr>"

lemma sample_constraints:
  "constraint_set sample_bindings = {ConstrainVarSubVar 0 1, ConstrainRegSubVar (ReScope 4) 0,
     ConstrainVarSubReg 1 (ReScope 2), ConstrainRegSubReg (ReScope 3) (ReScope 1)}"
  "num_vars sample_bindings = 2"
  by (simp_all add: sample_bindings_def num_vars_def)

lemma sample_solvable: "solvable sample_maps sample_bindings"
  using sample_maps_ok unfolding solvable_def sample_constraints by simp

theorem expansion_correct_witness:
  "solvable sample_maps sample_bindings \<and>
   (\<exists>vd rb. expansion sample_maps sample_bindings (construct_var_data sample_bindings) = Some vd \<and>
      data_value (vd ! 1) = Value rb \<and> is_subregion_of sample_maps (ReScope 4) rb = Some True)"
proof -
  obtain vd where vd: "expansion sample_maps sample_bindings (construct_var_data sample_bindings) = Some vd"
    and reg: "\<forall>r b. ConstrainRegSubVar r b \<in> constraint_set sample_bindings \<longrightarrow>
        (\<exists>rb. data_value (vd ! b) = Value rb \<and> is_subregion_of sample_maps r rb = Some True)"
    and var: "\<forall>a b ra. ConstrainVarSubVar a b \<in> constraint_set sample_bindings \<longrightarrow>
        data_value (vd ! a) = Value ra \<longrightarrow>
        (\<exists>rb. data_value (vd ! b) = Value rb \<and> is_subregion_of sample_maps ra rb = Some True)"
    using expansion_correct [OF sample_solvable] by blast
  obtain ra where ra: "data_value (vd ! 0) = Value ra" "is_subregion_of sample_maps (ReScope 4) ra = Some True"
    using reg unfolding sample_constraints by auto
  obtain rb where "data_value (vd ! 1) = Value rb" "is_subregion_of sample_maps ra rb = Some True"
    using var ra(1) unfolding sample_constraints by auto
  moreover from this ra(2) have "is_subregion_of sample_maps (ReScope 4) rb = Some True"
    using subregion_trans [OF sample_maps_ok(2)] is_subregion_of_eq [OF sample_maps_ok(1)] by auto
  ultimately show ?thesis using vd sample_solvable by blast
qed

end
