(* ===== verification/RegionErrors.thy ===== *)
theory RegionErrors
  imports RegionResolve
begin

text \<open>
  What the error collection of \<open>region_inference/mod.rs\<close> computes: the constraint graph,
  the walk that gathers the concrete regions around a variable, and the result of
  \<^const>\<open>resolve_regions\<close>.
\<close>

section \<open>The constraint graph\<close>

fun edge_ends :: "node_index \<Rightarrow> constraint \<Rightarrow> (node_index \<times> node_index) option" where
  "edge_ends dummy (ConstrainVarSubVar a b) = Some (a, b)"
| "edge_ends dummy (ConstrainRegSubVar r b) = Some (dummy, b)"
| "edge_ends dummy (ConstrainVarSubReg a r) = Some (a, dummy)"
| "edge_ends dummy (ConstrainRegSubReg a b) = None"

definition edge_of :: "node_index \<Rightarrow> constraint edge \<Rightarrow> bool" where
  "edge_of dummy e \<longleftrightarrow> edge_ends dummy (edge_data e) = Some (source e, target e)"

lemma add_constraint_edge_eq:
  "add_constraint_edge dummy c g =
     (case edge_ends dummy c of None \<Rightarrow> Some g | Some (s, t) \<Rightarrow> map_option snd (add_edge g s t c))"
  by (cases c) simp_all

lemma add_edge_total:
  assumes "s < length (nodes g)" "t < length (nodes g)"
  obtains i g' e where "add_edge g s t d = Some (i, g')" "edges g' = edges g @ [e]"
    "source e = s" "target e = t" "edge_data e = d" "length (nodes g') = length (nodes g)"
  using assms that
  by (fastforce simp: add_edge_def set_first_edge_def vec_get_def vec_set_def Let_def)

lemma add_constraint_edges_ok:
  assumes "built g" and "\<forall>c \<in> set cs. constraint_ok n c" and "length (nodes g) = Suc n"
    and "length (edges g) + length cs \<le> uint_max" and "\<forall>e \<in> set (edges g). edge_of n e"
  shows "\<exists>g'. add_constraint_edges n cs g = Some g' \<and> built g' \<and> length (nodes g') = Suc n \<and>
     (\<forall>e \<in> set (edges g'). edge_of n e) \<and>
     edge_data ` set (edges g') = edge_data ` set (edges g) \<union> {c \<in> set cs. edge_ends n c \<noteq> None}"
  using assms
proof (induction cs arbitrary: g)
  case (Cons c cs)
  show ?case
  proof (cases "edge_ends n c")
    case None
    then show ?thesis using Cons.IH [of g] Cons.prems by (auto simp: add_constraint_edge_eq)
  next
    case (Some p)
    obtain s t where p: "p = (s, t)" by fastforce
    have "s < length (nodes g)" "t < length (nodes g)"
      using Some p Cons.prems(2,3) by (cases c; auto)+
    then obtain i g' e where g': "add_edge g s t c = Some (i, g')" "edges g' = edges g @ [e]"
      "source e = s" "target e = t" "edge_data e = c" "length (nodes g') = length (nodes g)"
      by (rule add_edge_total)
    have "built g'" using built.edge [OF Cons.prems(1) _ g'(1)] Cons.prems(4) by simp
    moreover have "\<forall>e \<in> set (edges g'). edge_of n e"
      using Cons.prems(5) g' Some p by (auto simp: edge_of_def)
    ultimately obtain g'' where "add_constraint_edges n cs g' = Some g''" "built g''"
      "length (nodes g'') = Suc n" "\<forall>e \<in> set (edges g''). edge_of n e"
      "edge_data ` set (edges g'') = edge_data ` set (edges g') \<union> {c \<in> set cs. edge_ends n c \<noteq> None}"
      using Cons.IH [of g'] Cons.prems g' by auto
    with g' Some p show ?thesis by (auto simp: add_constraint_edge_eq)
  qed
qed simp

lemma add_nodes_ok:
  "built g \<Longrightarrow> built (add_nodes n g) \<and> length (nodes (add_nodes n g)) = n + length (nodes g) \<and>
     edges (add_nodes n g) = edges g"
proof (induction n arbitrary: g)
  case (Suc n)
  from Suc.IH [OF built.node [OF Suc.prems, of "()"]] show ?case by (simp add: add_node_def Let_def)
qed simp

text \<open>The table is small enough for its indices to be machine integers.\<close>

definition fits :: "('vo, 'so) region_var_bindings \<Rightarrow> bool" where
  "fits st \<longleftrightarrow> length (constraints st) \<le> uint_max \<and> num_vars st \<le> uint_max"

definition graph_of :: "('vo, 'so) region_var_bindings \<Rightarrow> region_graph \<Rightarrow> bool" where
  "graph_of st g \<longleftrightarrow> built g \<and> length (nodes g) = Suc (num_vars st) \<and>
     (\<forall>e \<in> set (edges g). edge_of (num_vars st) e) \<and>
     edge_data ` set (edges g) = {c \<in> constraint_set st. edge_ends (num_vars st) c \<noteq> None}"

lemma construct_graph_ok:
  assumes "\<forall>c \<in> constraint_set st. constraint_ok (num_vars st) c" "fits st"
  obtains g where "construct_graph st = Some g" "graph_of st g"
proof -
  let ?n = "num_vars st"
  let ?g0 = "add_nodes ?n (graph_with_capacity (?n + 1) (length (constraints st))) :: region_graph"
  let ?g1 = "snd (add_node ?g0 ())"
  have new: "graph_with_capacity a b = graph_new" for a b
    by (simp add: graph_with_capacity_def graph_new_def)
  have g0: "built ?g0" "length (nodes ?g0) = ?n" "edges ?g0 = []"
    using add_nodes_ok [OF built.new, of ?n] by (simp_all add: new graph_new_def)
  have g1: "built ?g1" "length (nodes ?g1) = Suc ?n" "edges ?g1 = []"
    using built.node [OF g0(1)] g0(2,3) by (simp_all add: add_node_def Let_def)
  have "fst (add_node ?g0 ()) = ?n" using g0(2) by (simp add: add_node_def next_node_index_def Let_def)
  then have "construct_graph st = add_constraint_edges ?n (map fst (constraints st)) ?g1"
    by (simp add: construct_graph_def Let_def split_beta)
  moreover have "\<exists>g'. add_constraint_edges ?n (map fst (constraints st)) ?g1 = Some g' \<and> built g' \<and>
     length (nodes g') = Suc ?n \<and> (\<forall>e \<in> set (edges g'). edge_of ?n e) \<and>
     edge_data ` set (edges g') = edge_data ` set (edges ?g1) \<union> {c \<in> constraint_set st. edge_ends ?n c \<noteq> None}"
    by (rule add_constraint_edges_ok [OF g1(1) _ g1(2)])
      (use g1(3) assms in \<open>simp_all add: fits_def\<close>)
  ultimately show ?thesis using that g1(3) unfolding graph_of_def by auto
qed

section \<open>The edges at a variable\<close>

fun next_vars :: "('vo, 'so) region_var_bindings \<Rightarrow> direction \<Rightarrow> region_vid \<Rightarrow> region_vid set" where
  "next_vars st Outgoing v = {b. ConstrainVarSubVar v b \<in> constraint_set st}"
| "next_vars st Incoming v = {a. ConstrainVarSubVar a v \<in> constraint_set st}"

fun bound_constraint :: "direction \<Rightarrow> region_vid \<Rightarrow> region \<Rightarrow> constraint" where
  "bound_constraint Outgoing v r = ConstrainVarSubReg v r"
| "bound_constraint Incoming v r = ConstrainRegSubVar r v"

definition bounds_at ::
  "('vo, 'so) region_var_bindings \<Rightarrow> direction \<Rightarrow> region_vid \<Rightarrow> 'so region_and_origin set" where
  "bounds_at st dir v =
     {\<lparr>ro_region = r, ro_origin = o1\<rparr> | r o1.
        map_of (constraints st) (bound_constraint dir v r) = Some o1}"

text \<open>What \<^const>\<open>process_edge\<close> does to a state, as sets.\<close>

definition walked ::
  "'so walk_state \<Rightarrow> region_vid set \<Rightarrow> 'so region_and_origin set \<Rightarrow> 'so walk_state \<Rightarrow> bool" where
  "walked s vs rs s' \<longleftrightarrow>
     walk_set s' = walk_set s \<union> vs \<and> set (walk_result s') = set (walk_result s) \<union> rs \<and>
     walk_dup s' = walk_dup s \<and>
     (\<exists>ws. walk_stack s' = walk_stack s @ ws \<and> distinct ws \<and> set ws = vs - walk_set s)"

lemma walked_refl: "walked s {} {} s"
  by (simp add: walked_def)

lemma walked_trans:
  assumes "walked s vs rs s'" "walked s' vs' rs' s''"
  shows "walked s (vs \<union> vs') (rs \<union> rs') s''"
proof -
  obtain ws where "walk_stack s' = walk_stack s @ ws" "distinct ws" "set ws = vs - walk_set s"
    using assms(1) by (auto simp: walked_def)
  moreover obtain ws' where "walk_stack s'' = walk_stack s' @ ws'" "distinct ws'" "set ws' = vs' - walk_set s'"
    using assms(2) by (auto simp: walked_def)
  moreover have "walk_set s' = walk_set s \<union> vs" using assms(1) by (simp add: walked_def)
  ultimately have "walk_stack s'' = walk_stack s @ ws @ ws' \<and> distinct (ws @ ws') \<and>
    set (ws @ ws') = (vs \<union> vs') - walk_set s" by auto
  with assms show ?thesis unfolding walked_def by auto
qed

fun edge_vars :: "region_vid \<Rightarrow> constraint \<Rightarrow> region_vid set" where
  "edge_vars v (ConstrainVarSubVar a b) = {if a = v then b else a}"
| "edge_vars v _ = {}"

fun edge_bounds :: "(constraint \<times> 'so) list \<Rightarrow> constraint \<Rightarrow> 'so region_and_origin set" where
  "edge_bounds tab (ConstrainRegSubVar r v) =
     {\<lparr>ro_region = r, ro_origin = o1\<rparr> | o1. map_of tab (ConstrainRegSubVar r v) = Some o1}"
| "edge_bounds tab (ConstrainVarSubReg v r) =
     {\<lparr>ro_region = r, ro_origin = o1\<rparr> | o1. map_of tab (ConstrainVarSubReg v r) = Some o1}"
| "edge_bounds tab _ = {}"

lemma process_edge_ok:
  assumes "map_of tab (edge_data e) \<noteq> None"
  obtains s' where "process_edge tab v i e (Some s) = (True, Some s')"
    "walked s (edge_vars v (edge_data e)) (edge_bounds tab (edge_data e)) s'"
proof (cases "edge_data e")
  case (ConstrainVarSubVar a b)
  define opp where "opp = (if a = v then b else a)"
  have e: "process_edge tab v i e (Some s) = (True, Some (if opp \<in> walk_set s then s
      else s\<lparr>walk_set := insert opp (walk_set s), walk_stack := walk_stack s @ [opp]\<rparr>))"
    "edge_vars v (edge_data e) = {opp}" "edge_bounds tab (edge_data e) = {}"
    by (simp_all add: process_edge_def Let_def ConstrainVarSubVar opp_def)
  show ?thesis
    by (rule that [OF e(1)]) (cases "opp \<in> walk_set s", auto simp: e walked_def)
qed (use assms that in \<open>auto simp: process_edge_def walked_def\<close>)

lemma visit_process_edges:
  assumes "\<forall>i \<in> set is. map_of tab (edge_data (edges g ! i)) \<noteq> None"
  shows "\<exists>s'. visit_edges g (process_edge tab v) is (Some s) = (True, Some s') \<and>
     walked s (\<Union>i \<in> set is. edge_vars v (edge_data (edges g ! i)))
       (\<Union>i \<in> set is. edge_bounds tab (edge_data (edges g ! i))) s'"
  using assms
proof (induction "is" arbitrary: s)
  case Nil
  show ?case by (simp add: walked_refl)
next
  case (Cons i "is")
  obtain s1 where s1: "process_edge tab v i (edges g ! i) (Some s) = (True, Some s1)"
    "walked s (edge_vars v (edge_data (edges g ! i))) (edge_bounds tab (edge_data (edges g ! i))) s1"
    using Cons.prems by (auto intro: process_edge_ok [of tab "edges g ! i" v i s])
  obtain s' where "visit_edges g (process_edge tab v) is (Some s1) = (True, Some s')"
    "walked s1 (\<Union>i \<in> set is. edge_vars v (edge_data (edges g ! i)))
       (\<Union>i \<in> set is. edge_bounds tab (edge_data (edges g ! i))) s'"
    using Cons.IH [of s1] Cons.prems by auto
  with s1 walked_trans [OF s1(2)] show ?case by auto
qed

fun at_end :: "direction \<Rightarrow> region_vid \<Rightarrow> constraint \<Rightarrow> bool" where
  "at_end Outgoing v (ConstrainVarSubVar a b) \<longleftrightarrow> a = v"
| "at_end Incoming v (ConstrainVarSubVar a b) \<longleftrightarrow> b = v"
| "at_end Outgoing v (ConstrainVarSubReg a r) \<longleftrightarrow> a = v"
| "at_end Incoming v (ConstrainRegSubVar r b) \<longleftrightarrow> b = v"
| "at_end _ _ _ \<longleftrightarrow> False"

lemma edge_of_at_end: "edge_of n e \<Longrightarrow> v < n \<Longrightarrow> endpoint dir e = v \<longleftrightarrow> at_end dir v (edge_data e)"
  by (cases dir; cases "edge_data e") (auto simp: edge_of_def)

lemma at_end_edge: "at_end dir v c \<Longrightarrow> edge_ends n c \<noteq> None"
  by (cases c) auto

lemma graph_of_adj:
  assumes "graph_of st g" "v < num_vars st"
  shows "(\<lambda>i. edge_data (edges g ! i)) ` set (adj g dir v) = {c \<in> constraint_set st. at_end dir v c}"
proof -
  have "(\<lambda>i. edge_data (edges g ! i)) ` set (adj g dir v) =
      edge_data ` {e \<in> set (edges g). endpoint dir e = v}"
    unfolding set_adj by (force simp: in_set_conv_nth)
  also have "\<dots> = {c \<in> edge_data ` set (edges g). at_end dir v c}"
    using edge_of_at_end [OF _ assms(2)] assms(1) unfolding graph_of_def by blast
  also have "edge_data ` set (edges g) = {c \<in> constraint_set st. edge_ends (num_vars st) c \<noteq> None}"
    using assms(1) by (simp add: graph_of_def)
  also have "{c \<in> {c \<in> constraint_set st. edge_ends (num_vars st) c \<noteq> None}. at_end dir v c} =
      {c \<in> constraint_set st. at_end dir v c}"
    using at_end_edge [of dir v _ "num_vars st"] by blast
  finally show ?thesis .
qed

definition var_edge :: "direction \<Rightarrow> region_vid \<Rightarrow> region_vid \<Rightarrow> constraint" where
  "var_edge dir v x = (case dir of Outgoing \<Rightarrow> ConstrainVarSubVar v x | Incoming \<Rightarrow> ConstrainVarSubVar x v)"

lemma at_end_edge_vars: "at_end dir v c \<and> x \<in> edge_vars v c \<longleftrightarrow> c = var_edge dir v x"
  by (cases dir; cases c) (auto simp: var_edge_def)

lemma next_vars_eq: "next_vars st dir v = {x. var_edge dir v x \<in> constraint_set st}"
  by (cases dir) (simp_all add: var_edge_def)

lemma at_end_vars: "(\<Union>c \<in> {c \<in> constraint_set st. at_end dir v c}. edge_vars v c) = next_vars st dir v"
proof -
  have "x \<in> (\<Union>c \<in> {c \<in> constraint_set st. at_end dir v c}. edge_vars v c) \<longleftrightarrow>
      (\<exists>c \<in> constraint_set st. at_end dir v c \<and> x \<in> edge_vars v c)" for x by blast
  then show ?thesis unfolding next_vars_eq at_end_edge_vars by blast
qed

lemma at_end_bounds:
  "(\<Union>c \<in> {c \<in> constraint_set st. at_end dir v c}. edge_bounds (constraints st) c) = bounds_at st dir v"
proof (intro set_eqI iffI)
  fix x assume "x \<in> bounds_at st dir v"
  then obtain r o1 where x: "x = \<lparr>ro_region = r, ro_origin = o1\<rparr>"
    "map_of (constraints st) (bound_constraint dir v r) = Some o1" by (auto simp: bounds_at_def)
  then have "bound_constraint dir v r \<in> constraint_set st" by (force dest: map_of_SomeD)
  moreover have "at_end dir v (bound_constraint dir v r)" by (cases dir) auto
  moreover have "x \<in> edge_bounds (constraints st) (bound_constraint dir v r)" using x by (cases dir) auto
  ultimately show "x \<in> (\<Union>c \<in> {c \<in> constraint_set st. at_end dir v c}. edge_bounds (constraints st) c)"
    by blast
next
  fix x assume "x \<in> (\<Union>c \<in> {c \<in> constraint_set st. at_end dir v c}. edge_bounds (constraints st) c)"
  then obtain c where "at_end dir v c" "x \<in> edge_bounds (constraints st) c" by blast
  then show "x \<in> bounds_at st dir v"
    by (cases dir; cases c) (auto simp: bounds_at_def)
qed

lemma process_edges_ok:
  assumes g: "graph_of st g" and v: "v < num_vars st"
  obtains s' where "process_edges (constraints st) s g v dir = Some s'"
    "walked s (next_vars st dir v) (bounds_at st dir v) s'"
proof -
  let ?tab = "constraints st" and ?d = "\<lambda>i. edge_data (edges g ! i)"
  note adj = graph_of_adj [OF g v, of dir]
  have "map_of ?tab (?d i) \<noteq> None" if "i \<in> set (adj g dir v)" for i
  proof -
    have "?d i \<in> constraint_set st" using adj that by blast
    then show ?thesis by (simp add: map_of_eq_None_iff)
  qed
  then obtain s' where s': "visit_edges g (process_edge ?tab v) (adj g dir v) (Some s) = (True, Some s')"
    "walked s (\<Union>i \<in> set (adj g dir v). edge_vars v (?d i)) (\<Union>i \<in> set (adj g dir v). edge_bounds ?tab (?d i)) s'"
    using visit_process_edges [of "adj g dir v" ?tab g v s] by blast
  have "(\<Union>i \<in> set (adj g dir v). edge_vars v (?d i)) = next_vars st dir v"
    "(\<Union>i \<in> set (adj g dir v). edge_bounds ?tab (?d i)) = bounds_at st dir v"
    using at_end_vars [where st = st and dir = dir and v = v] at_end_bounds [of st dir v]
    unfolding adj [symmetric] by simp_all
  moreover have "process_edges ?tab s g v dir = Some s'"
  proof -
    have "graph_ok g" "v < length (nodes g)" using g v built_graph_ok by (auto simp: graph_of_def)
    from each_adjacent_edge_ok [OF this, of dir "process_edge ?tab v" "Some s"] s'(1) show ?thesis
      by (simp add: process_edges_def)
  qed
  ultimately show ?thesis using that s'(2) by simp
qed

section \<open>The walk\<close>

text \<open>
  From each variable the walk goes on in the direction the variable takes its value from;
  only at the variable it starts with it first goes in the direction asked for.
\<close>

definition class_dir :: "var_data list \<Rightarrow> region_vid \<Rightarrow> direction" where
  "class_dir vd v = class_direction (classification (vd ! v))"

definition walk_rel ::
  "('vo, 'so) region_var_bindings \<Rightarrow> var_data list \<Rightarrow> (region_vid \<times> region_vid) set" where
  "walk_rel st vd = {(u, v). v \<in> next_vars st (class_dir vd u) u}"

definition walk_reach ::
  "('vo, 'so) region_var_bindings \<Rightarrow> var_data list \<Rightarrow> region_vid \<Rightarrow> direction \<Rightarrow> region_vid set" where
  "walk_reach st vd orig dir = (walk_rel st vd)\<^sup>* `` insert orig (next_vars st dir orig)"

definition walk_bounds ::
  "('vo, 'so) region_var_bindings \<Rightarrow> var_data list \<Rightarrow> region_vid \<Rightarrow> direction \<Rightarrow> region_vid set
     \<Rightarrow> 'so region_and_origin set" where
  "walk_bounds st vd orig dir V = bounds_at st dir orig \<union> (\<Union>u \<in> V. bounds_at st (class_dir vd u) u)"

definition marked :: "region_vid \<Rightarrow> region_vid set \<Rightarrow> uint list \<Rightarrow> uint list" where
  "marked orig V dv = map (\<lambda>u. if u \<in> V \<and> dv ! u = uint_max then orig else dv ! u) [0..<length dv]"

definition clash :: "region_vid \<Rightarrow> region_vid set \<Rightarrow> uint list \<Rightarrow> bool" where
  "clash orig V dv \<longleftrightarrow> (\<exists>u \<in> V. dv ! u \<noteq> uint_max \<and> dv ! u \<noteq> orig)"

text \<open>The state of the walk from \<open>orig\<close>; \<open>V\<close> are the variables taken off the stack so far.\<close>

definition walk_inv ::
  "('vo, 'so) region_var_bindings \<Rightarrow> var_data list \<Rightarrow> region_vid \<Rightarrow> direction \<Rightarrow> uint list
     \<Rightarrow> 'so walk_state \<Rightarrow> uint list \<Rightarrow> bool" where
  "walk_inv st vd orig dir dv0 s dv \<longleftrightarrow>
     (let V = walk_set s - set (walk_stack s)
      in distinct (walk_stack s) \<and> set (walk_stack s) \<subseteq> walk_set s \<and>
         walk_set s \<subseteq> {..<num_vars st} \<and>
         insert orig (next_vars st dir orig) \<subseteq> walk_set s \<and> walk_set s \<subseteq> walk_reach st vd orig dir \<and>
         (\<forall>u \<in> V. next_vars st (class_dir vd u) u \<subseteq> walk_set s) \<and>
         set (walk_result s) = walk_bounds st vd orig dir V \<and>
         walk_dup s = clash orig V dv0 \<and> dv = marked orig V dv0)"

lemma walk_reach_next:
  "u \<in> walk_reach st vd orig dir \<Longrightarrow> next_vars st (class_dir vd u) u \<subseteq> walk_reach st vd orig dir"
proof
  fix v assume u: "u \<in> walk_reach st vd orig dir" and "v \<in> next_vars st (class_dir vd u) u"
  then have "(u, v) \<in> walk_rel st vd" by (simp add: walk_rel_def)
  with u show "v \<in> walk_reach st vd orig dir"
    unfolding walk_reach_def by (blast intro: rtrancl_into_rtrancl)
qed

lemma walk_reach_least:
  assumes "insert orig (next_vars st dir orig) \<subseteq> S" "\<forall>u \<in> S. next_vars st (class_dir vd u) u \<subseteq> S"
  shows "walk_reach st vd orig dir \<subseteq> S"
proof
  fix v assume "v \<in> walk_reach st vd orig dir"
  then obtain u where "u \<in> S" "(u, v) \<in> (walk_rel st vd)\<^sup>*" using assms(1) by (auto simp: walk_reach_def)
  from this(2,1) show "v \<in> S"
    by induction (use assms(2) in \<open>auto simp: walk_rel_def\<close>)
qed

lemma marked_insert:
  assumes "u < length dv" "u \<notin> V"
  shows "marked orig (insert u V) dv =
    (if dv ! u = uint_max then (marked orig V dv)[u := orig] else marked orig V dv)"
  using assms by (auto intro!: nth_equalityI simp: marked_def nth_list_update)

lemma marked_nth: "u < length dv \<Longrightarrow> u \<notin> V \<Longrightarrow> marked orig V dv ! u = dv ! u"
  by (simp add: marked_def)

lemma next_vars_bound:
  assumes "\<forall>c \<in> constraint_set st. constraint_ok (num_vars st) c"
  shows "next_vars st dir v \<subseteq> {..<num_vars st}"
proof
  fix x assume "x \<in> next_vars st dir v"
  then have "constraint_ok (num_vars st) (var_edge dir v x)" using assms unfolding next_vars_eq by blast
  then show "x \<in> {..<num_vars st}" by (cases dir) (auto simp: var_edge_def)
qed

lemma walk_step_ok:
  assumes g: "graph_of st g" and ok: "\<forall>c \<in> constraint_set st. constraint_ok (num_vars st) c"
    and len: "length vd = num_vars st" "length dv0 = num_vars st"
    and inv: "walk_inv st vd orig dir dv0 s dv" and pop: "walk_stack s = rest @ [v]"
  obtains s' dv' where "walk_step (constraints st) g vd orig v (s\<lparr>walk_stack := rest\<rparr>) dv = Some (s', dv')"
    "walk_inv st vd orig dir dv0 s' dv'"
    "2 * (num_vars st - card (walk_set s')) + length (walk_stack s')
       < 2 * (num_vars st - card (walk_set s)) + length (walk_stack s)"
proof -
  let ?n = "num_vars st" and ?V = "walk_set s - set (walk_stack s)" and ?next = "next_vars st (class_dir vd v) v"
  have I: "distinct (walk_stack s)" "set (walk_stack s) \<subseteq> walk_set s" "walk_set s \<subseteq> {..<?n}"
    "insert orig (next_vars st dir orig) \<subseteq> walk_set s" "walk_set s \<subseteq> walk_reach st vd orig dir"
    "\<forall>u \<in> ?V. next_vars st (class_dir vd u) u \<subseteq> walk_set s"
    "set (walk_result s) = walk_bounds st vd orig dir ?V"
    "walk_dup s = clash orig ?V dv0" "dv = marked orig ?V dv0"
    using inv unfolding walk_inv_def Let_def by blast+
  have v: "v \<in> walk_set s" "v < ?n" "v \<notin> ?V" "v \<notin> set rest" using I(1-3) pop by auto
  have dv: "dv ! v = dv0 ! v" "length dv = ?n" using v len I(9) by (auto simp: marked_nth marked_def)
  define s1 where "s1 = (s\<lparr>walk_stack := rest, walk_dup := clash orig (insert v ?V) dv0\<rparr>)"
  obtain s' where s': "process_edges (constraints st) s1 g v (class_dir vd v) = Some s'"
    "walked s1 ?next (bounds_at st (class_dir vd v) v) s'"
    by (rule process_edges_ok [OF g v(2)])
  obtain ws where ws: "walk_stack s' = rest @ ws" "distinct ws" "set ws = ?next - walk_set s"
    and S': "walk_set s' = walk_set s \<union> ?next" "walk_dup s' = clash orig (insert v ?V) dv0"
      "set (walk_result s') = set (walk_result s) \<union> bounds_at st (class_dir vd v) v"
    using s'(2) unfolding walked_def s1_def by auto
  have V': "walk_set s' - set (walk_stack s') = insert v ?V"
    unfolding S' ws using ws(3) v pop by auto
  have "walk_step (constraints st) g vd orig v (s\<lparr>walk_stack := rest\<rparr>) dv =
      Some (s', marked orig (insert v ?V) dv0)"
  proof -
    have s1: "s1 = (if dv ! v = uint_max \<or> dv ! v = orig then s\<lparr>walk_stack := rest\<rparr>
        else s\<lparr>walk_stack := rest, walk_dup := True\<rparr>)"
      unfolding s1_def using I(8) dv(1) by (cases s) (auto simp: clash_def)
    have "vec_get vd v = Some (vd ! v)" "vec_get dv v = Some (dv ! v)"
      using v(2) len dv(2) by (simp_all add: vec_simps)
    with s'(1) s1 dv(1) I(9) marked_insert [of v dv0 ?V orig] v(2,3) len(2) show ?thesis
      by (cases "dv0 ! v = uint_max"; cases "dv0 ! v = orig")
        (simp_all add: walk_step_def class_dir_def)
  qed
  moreover have "walk_inv st vd orig dir dv0 s' (marked orig (insert v ?V) dv0)"
    unfolding walk_inv_def V' Let_def
  proof (intro conjI)
    show "distinct (walk_stack s')" using ws I(1,2) pop by auto
    show "set (walk_stack s') \<subseteq> walk_set s'" using ws S' I(2) pop by auto
    show "walk_set s' \<subseteq> {..<?n}" using S' I(3) next_vars_bound [OF ok] by auto
    show "insert orig (next_vars st dir orig) \<subseteq> walk_set s'" using S' I(4) by auto
    show "walk_set s' \<subseteq> walk_reach st vd orig dir"
      using S' I(5) v(1) walk_reach_next [of v st vd orig dir] by auto
    show "\<forall>u \<in> insert v ?V. next_vars st (class_dir vd u) u \<subseteq> walk_set s'" using S' I(6) by auto
    show "set (walk_result s') = walk_bounds st vd orig dir (insert v ?V)"
      using S' I(7) by (auto simp: walk_bounds_def)
  qed (simp_all add: S')
  moreover have "2 * (?n - card (walk_set s')) + length (walk_stack s')
       < 2 * (?n - card (walk_set s)) + length (walk_stack s)"
  proof -
    have fin: "finite (walk_set s)" using I(3) finite_subset by blast
    have "walk_set s' = walk_set s \<union> set ws" "walk_set s \<inter> set ws = {}" using S' ws(3) by auto
    then have card: "card (walk_set s') = card (walk_set s) + length ws"
      using card_Un_disjoint [OF fin, of "set ws"] ws(2) by (simp add: distinct_card)
    have "walk_set s' \<subseteq> {..<?n}" using S' I(3) next_vars_bound [OF ok] by auto
    then have "card (walk_set s') \<le> ?n" using card_mono [of "{..<?n}" "walk_set s'"] by simp
    with card ws(1) pop show ?thesis by simp
  qed
  ultimately show ?thesis by (rule that)
qed

lemma walk_loop_ok:
  assumes g: "graph_of st g" and ok: "\<forall>c \<in> constraint_set st. constraint_ok (num_vars st) c"
    and len: "length vd = num_vars st" "length dv0 = num_vars st"
    and "walk_inv st vd orig dir dv0 s dv"
  shows "\<exists>s' dv'. walk_loop (constraints st) g vd orig s dv = Some (s', dv') \<and>
     walk_inv st vd orig dir dv0 s' dv' \<and> walk_stack s' = []"
  using assms(5)
proof (induction "2 * (num_vars st - card (walk_set s)) + length (walk_stack s)" arbitrary: s dv
    rule: less_induct)
  case less
  show ?case
  proof (cases "walk_stack s" rule: rev_cases)
    case Nil
    then show ?thesis using less.prems by (subst walk_loop.simps) auto
  next
    case (snoc rest v)
    obtain s' dv' where 1: "walk_step (constraints st) g vd orig v (s\<lparr>walk_stack := rest\<rparr>) dv = Some (s', dv')"
      "walk_inv st vd orig dir dv0 s' dv'"
      "2 * (num_vars st - card (walk_set s')) + length (walk_stack s')
         < 2 * (num_vars st - card (walk_set s)) + length (walk_stack s)"
      by (rule walk_step_ok [OF g ok len less.prems snoc])
    from less.hyps [OF 1(3,2)] 1(1) snoc show ?thesis by (subst walk_loop.simps) simp
  qed
qed

lemma collect_concrete_regions_ok:
  assumes g: "graph_of st g" and ok: "\<forall>c \<in> constraint_set st. constraint_ok (num_vars st) c"
    and len: "length vd = num_vars st" "length dv = num_vars st" and o: "orig < num_vars st"
  obtains rs where
    "collect_concrete_regions (constraints st) g vd orig dir dv =
       Some (rs, clash orig (walk_reach st vd orig dir) dv, marked orig (walk_reach st vd orig dir) dv)"
    "set rs = walk_bounds st vd orig dir (walk_reach st vd orig dir)"
proof -
  let ?s0 = "\<lparr>walk_set = {orig}, walk_stack = [orig], walk_result = [], walk_dup = False\<rparr>"
  obtain s1 where s1: "process_edges (constraints st) ?s0 g orig dir = Some s1"
    "walked ?s0 (next_vars st dir orig) (bounds_at st dir orig) s1"
    by (rule process_edges_ok [OF g o])
  have "walk_inv st vd orig dir dv s1 dv"
  proof -
    have V: "walk_set s1 - set (walk_stack s1) = {}" using s1(2) by (auto simp: walked_def)
    have "insert orig (next_vars st dir orig) \<subseteq> walk_reach st vd orig dir" by (auto simp: walk_reach_def)
    moreover have "marked orig {} dv = dv" by (simp add: marked_def map_nth)
    ultimately show ?thesis using s1(2) next_vars_bound [OF ok, of dir orig] o
      unfolding walk_inv_def V Let_def by (auto simp: walked_def walk_bounds_def clash_def)
  qed
  from walk_loop_ok [OF g ok len this] obtain s' dv' where
    s': "walk_loop (constraints st) g vd orig s1 dv = Some (s', dv')"
    "walk_inv st vd orig dir dv s' dv'" "walk_stack s' = []" by blast
  have "walk_set s' = walk_reach st vd orig dir"
    using s'(2,3) walk_reach_least [of orig st dir "walk_set s'" vd] unfolding walk_inv_def Let_def by auto
  with s' s1(1) that show ?thesis unfolding walk_inv_def Let_def collect_concrete_regions_def by simp
qed

lemma walk_reach_bound:
  assumes "\<forall>c \<in> constraint_set st. constraint_ok (num_vars st) c" "orig < num_vars st"
  shows "walk_reach st vd orig dir \<subseteq> {..<num_vars st}"
  using next_vars_bound [OF assms(1)] assms(2) by (intro walk_reach_least) auto

lemma clash_fresh:
  assumes "V \<subseteq> {..<n}" "W \<subseteq> {..<n}"
  shows "\<not> clash orig V (replicate n uint_max)" "\<not> clash orig W (marked orig V (replicate n uint_max))"
  using assms by (auto simp: clash_def marked_def subset_eq)

section \<open>Reported errors\<close>

lemma find_pair_Some: "find_pair bad ps = Some (Some p) \<Longrightarrow> p \<in> set ps \<and> bad p = Some True"
  by (induction ps) (auto split: bind_splits if_splits)

lemma bind_find_pair:
  assumes "Option.bind (find_pair bad ps) (\<lambda>f. case f of Some (l, u) \<Rightarrow> Some (h l u) | None \<Rightarrow> None) = Some r"
  obtains l u where "(l, u) \<in> set ps" "bad (l, u) = Some True" "r = h l u"
proof -
  obtain l u where "find_pair bad ps = Some (Some (l, u))" "r = h l u"
    using assms by (auto split: bind_splits option.splits)
  with find_pair_Some [OF this(1)] that show ?thesis by blast
qed

text \<open>
  A reported error names constraints that are in the table, with their origins, and two
  regions that really are in conflict.
\<close>

definition recorded :: "('vo, 'so) region_var_bindings \<Rightarrow> region \<Rightarrow> 'so \<Rightarrow> bool" where
  "recorded st r o1 \<longleftrightarrow>
     (\<exists>v. map_of (constraints st) (ConstrainRegSubVar r v) = Some o1 \<or>
          map_of (constraints st) (ConstrainVarSubReg v r) = Some o1)"

fun genuine ::
  "region_maps \<Rightarrow> ('vo, 'so) region_var_bindings \<Rightarrow> ('vo, 'so, 'tt) region_resolution_error \<Rightarrow> bool" where
  "genuine rm st (ConcreteFailure o1 a b) \<longleftrightarrow>
     map_of (constraints st) (ConstrainRegSubReg a b) = Some o1 \<and> is_subregion_of rm a b = Some False"
| "genuine rm st (SubSupConflict vo o1 r1 o2 r2) \<longleftrightarrow>
     vo \<in> set (var_origins st) \<and> recorded st r1 o1 \<and> recorded st r2 o2 \<and>
     is_subregion_of rm r1 r2 = Some False"
| "genuine rm st (SupSupConflict vo o1 r1 o2 r2) \<longleftrightarrow>
     vo \<in> set (var_origins st) \<and> recorded st r1 o1 \<and> recorded st r2 o2 \<and>
     (\<exists>e. glb_concrete_regions rm r1 r2 = Some (Inl e))"
| "genuine rm st (ProcessedErrors _ _ _) \<longleftrightarrow> False"

lemma walk_bounds_recorded: "b \<in> walk_bounds st vd orig dir V \<Longrightarrow> recorded st (ro_region b) (ro_origin b)"
proof -
  have "recorded st (ro_region b) (ro_origin b)" if "b \<in> bounds_at st d v" for d v
    using that by (cases d) (auto simp: bounds_at_def recorded_def)
  then show "b \<in> walk_bounds st vd orig dir V \<Longrightarrow> ?thesis" by (auto simp: walk_bounds_def)
qed

text \<open>What collecting the error of one variable can do to the list of errors.\<close>

definition node_outcome ::
  "region_maps \<Rightarrow> ('vo, 'so) region_var_bindings \<Rightarrow> uint list
     \<Rightarrow> ('vo, 'so, 'tt) region_resolution_error list \<Rightarrow> ('vo, 'so, 'tt) region_resolution_error list
     \<Rightarrow> uint list \<Rightarrow> bool" where
  "node_outcome rm st dv errors errors' dv' \<longleftrightarrow> length dv' = num_vars st \<and>
     ((\<exists>x. errors' = errors @ [x] \<and> genuine rm st x) \<or>
      errors' = errors \<and> dv \<noteq> replicate (num_vars st) uint_max)"

lemma length_marked [simp]: "length (marked orig V dv) = length dv"
  by (simp add: marked_def)

lemma expanding_outcome:
  assumes g: "graph_of st g" and ok: "\<forall>c \<in> constraint_set st. constraint_ok (num_vars st) c"
    and len: "length vd = num_vars st" "length dv = num_vars st" and v: "v < num_vars st"
    and res: "collect_error_for_expanding_node rm st g vd dv v errors = Some (errors', dv')"
  shows "node_outcome rm st dv errors errors' dv'"
proof -
  let ?R = "walk_reach st vd v"
  obtain ls where ls: "collect_concrete_regions (constraints st) g vd v Incoming dv =
       Some (ls, clash v (?R Incoming) dv, marked v (?R Incoming) dv)"
    "set ls = walk_bounds st vd v Incoming (?R Incoming)"
    by (rule collect_concrete_regions_ok [OF g ok len v])
  let ?dv1 = "marked v (?R Incoming) dv"
  have len1: "length ?dv1 = num_vars st" using len by simp
  obtain us where us: "collect_concrete_regions (constraints st) g vd v Outgoing ?dv1 =
       Some (us, clash v (?R Outgoing) ?dv1, marked v (?R Outgoing) ?dv1)"
    "set us = walk_bounds st vd v Outgoing (?R Outgoing)"
    by (rule collect_concrete_regions_ok [OF g ok len(1) len1 v])
  show ?thesis
  proof (cases "clash v (?R Incoming) dv \<or> clash v (?R Outgoing) ?dv1")
    case True
    then have "dv \<noteq> replicate (num_vars st) uint_max"
      using clash_fresh [OF walk_reach_bound [OF ok v, of vd Incoming] walk_reach_bound [OF ok v, of vd Outgoing]]
        clash_fresh(1) [OF walk_reach_bound [OF ok v, of vd Outgoing] subset_refl] by auto
    with True ls us res len show ?thesis
      by (auto simp: collect_error_for_expanding_node_def node_outcome_def)
  next
    case False
    let ?h = "\<lambda>l u. (errors @ [SubSupConflict (var_origins st ! v) (ro_origin l) (ro_region l)
         (ro_origin u) (ro_region u)], marked v (?R Outgoing) ?dv1)"
    let ?bad = "\<lambda>(l, u). map_option Not (is_subregion_of rm (ro_region l) (ro_region u))"
    have "Option.bind (find_pair ?bad (List.product (sort_by free_regions_first ls)
         (sort_by free_regions_first us)))
         (\<lambda>f. case f of Some (l, u) \<Rightarrow> Some (?h l u) | None \<Rightarrow> None) = Some (errors', dv')"
      using res False v by (simp add: collect_error_for_expanding_node_def ls us num_vars_def vec_get_def)
    then obtain l u where lu: "(l, u) \<in> set (List.product (sort_by free_regions_first ls)
         (sort_by free_regions_first us))" "?bad (l, u) = Some True" and e: "(errors', dv') = ?h l u"
      by (rule bind_find_pair)
    have "l \<in> set ls" "u \<in> set us" "is_subregion_of rm (ro_region l) (ro_region u) = Some False"
      using lu by auto
    with ls(2) us(2) have "genuine rm st (SubSupConflict (var_origins st ! v) (ro_origin l) (ro_region l)
         (ro_origin u) (ro_region u))"
      using walk_bounds_recorded v by (auto simp: num_vars_def)
    with e len show ?thesis by (simp add: node_outcome_def)
  qed
qed

lemma contracting_outcome:
  assumes g: "graph_of st g" and ok: "\<forall>c \<in> constraint_set st. constraint_ok (num_vars st) c"
    and len: "length vd = num_vars st" "length dv = num_vars st" and v: "v < num_vars st"
    and res: "collect_error_for_contracting_node rm st g vd dv v errors = Some (errors', dv')"
  shows "node_outcome rm st dv errors errors' dv'"
proof -
  let ?R = "walk_reach st vd v"
  obtain us where us: "collect_concrete_regions (constraints st) g vd v Outgoing dv =
       Some (us, clash v (?R Outgoing) dv, marked v (?R Outgoing) dv)"
    "set us = walk_bounds st vd v Outgoing (?R Outgoing)"
    by (rule collect_concrete_regions_ok [OF g ok len v])
  show ?thesis
  proof (cases "clash v (?R Outgoing) dv")
    case True
    then have "dv \<noteq> replicate (num_vars st) uint_max"
      using clash_fresh [OF walk_reach_bound [OF ok v, of vd Incoming] walk_reach_bound [OF ok v, of vd Outgoing]]
        clash_fresh(1) [OF walk_reach_bound [OF ok v, of vd Outgoing] subset_refl] by auto
    with True us res len show ?thesis
      by (auto simp: collect_error_for_contracting_node_def node_outcome_def)
  next
    case False
    let ?h = "\<lambda>l u. (errors @ [SupSupConflict (var_origins st ! v) (ro_origin l) (ro_region l)
         (ro_origin u) (ro_region u)], marked v (?R Outgoing) dv)"
    let ?bad = "\<lambda>(u1, u2). map_option (\<lambda>r. case r of Inr _ \<Rightarrow> False | Inl _ \<Rightarrow> True)
       (glb_concrete_regions rm (ro_region u1) (ro_region u2))"
    have "Option.bind (find_pair ?bad (List.product us us))
         (\<lambda>f. case f of Some (l, u) \<Rightarrow> Some (?h l u) | None \<Rightarrow> None) = Some (errors', dv')"
      using res False v by (simp add: collect_error_for_contracting_node_def us num_vars_def vec_get_def)
    then obtain l u where lu: "(l, u) \<in> set (List.product us us)" "?bad (l, u) = Some True"
      and e: "(errors', dv') = ?h l u"
      by (rule bind_find_pair)
    obtain z where z: "glb_concrete_regions rm (ro_region l) (ro_region u) = Some z"
      "case z of Inr _ \<Rightarrow> False | Inl _ \<Rightarrow> True" using lu(2) by auto
    have "l \<in> set us" "u \<in> set us" "\<exists>x. glb_concrete_regions rm (ro_region l) (ro_region u) = Some (Inl x)"
      using lu(1) z by (auto, cases z) auto
    with us(2) have "genuine rm st (SupSupConflict (var_origins st ! v) (ro_origin l) (ro_region l)
         (ro_origin u) (ro_region u))"
      using walk_bounds_recorded v by (auto simp: num_vars_def)
    with e len show ?thesis by (simp add: node_outcome_def)
  qed
qed

lemma concrete_errors_ok:
  assumes "concrete_errors rm tab cs errors = Some errors'"
  obtains xs where "errors' = errors @ xs"
    "\<And>x. x \<in> set xs \<Longrightarrow> \<exists>o1 a b. x = ConcreteFailure o1 a b \<and>
        map_of tab (ConstrainRegSubReg a b) = Some o1 \<and> is_subregion_of rm a b = Some False"
    "xs = [] \<Longrightarrow> \<forall>a b. ConstrainRegSubReg a b \<in> set cs \<longrightarrow> is_subregion_of rm a b = Some True"
proof -
  have "\<exists>xs. errors' = errors @ xs \<and>
     (\<forall>x \<in> set xs. \<exists>o1 a b. x = ConcreteFailure o1 a b \<and>
        map_of tab (ConstrainRegSubReg a b) = Some o1 \<and> is_subregion_of rm a b = Some False) \<and>
     (xs = [] \<longrightarrow> (\<forall>a b. ConstrainRegSubReg a b \<in> set cs \<longrightarrow> is_subregion_of rm a b = Some True))"
    using assms
  proof (induction cs arbitrary: errors)
    case (Cons c cs)
    show ?case
    proof (cases "\<exists>a b. c = ConstrainRegSubReg a b \<and> is_subregion_of rm a b \<noteq> Some True")
      case True
      then obtain a b o1 where c: "c = ConstrainRegSubReg a b" "is_subregion_of rm a b = Some False"
        "map_of tab c = Some o1" "concrete_errors rm tab cs (errors @ [ConcreteFailure o1 a b]) = Some errors'"
        using Cons.prems by (auto split: bind_splits if_splits)
      from Cons.IH [OF c(4)] obtain xs where xs: "errors' = (errors @ [ConcreteFailure o1 a b]) @ xs"
        "\<forall>x \<in> set xs. \<exists>o1 a b. x = ConcreteFailure o1 a b \<and>
          map_of tab (ConstrainRegSubReg a b) = Some o1 \<and> is_subregion_of rm a b = Some False" by blast
      show ?thesis
        by (rule exI [of _ "ConcreteFailure o1 a b # xs"]) (use xs c in auto)
    next
      case False
      then have "concrete_errors rm tab cs errors = Some errors'"
        using Cons.prems by (cases c) auto
      from Cons.IH [OF this] False show ?thesis by auto
    qed
  qed simp
  with that show ?thesis by blast
qed

definition og_ok :: "('vo, 'so) region_var_bindings \<Rightarrow> region_graph option \<Rightarrow> bool" where
  "og_ok st og \<longleftrightarrow> (\<forall>g. og = Some g \<longrightarrow> graph_of st g)"

lemma collect_conflicts_step:
  assumes ok: "\<forall>c \<in> constraint_set st. constraint_ok (num_vars st) c" "fits st"
    and len: "length vd = num_vars st" "length dv = num_vars st" and v: "v < num_vars st" and og: "og_ok st og"
    and res: "collect_conflicts rm st vd (v # vs) og dv errors = Some errors'"
  obtains (same) "data_value (vd ! v) \<noteq> ErrorValue" "collect_conflicts rm st vd vs og dv errors = Some errors'"
  | (err) g errors1 dv1 where "data_value (vd ! v) = ErrorValue" "graph_of st g"
      "node_outcome rm st dv errors errors1 dv1"
      "collect_conflicts rm st vd vs (Some g) dv1 errors1 = Some errors'"
proof (cases "data_value (vd ! v) = ErrorValue")
  case False
  then show ?thesis using same res len v by (auto simp: vec_simps split: var_value.splits)
next
  case True
  obtain g0 where g0: "construct_graph st = Some g0" "graph_of st g0" by (rule construct_graph_ok [OF ok])
  define g where "g = (case og of None \<Rightarrow> g0 | Some g \<Rightarrow> g)"
  have g: "graph_of st g" "(case og of None \<Rightarrow> construct_graph st | Some g \<Rightarrow> Some g) = Some g"
    using g0 og by (auto simp: g_def og_ok_def split: option.splits)
  let ?node = "case classification (vd ! v) of
      Expanding \<Rightarrow> collect_error_for_expanding_node rm st g vd dv v errors
    | Contracting \<Rightarrow> collect_error_for_contracting_node rm st g vd dv v errors"
  have "Option.bind ?node (\<lambda>(errors1, dv1). collect_conflicts rm st vd vs (Some g) dv1 errors1) = Some errors'"
    using res True g(2) len v by (simp add: vec_simps)
  then obtain errors1 dv1 where n: "?node = Some (errors1, dv1)"
    and rest: "collect_conflicts rm st vd vs (Some g) dv1 errors1 = Some errors'"
    by (auto simp: bind_eq_Some_conv)
  have "node_outcome rm st dv errors errors1 dv1"
    using n expanding_outcome [OF g(1) ok(1) len v] contracting_outcome [OF g(1) ok(1) len v]
    by (cases "classification (vd ! v)") auto
  from err [OF True g(1) this rest] show ?thesis .
qed

lemma collect_conflicts_genuine:
  assumes ok: "\<forall>c \<in> constraint_set st. constraint_ok (num_vars st) c" "fits st" "length vd = num_vars st"
  shows "length dv = num_vars st \<Longrightarrow> set vs \<subseteq> {..<num_vars st} \<Longrightarrow> og_ok st og \<Longrightarrow>
    collect_conflicts rm st vd vs og dv errors = Some errors' \<Longrightarrow>
    \<exists>xs. errors' = errors @ xs \<and> (\<forall>x \<in> set xs. genuine rm st x)"
proof (induction vs arbitrary: og dv errors)
  case (Cons v vs)
  have v: "v < num_vars st" "set vs \<subseteq> {..<num_vars st}" using Cons.prems(2) by auto
  show ?case
  proof (cases rule: collect_conflicts_step [OF ok Cons.prems(1) v(1) Cons.prems(3,4), consumes 0, case_names same err])
    case same
    from Cons.IH [OF Cons.prems(1) v(2) Cons.prems(3) same(2)] show ?thesis .
  next
    case (err g errors1 dv1)
    have "length dv1 = num_vars st" "og_ok st (Some g)" using err by (auto simp: node_outcome_def og_ok_def)
    from Cons.IH [OF this(1) v(2) this(2) err(4)] obtain xs where
      "errors' = errors1 @ xs" "\<forall>x \<in> set xs. genuine rm st x" by blast
    moreover obtain ys where "errors1 = errors @ ys" "\<forall>x \<in> set ys. genuine rm st x"
      using err(3) by (auto simp: node_outcome_def)
    ultimately show ?thesis by (intro exI [of _ "ys @ xs"]) auto
  qed
qed simp

lemma collect_conflicts_clean:
  assumes ok: "\<forall>c \<in> constraint_set st. constraint_ok (num_vars st) c" "fits st" "length vd = num_vars st"
  shows "set vs \<subseteq> {..<num_vars st} \<Longrightarrow>
    collect_conflicts rm st vd vs None (replicate (num_vars st) uint_max) errors = Some errors \<Longrightarrow>
    \<forall>v \<in> set vs. data_value (vd ! v) \<noteq> ErrorValue"
proof (induction vs)
  case (Cons v vs)
  let ?dv = "replicate (num_vars st) uint_max"
  have v: "v < num_vars st" "set vs \<subseteq> {..<num_vars st}" and dv: "length ?dv = num_vars st" and og: "og_ok st None"
    using Cons.prems(1) by (auto simp: og_ok_def)
  show ?case
  proof (cases rule: collect_conflicts_step [OF ok dv v(1) og Cons.prems(2), consumes 0, case_names same err])
    case same
    with Cons.IH [OF v(2) same(2)] show ?thesis by simp
  next
    case (err g errors1 dv1)
    have "length dv1 = num_vars st" "og_ok st (Some g)" using err by (auto simp: node_outcome_def og_ok_def)
    from collect_conflicts_genuine [OF ok this(1) v(2) this(2) err(4)] err(3) show ?thesis
      by (auto simp: node_outcome_def)
  qed
qed simp

section \<open>The result of region inference\<close>

lemma those_map_total: "(\<And>x. x \<in> set xs \<Longrightarrow> f x = Some (h x)) \<Longrightarrow> those (map f xs) = Some (map h xs)"
  by (induction xs) auto

text \<open>The phases of a run that returned.\<close>

lemma resolve_regions_run:
  assumes s: "solvable rm st" and res: "resolve_regions rm st = Some (errors, st')"
  obtains vd0 vd errors1 where "expand_inv rm st vd0" "\<forall>c \<in> constraint_set st. expanded rm c vd0"
    "contract_inv rm st vd0 vd" "\<not> erroneous vd \<longrightarrow> (\<forall>c \<in> constraint_set st. contracted rm c vd)"
    "concrete_errors rm (constraints st) (map fst (constraints st)) [] = Some errors1"
    "collect_conflicts rm st vd [0..<num_vars st] None (replicate (num_vars st) uint_max) errors1 = Some errors"
    "st' = st\<lparr>var_values := Some (map data_value vd)\<rparr>"
proof -
  obtain vd0 where vd0: "expansion rm st (construct_var_data st) = Some vd0" "expand_inv rm st vd0"
    "\<forall>c \<in> constraint_set st. expanded rm c vd0" by (rule expansion_ok [OF s])
  obtain vd where vd: "contraction rm st vd0 = Some vd" "contract_inv rm st vd0 vd"
    "\<not> erroneous vd \<longrightarrow> (\<forall>c \<in> constraint_set st. contracted rm c vd)" by (rule contraction_ok [OF vd0(2)])
  have len: "length vd = num_vars st" using vd(2) by (simp add: contract_inv_def)
  have "those (map (\<lambda>idx. map_option data_value (vec_get vd idx)) [0..<num_vars st]) =
      Some (map (\<lambda>idx. data_value (vd ! idx)) [0..<num_vars st])"
    by (rule those_map_total) (simp add: vec_simps len)
  also have "map (\<lambda>idx. data_value (vd ! idx)) [0..<num_vars st] = map data_value vd"
    by (rule nth_equalityI) (simp_all add: len)
  finally have "\<exists>errors1. concrete_errors rm (constraints st) (map fst (constraints st)) [] = Some errors1 \<and>
      collect_conflicts rm st vd [0..<num_vars st] None (replicate (num_vars st) uint_max) errors1 = Some errors \<and>
      st' = st\<lparr>var_values := Some (map data_value vd)\<rparr>"
    using res
    by (auto simp: resolve_regions_def infer_variable_values_def vd0(1) vd(1)
        collect_concrete_region_errors_def extract_values_and_collect_conflicts_def bind_eq_Some_conv)
  with that vd0(2,3) vd(2,3) show ?thesis by blast
qed

fun constraint_holds :: "region_maps \<Rightarrow> (region_vid \<Rightarrow> region option) \<Rightarrow> constraint \<Rightarrow> bool" where
  "constraint_holds rm v (ConstrainVarSubVar a b) \<longleftrightarrow>
     (\<exists>ra rb. v a = Some ra \<and> v b = Some rb \<and> is_subregion_of rm ra rb = Some True)"
| "constraint_holds rm v (ConstrainRegSubVar r b) \<longleftrightarrow>
     (\<exists>rb. v b = Some rb \<and> is_subregion_of rm r rb = Some True)"
| "constraint_holds rm v (ConstrainVarSubReg a r) \<longleftrightarrow>
     (\<exists>ra. v a = Some ra \<and> is_subregion_of rm ra r = Some True)"
| "constraint_holds rm v (ConstrainRegSubReg a b) \<longleftrightarrow> is_subregion_of rm a b = Some True"

lemma resolve_var_values:
  assumes "st' = st\<lparr>var_values := Some (map data_value vd)\<rparr>" "v < length vd"
  shows "data_value (vd ! v) = Value r \<Longrightarrow> resolve_var st' v = Some r"
    and "data_value (vd ! v) = NoValue \<Longrightarrow> resolve_var st' v = Some ReEmpty"
  using assms by (simp_all add: resolve_var_def vec_get_def)

lemma solved_constraint:
  assumes s: "solvable rm st" and c: "c \<in> constraint_set st" and e: "expanded rm c vd0"
    and inv: "expand_inv rm st vd0" "contract_inv rm st vd0 vd"
    and clean: "\<not> erroneous vd" "contracted rm c vd"
    and reg: "\<forall>a b. ConstrainRegSubReg a b \<in> constraint_set st \<longrightarrow> is_subregion_of rm a b = Some True"
    and st': "st' = st\<lparr>var_values := Some (map data_value vd)\<rparr>"
  shows "constraint_holds rm (resolve_var st') c \<or>
     (\<exists>a b. c = ConstrainVarSubVar a b \<and> resolve_var st' b = Some ReEmpty)"
proof -
  have len: "length vd = num_vars st" using inv(2) by (simp add: contract_inv_def)
  note ok = solvableD(3) [OF s c] and sub = is_subregion_of_eq [OF solvableD(1) [OF s]]
  note val = resolve_var_values [OF st']
  show ?thesis
  proof (cases c)
    case [simp]: (ConstrainRegSubVar r b)
    from e obtain rb where rb: "data_value (vd0 ! b) = Value rb" "subregion rm r rb" by (auto simp: expanded_def)
    have b: "b < num_vars st" using ok by simp
    have "expanded_ok (candidates rm st) (vd0 ! b)" "kept (vd0 ! b) (vd ! b)" "data_value (vd ! b) \<noteq> ErrorValue"
      using inv clean(1) b len unfolding expand_inv_def contract_inv_def erroneous_def by auto
    then have "data_value (vd ! b) = Value rb" using rb(1) by (auto simp: kept_def)
    with val(1) [of b rb] rb(2) b len show ?thesis by (simp add: sub)
  next
    case [simp]: (ConstrainVarSubReg a r)
    from clean(2) obtain ra where "data_value (vd ! a) = Value ra" "subregion rm ra r"
      by (auto simp: contracted_def)
    with val(1) [of a ra] ok len show ?thesis by (simp add: sub)
  next
    case [simp]: (ConstrainVarSubVar a b)
    have ab: "a < num_vars st" "b < num_vars st" using ok by auto
    show ?thesis
    proof (cases "data_value (vd ! b)")
      case NoValue
      with val(2) [of b] ab len show ?thesis by simp
    next
      case ErrorValue
      with clean(1) ab len show ?thesis by (auto simp: erroneous_def)
    next
      case (Value rb)
      then obtain ra where "data_value (vd ! a) = Value ra" "subregion rm ra rb"
        using clean(2) by (auto simp: contracted_def)
      with val(1) [of a ra] val(1) [of b rb] Value ab len show ?thesis by (simp add: sub)
    qed
  next
    case (ConstrainRegSubReg a b)
    with reg c show ?thesis by simp
  qed
qed



definition loose_bindings :: "region \<Rightarrow> (nat, nat) region_var_bindings" where
  "loose_bindings r = new_region_var_bindings\<lparr>var_origins := [0, 0],
     constraints := [(ConstrainVarSubReg 0 r, 10), (ConstrainVarSubVar 0 1, 11)]\<rparr>"

lemmas resolve_defs = resolve_regions_def infer_variable_values_def construct_var_data_def
  expansion_def contraction_def iterate_constraints_def on_node_def contract_node_def expand_node_def
  check_node_def adjust_node_def num_vars_def collect_concrete_region_errors_def
  extract_values_and_collect_conflicts_def vec_get_def new_region_var_bindings_def

text \<open>
  C27. The exception of the soundness theorem is real.  With \<open>v0 <= 'a\<close> and
  \<open>v0 <= v1\<close>, contraction gives \<open>v0\<close> the value \<open>'a\<close> but leaves
  \<open>v1\<close> without one; no error is reported, \<open>v1\<close> reads as the empty region, and the
  constraint between the two variables does not hold.
\<close>

theorem resolve_regions_loose_variable:
  "\<exists>st'. resolve_regions rm (loose_bindings (ReFree f)) =
       Some ([] :: (nat, nat, unit) region_resolution_error list, st') \<and>
     resolve_var st' 0 = Some (ReFree f) \<and> resolve_var st' 1 = Some ReEmpty \<and>
     \<not> constraint_holds rm (resolve_var st') (ConstrainVarSubVar 0 1)"
proof -
  have "glb_concrete_regions rm (ReFree f) (ReFree f) = Some (Inr (ReFree f))"
    by (simp add: glb_concrete_regions_def glb_free_regions_def)
  then have "resolve_regions rm (loose_bindings (ReFree f)) =
      Some ([] :: (nat, nat, unit) region_resolution_error list,
        (loose_bindings (ReFree f))\<lparr>var_values := Some [Value (ReFree f), NoValue]\<rparr>)"
    by (simp add: resolve_defs loose_bindings_def iterate.simps upt_rec)
  then show ?thesis
    by (intro exI conjI, assumption) (simp_all add: resolve_var_def vec_get_def is_subregion_of_def)
qed

definition bug_maps :: region_maps where
  "bug_maps = \<lparr>scope_map = [5 \<mapsto> 3], var_map = Map.empty, free_region_map = Map.empty,
     rvalue_scopes = Map.empty, terminating_scopes = {}\<rparr>"

definition bug_bindings :: "(nat, nat) region_var_bindings" where
  "bug_bindings = new_region_var_bindings\<lparr>var_origins := [0],
     constraints := [(ConstrainVarSubReg 0 (ReFree (FreeRegion 3 (BrAnon 0))), 10),
       (ConstrainVarSubReg 0 (ReFree (FreeRegion 3 (BrAnon 1))), 11),
       (ConstrainVarSubReg 0 (ReFree (FreeRegion 5 (BrAnon 0))), 12)]\<rparr>"

lemma bug_subscope: "is_subscope_of bug_maps 5 5 = Some True" "is_subscope_of bug_maps 5 3 = Some True"
  by (simp_all add: is_subscope_of.simps bug_maps_def)

lemma bug_nca:
  "nearest_common_ancestor bug_maps a a = Some (Some a)"
  "nearest_common_ancestor bug_maps 5 3 = Some (Some 3)" "nearest_common_ancestor bug_maps 3 5 = Some (Some 3)"
  by (simp_all add: nearest_common_ancestor_def ancestors_of_def ancestors_loop.simps bug_maps_def vec_get_def
      nca_loop.simps)

lemma bug_sub_free: "f \<noteq> g \<Longrightarrow> sub_free_region bug_maps f g = Some False"
  by (simp add: sub_free_region_def bfs_search.simps free_region_parents_def bug_maps_def)

lemma bug_glb:
  "glb_concrete_regions bug_maps (ReFree f) (ReFree g) =
     (if f = g then Some (Inr (ReFree f)) else intersect_scopes bug_maps (ReFree (min f g)) (ReFree (max f g))
        (scope_id (min f g)) (scope_id (max f g)))"
  "glb_concrete_regions bug_maps (ReScope 3) (ReFree (FreeRegion 5 b)) =
     Some (Inl (terr_regions_no_overlap (ReFree (FreeRegion 5 b)) (ReScope 3)))"
  by (auto simp: glb_concrete_regions_def glb_free_regions_def glb_free_helper_def glb_free_scope_def
      bug_sub_free bug_nca min_def max_def)

lemmas walk_defs = construct_graph_def add_node_def graph_with_capacity_def add_edge_def set_first_edge_def
  vec_set_def next_node_index_def next_edge_index_def InvalidEdgeIndex_def collect_concrete_regions_def
  process_edges_def process_edge_def each_adjacent_edge_def first_adjacent_def adjacent_loop.simps
  walk_loop.simps walk_step_def vec_pop_def Let_def


abbreviation lifetime :: "nat \<Rightarrow> free_region" where
  "lifetime i \<equiv> FreeRegion 3 (BrAnon i)"

definition outlives_maps :: region_maps where
  "outlives_maps = relate_free_regions (relate_free_regions
     \<lparr>scope_map = Map.empty, var_map = Map.empty, free_region_map = Map.empty,
      rvalue_scopes = Map.empty, terminating_scopes = {}\<rparr>
     (lifetime 2) (lifetime 4)) (lifetime 3) (lifetime 4)"

definition outlives_bindings :: "(nat, nat) region_var_bindings" where
  "outlives_bindings = new_region_var_bindings\<lparr>var_origins := [9],
     constraints := [(ConstrainRegSubVar (ReFree (lifetime 2)) 0, 10),
       (ConstrainRegSubVar (ReFree (lifetime 3)) 0, 11), (ConstrainVarSubReg 0 (ReFree (lifetime 4)), 12)]\<rparr>"

lemma outlives_maps_eq:
  "outlives_maps = \<lparr>scope_map = Map.empty, var_map = Map.empty,
     free_region_map = [lifetime 2 \<mapsto> [lifetime 4], lifetime 3 \<mapsto> [lifetime 4]],
     rvalue_scopes = Map.empty, terminating_scopes = {}\<rparr>"
  by (simp add: outlives_maps_def relate_free_regions_def)

lemma outlives_sub:
  "sub_free_region outlives_maps (lifetime 2) (lifetime 4) = Some True"
  "sub_free_region outlives_maps (lifetime 3) (lifetime 4) = Some True"
  "sub_free_region outlives_maps (lifetime 2) (lifetime 3) = Some False"
  "sub_free_region outlives_maps (lifetime 3) (lifetime 2) = Some False"
  by (simp_all add: sub_free_region_def outlives_maps_eq bfs_search.simps free_region_parents_def push_new_def)

lemma outlives_regions:
  "lub_concrete_regions outlives_maps (ReFree (lifetime 3)) (ReFree (lifetime 2)) = Some ReStatic"
  "lub_concrete_regions outlives_maps (ReFree f) ReStatic = Some ReStatic"
  "is_subregion_of outlives_maps ReStatic (ReFree f) = Some False"
  "is_subregion_of outlives_maps (ReFree (lifetime 2)) (ReFree (lifetime 4)) = Some True"
  "is_subregion_of outlives_maps (ReFree (lifetime 3)) (ReFree (lifetime 4)) = Some True"
  "is_subregion_of outlives_maps (ReFree (lifetime 3)) (ReFree (lifetime 2)) = Some False"
  "is_subregion_of outlives_maps (ReFree f) (ReFree f) = Some True"
  by (simp_all add: lub_concrete_regions_def lub_free_regions_def lub_free_helper_def is_subregion_of_def outlives_sub
      less_free_region_def)

lemma outlives_run:
  "resolve_regions outlives_maps outlives_bindings =
     Some ([SubSupConflict 9 11 (ReFree (lifetime 3)) 10 (ReFree (lifetime 2)) :: (nat, nat, unit) region_resolution_error],
       outlives_bindings\<lparr>var_values := Some [ErrorValue]\<rparr>)"
  by (simp add: resolve_defs outlives_bindings_def iterate.simps outlives_regions uint_max_def walk_defs
      collect_error_for_expanding_node_def sort_by_def)


lemma outlives_ok: "solvable outlives_maps outlives_bindings" "fits outlives_bindings"
proof -
  have "scopes_wf outlives_maps" by (rule scopes_wf_rank [of _ "\<lambda>c. c"]) (simp add: outlives_maps_eq)
  moreover have "free_rel outlives_maps \<subseteq> {(lifetime 2, lifetime 4), (lifetime 3, lifetime 4)}"
    by (auto simp: free_rel_def nbr_rel_def free_region_parents_def outlives_maps_eq split: if_splits)
  then have "free_nested outlives_maps" by (auto simp: free_nested_def)
  ultimately show "solvable outlives_maps outlives_bindings"
    by (simp add: solvable_def maps_ok_def outlives_bindings_def num_vars_def) (simp add: outlives_maps_eq)
  show "fits outlives_bindings" by (simp add: fits_def outlives_bindings_def num_vars_def uint_max_def)
qed


lemma sample_run:
  "resolve_regions sample_maps sample_bindings = Some ([] :: (nat, nat, unit) region_resolution_error list,
     sample_bindings\<lparr>var_values := Some [Value (ReScope 4), Value (ReScope 4)]\<rparr>)"
proof -
  have "lub_concrete_regions sample_maps (ReScope 4) (ReScope 4) = Some (ReScope 4)"
    by (simp add: lub_concrete_regions_def nearest_common_ancestor_def)
  moreover have "is_subregion_of sample_maps (ReScope 4) (ReScope 2) = Some True"
    "is_subregion_of sample_maps (ReScope 3) (ReScope (Suc 0)) = Some True"
    "is_subregion_of sample_maps (ReScope 4) (ReScope 4) = Some True"
    using is_subregion_of_eq [OF sample_maps_ok(1)] sample_encloses by simp_all
  ultimately show ?thesis
    by (simp add: resolve_defs sample_bindings_def iterate.simps upt_rec)
qed


end
