(* ===== verification/Containers.thy ===== *)
theory Containers
  imports Prelude
begin

text \<open>
  The container traits of \<open>libstd/container.rs\<close>: the methods a trait provides in terms of
  those an implementation has to define, and the contract of \<open>MutableMap\<close> as a locale, in
  which what the provided methods do is proved once for all implementations.

  A method that takes \<open>&mut self\<close> returns the new container beside its result; the outer
  option is task failure.
\<close>

section \<open>Provided methods\<close>

definition is_empty_default :: "('s \<Rightarrow> uint) \<Rightarrow> 's \<Rightarrow> bool" where
  "is_empty_default len s \<longleftrightarrow> len s = 0"

definition contains_key_default :: "('s \<Rightarrow> 'k \<Rightarrow> 'v option) \<Rightarrow> 's \<Rightarrow> 'k \<Rightarrow> bool" where
  "contains_key_default lookup s k \<longleftrightarrow> lookup s k \<noteq> None"

definition insert_default ::
  "('s \<Rightarrow> 'k \<Rightarrow> 'v \<Rightarrow> ('v option \<times> 's) option) \<Rightarrow> 's \<Rightarrow> 'k \<Rightarrow> 'v \<Rightarrow> (bool \<times> 's) option" where
  "insert_default swap s k v = map_option (\<lambda>(r, s'). (r = None, s')) (swap s k v)"

definition remove_default ::
  "('s \<Rightarrow> 'k \<Rightarrow> ('v option \<times> 's) option) \<Rightarrow> 's \<Rightarrow> 'k \<Rightarrow> (bool \<times> 's) option" where
  "remove_default pop s k = map_option (\<lambda>(r, s'). (r \<noteq> None, s')) (pop s k)"

text \<open>\<open>Extendable::extend\<close> of the map types: insert the pairs one by one.\<close>

fun extend_with ::
  "('s \<Rightarrow> 'k \<Rightarrow> 'v \<Rightarrow> (bool \<times> 's) option) \<Rightarrow> 's \<Rightarrow> ('k \<times> 'v) list \<Rightarrow> 's option" where
  "extend_with ins s [] = Some s"
| "extend_with ins s ((k, v) # kvs) =
     do { (_, s') \<leftarrow> ins s k v; extend_with ins s' kvs }"

section \<open>The contract\<close>

text \<open>
  \<open>abs\<close> reads a container as a finite map; the methods neither fail nor leave the
  invariant, and return what the map says.
\<close>

locale mutable_map =
  fixes new :: 's
    and invar :: "'s \<Rightarrow> bool"
    and abs :: "'s \<Rightarrow> 'k \<rightharpoonup> 'v"
    and len :: "'s \<Rightarrow> uint"
    and find :: "'s \<Rightarrow> 'k \<Rightarrow> 'v option"
    and swap :: "'s \<Rightarrow> 'k \<Rightarrow> 'v \<Rightarrow> ('v option \<times> 's) option"
    and pop :: "'s \<Rightarrow> 'k \<Rightarrow> ('v option \<times> 's) option"
  assumes new_ok: "invar new" "abs new = Map.empty"
    and finite_abs: "invar s \<Longrightarrow> finite (dom (abs s))"
    and len_ok: "invar s \<Longrightarrow> len s = card (dom (abs s))"
    and find_ok: "invar s \<Longrightarrow> find s k = abs s k"
    and swap_ok: "invar s \<Longrightarrow> \<exists>s'. swap s k v = Some (abs s k, s') \<and> invar s' \<and> abs s' = (abs s)(k \<mapsto> v)"
    and pop_ok: "invar s \<Longrightarrow> \<exists>s'. pop s k = Some (abs s k, s') \<and> invar s' \<and> abs s' = (abs s)(k := None)"
begin

lemma is_empty_ok: "invar s \<Longrightarrow> is_empty_default len s \<longleftrightarrow> abs s = Map.empty"
  using finite_abs [of s] len_ok [of s] by (auto simp: is_empty_default_def)

lemma contains_key_ok: "invar s \<Longrightarrow> contains_key_default find s k \<longleftrightarrow> k \<in> dom (abs s)"
  by (auto simp: contains_key_default_def find_ok)

lemma insert_ok:
  "invar s \<Longrightarrow> \<exists>s'. insert_default swap s k v = Some (k \<notin> dom (abs s), s') \<and> invar s' \<and>
     abs s' = (abs s)(k \<mapsto> v)"
  using swap_ok [of s k v] by (auto simp: insert_default_def)

lemma remove_ok:
  "invar s \<Longrightarrow> \<exists>s'. remove_default pop s k = Some (k \<in> dom (abs s), s') \<and> invar s' \<and>
     abs s' = (abs s)(k := None)"
  using pop_ok [of s k] by (auto simp: remove_default_def)

lemma extend_ok:
  "invar s \<Longrightarrow> \<exists>s'. extend_with (insert_default swap) s kvs = Some s' \<and> invar s' \<and>
     abs s' = abs s ++ map_of (rev kvs)"
proof (induction kvs arbitrary: s)
  case (Cons kv kvs)
  obtain k v where kv: "kv = (k, v)" by fastforce
  obtain s1 where "insert_default swap s k v = Some (k \<notin> dom (abs s), s1)" "invar s1"
    "abs s1 = (abs s)(k \<mapsto> v)" using insert_ok [OF Cons.prems, of k v] by blast
  moreover obtain s' where "extend_with (insert_default swap) s1 kvs = Some s'" "invar s'"
    "abs s' = abs s1 ++ map_of (rev kvs)" using Cons.IH [OF calculation(2)] by blast
  ultimately show ?case by (simp add: kv)
qed simp

end

section \<open>Iterators\<close>

text \<open>
  The contract of \<open>Iterator\<close>: \<open>pending\<close> are the elements still to come, and
  \<open>next\<close> takes the first of them, or returns \<open>None\<close> for good.
\<close>

locale forward_iterator =
  fixes invar :: "'i \<Rightarrow> bool"
    and pending :: "'i \<Rightarrow> 'a list"
    and next_item :: "'i \<Rightarrow> 'a option \<times> 'i"
  assumes next_ok: "invar i \<Longrightarrow> \<exists>i'. invar i' \<and> pending i' = tl (pending i) \<and>
      next_item i = (if pending i = [] then None else Some (hd (pending i)), i')"

locale double_ended_iterator = forward_iterator +
  fixes next_back :: "'i \<Rightarrow> 'a option \<times> 'i"
  assumes back_ok: "invar i \<Longrightarrow> \<exists>i'. invar i' \<and> pending i' = butlast (pending i) \<and>
      next_back i = (if pending i = [] then None else Some (last (pending i)), i')"

text \<open>The results of \<open>n\<close> calls of \<open>next\<close>, which is what a \<open>for\<close> loop sees.\<close>

fun iter_take :: "('i \<Rightarrow> 'a option \<times> 'i) \<Rightarrow> nat \<Rightarrow> 'i \<Rightarrow> 'a option list" where
  "iter_take nxt 0 i = []"
| "iter_take nxt (Suc n) i = (case nxt i of (x, i') \<Rightarrow> x # iter_take nxt n i')"

text \<open>Taking elements from either end as a list of choices says, \<open>True\<close> for the front.\<close>

fun drain :: "('i \<Rightarrow> 'a option \<times> 'i) \<Rightarrow> ('i \<Rightarrow> 'a option \<times> 'i) \<Rightarrow> bool list \<Rightarrow> 'i \<Rightarrow> 'a option list" where
  "drain nxt bck [] i = []"
| "drain nxt bck (b # bs) i = (case (if b then nxt i else bck i) of (x, i') \<Rightarrow> x # drain nxt bck bs i')"

fun drain_list :: "bool list \<Rightarrow> 'a list \<Rightarrow> 'a option list" where
  "drain_list [] xs = []"
| "drain_list (b # bs) xs =
     (if xs = [] then None else Some (if b then hd xs else last xs))
       # drain_list bs (if b then tl xs else butlast xs)"

text \<open>
  Running an iterator to its end.  It does not return when the iterator never ends.
\<close>

partial_function (option) collect :: "('i \<Rightarrow> 'a option \<times> 'i) \<Rightarrow> 'i \<Rightarrow> 'a list option" where
  "collect nxt i =
     (case nxt i of
        (None, _) \<Rightarrow> Some []
      | (Some x, i') \<Rightarrow> do { xs \<leftarrow> collect nxt i'; Some (x # xs) })"

text \<open>
  A loop over two zipped iterators that leaves early: the first result that \<open>f\<close> gives.
\<close>

partial_function (option) zip_search ::
  "('a \<Rightarrow> 'b \<Rightarrow> 'r option) \<Rightarrow> ('i \<Rightarrow> 'a option \<times> 'i) \<Rightarrow> ('j \<Rightarrow> 'b option \<times> 'j) \<Rightarrow> 'i \<Rightarrow> 'j \<Rightarrow> 'r option option" where
  "zip_search f nxt nxt' i j =
     (case nxt i of
        (None, _) \<Rightarrow> Some None
      | (Some x, i') \<Rightarrow>
          (case nxt' j of
             (None, _) \<Rightarrow> Some None
           | (Some y, j') \<Rightarrow>
               (case f x y of Some r \<Rightarrow> Some (Some r) | None \<Rightarrow> zip_search f nxt nxt' i' j')))"

text \<open>\<open>iter::Peekable\<close>.\<close>

record ('i, 'a) peekable =
  pk_iter :: 'i
  pk_peeked :: "'a option"

definition peekable_new :: "'i \<Rightarrow> ('i, 'a) peekable" where
  "peekable_new i = \<lparr>pk_iter = i, pk_peeked = None\<rparr>"

definition peekable_next ::
  "('i \<Rightarrow> 'a option \<times> 'i) \<Rightarrow> ('i, 'a) peekable \<Rightarrow> 'a option \<times> ('i, 'a) peekable" where
  "peekable_next nxt p =
     (case pk_peeked p of
        Some x \<Rightarrow> (Some x, p\<lparr>pk_peeked := None\<rparr>)
      | None \<Rightarrow> (let (x, i') = nxt (pk_iter p) in (x, p\<lparr>pk_iter := i'\<rparr>)))"

definition peekable_peek ::
  "('i \<Rightarrow> 'a option \<times> 'i) \<Rightarrow> ('i, 'a) peekable \<Rightarrow> 'a option \<times> ('i, 'a) peekable" where
  "peekable_peek nxt p =
     (let p' = (case pk_peeked p of
                  None \<Rightarrow> (let (x, i') = nxt (pk_iter p) in p\<lparr>pk_iter := i', pk_peeked := x\<rparr>)
                | Some _ \<Rightarrow> p)
      in (pk_peeked p', p'))"

text \<open>The elements a peekable iterator still delivers, given those of its iterator.\<close>

definition peekable_pending :: "('i \<Rightarrow> 'a list) \<Rightarrow> ('i, 'a) peekable \<Rightarrow> 'a list" where
  "peekable_pending pending p = (case pk_peeked p of None \<Rightarrow> [] | Some x \<Rightarrow> [x]) @ pending (pk_iter p)"

text \<open>\<open>zip_search\<close> on lists.\<close>

fun zip_find :: "('a \<Rightarrow> 'b \<Rightarrow> 'r option) \<Rightarrow> 'a list \<Rightarrow> 'b list \<Rightarrow> 'r option" where
  "zip_find f (x # xs) (y # ys) = (case f x y of Some r \<Rightarrow> Some r | None \<Rightarrow> zip_find f xs ys)"
| "zip_find f _ _ = None"

context forward_iterator
begin

lemma next_cases:
  assumes "invar i"
  obtains (stop) i' where "pending i = []" "next_item i = (None, i')" "invar i'" "pending i' = []"
  | (item) x xs i' where "pending i = x # xs" "next_item i = (Some x, i')" "invar i'" "pending i' = xs"
  using next_ok [OF assms] by (cases "pending i") auto

lemma collect_ok: "invar i \<Longrightarrow> collect next_item i = Some (pending i)"
proof (induction "pending i" arbitrary: i)
  case Nil
  from Nil.prems Nil.hyps show ?case by (cases rule: next_cases) (auto simp: collect.simps [of next_item i])
next
  case (Cons x xs)
  from Cons.prems Cons.hyps show ?case by (cases rule: next_cases) (auto simp: collect.simps [of next_item i])
qed

lemma zip_search_ok:
  "invar i \<Longrightarrow> invar j \<Longrightarrow>
     zip_search f next_item next_item i j = Some (zip_find f (pending i) (pending j))"
proof (induction "pending i" arbitrary: i j)
  case Nil
  from Nil.prems(1) Nil.hyps show ?case
    by (cases rule: next_cases) (auto simp: zip_search.simps [of f next_item next_item i j])
next
  case (Cons x xs)
  from Cons.prems(1) Cons.hyps obtain i' where i': "next_item i = (Some x, i')" "invar i'" "pending i' = xs"
    by (cases rule: next_cases) auto
  from Cons.prems(2) show ?case
  proof (cases rule: next_cases)
    case (stop j')
    then show ?thesis by (simp add: zip_search.simps [of f next_item next_item i j] i' flip: Cons.hyps(2))
  next
    case (item y ys j')
    then show ?thesis using Cons.hyps(1) [of i' j'] i'
      by (simp add: zip_search.simps [of f next_item next_item i j] flip: Cons.hyps(2) split: option.split)
  qed
qed

lemma peekable_next_ok:
  assumes "invar (pk_iter p)"
  shows "\<exists>p'. invar (pk_iter p') \<and> peekable_pending pending p' = tl (peekable_pending pending p) \<and>
    peekable_next next_item p =
      (if peekable_pending pending p = [] then None else Some (hd (peekable_pending pending p)), p')"
  by (rule next_cases [OF assms]; cases "pk_peeked p")
    (use assms in \<open>auto simp: peekable_next_def peekable_pending_def\<close>)

lemma peekable_peek_ok:
  assumes "invar (pk_iter p)"
  shows "\<exists>p'. invar (pk_iter p') \<and> peekable_pending pending p' = peekable_pending pending p \<and>
    peekable_peek next_item p =
      (if peekable_pending pending p = [] then None else Some (hd (peekable_pending pending p)), p')"
  by (rule next_cases [OF assms]; cases "pk_peeked p")
    (use assms in \<open>auto simp: peekable_peek_def peekable_pending_def\<close>)

lemma iter_take_ok:
  "invar i \<Longrightarrow> iter_take next_item n i =
     map Some (take n (pending i)) @ replicate (n - length (pending i)) None"
proof (induction n arbitrary: i)
  case (Suc n)
  obtain i' where "invar i'" "pending i' = tl (pending i)"
    "next_item i = (if pending i = [] then None else Some (hd (pending i)), i')"
    using next_ok [OF Suc.prems] by blast
  with Suc.IH [of i'] show ?case by (cases "pending i") auto
qed simp

end

context double_ended_iterator
begin

lemma drain_ok: "invar i \<Longrightarrow> drain next_item next_back bs i = drain_list bs (pending i)"
proof (induction bs arbitrary: i)
  case (Cons b bs)
  show ?case
  proof (cases b)
    case True
    with next_ok [OF Cons.prems] Cons.IH show ?thesis by auto
  next
    case False
    with back_ok [OF Cons.prems] Cons.IH show ?thesis by auto
  qed
qed simp

end

end
