(* ===== verification/SmallIntMap.thy ===== *)
theory SmallIntMap
  imports Containers
begin

text \<open>
  \<open>libcollections/smallintmap.rs\<close>: a map from small integers kept in a vector of
  options, and its double-ended iterator.
\<close>

section \<open>Operations\<close>

record 'v small_int_map =
  sim_v :: "'v option list"

definition sim_len :: "'v small_int_map \<Rightarrow> uint" where
  "sim_len m = length (filter (\<lambda>elt. elt \<noteq> None) (sim_v m))"

definition sim_is_empty :: "'v small_int_map \<Rightarrow> bool" where
  "sim_is_empty m \<longleftrightarrow> (\<forall>elt \<in> set (sim_v m). elt = None)"

definition sim_clear :: "'v small_int_map \<Rightarrow> 'v small_int_map" where
  "sim_clear m = m\<lparr>sim_v := []\<rparr>"

definition sim_find :: "'v small_int_map \<Rightarrow> uint \<Rightarrow> 'v option" where
  "sim_find m key =
     (if key < length (sim_v m)
      then (case sim_v m ! key of Some x \<Rightarrow> Some x | None \<Rightarrow> None)
      else None)"

text \<open>The value behind the reference that \<open>find_mut\<close> returns, and writing through it.\<close>

definition sim_find_mut :: "'v small_int_map \<Rightarrow> uint \<Rightarrow> ('v \<times> ('v \<Rightarrow> 'v small_int_map)) option" where
  "sim_find_mut m key =
     (if key < length (sim_v m)
      then (case sim_v m ! key of
              Some x \<Rightarrow> Some (x, \<lambda>y. m\<lparr>sim_v := (sim_v m)[key := Some y]\<rparr>)
            | None \<Rightarrow> None)
      else None)"

definition sim_insert :: "'v small_int_map \<Rightarrow> uint \<Rightarrow> 'v \<Rightarrow> (bool \<times> 'v small_int_map) option" where
  "sim_insert m key x =
     (let exists = contains_key_default sim_find m key;
          len = length (sim_v m);
          v1 = (if len \<le> key then sim_v m @ replicate (key - len + 1) None else sim_v m)
      in do { v2 \<leftarrow> vec_set v1 key (Some x);
              Some (\<not> exists, m\<lparr>sim_v := v2\<rparr>) })"

definition sim_pop :: "'v small_int_map \<Rightarrow> uint \<Rightarrow> ('v option \<times> 'v small_int_map) option" where
  "sim_pop m key =
     (if key \<ge> length (sim_v m) then Some (None, m)
      else do { old \<leftarrow> vec_get (sim_v m) key;
                Some (old, m\<lparr>sim_v := (sim_v m)[key := None]\<rparr>) })"

definition sim_remove :: "'v small_int_map \<Rightarrow> uint \<Rightarrow> (bool \<times> 'v small_int_map) option" where
  "sim_remove m key = map_option (\<lambda>(r, m'). (r \<noteq> None, m')) (sim_pop m key)"

definition sim_swap ::
  "'v small_int_map \<Rightarrow> uint \<Rightarrow> 'v \<Rightarrow> ('v option \<times> 'v small_int_map) option" where
  "sim_swap m key x =
     (case sim_find_mut m key of
        Some (old, write) \<Rightarrow> Some (Some old, write x)
      | None \<Rightarrow> do { (_, m') \<leftarrow> sim_insert m key x; Some (None, m') })"

definition sim_new :: "'v small_int_map" where
  "sim_new = \<lparr>sim_v = []\<rparr>"

definition sim_with_capacity :: "uint \<Rightarrow> 'v small_int_map" where
  "sim_with_capacity capacity = \<lparr>sim_v = []\<rparr>"

definition sim_get :: "'v small_int_map \<Rightarrow> uint \<Rightarrow> 'v option" where
  "sim_get m key = sim_find m key"

definition sim_update_with_key ::
  "'v small_int_map \<Rightarrow> uint \<Rightarrow> 'v \<Rightarrow> (uint \<Rightarrow> 'v \<Rightarrow> 'v \<Rightarrow> 'v) \<Rightarrow> (bool \<times> 'v small_int_map) option" where
  "sim_update_with_key m key x ff =
     (let new_val = (case sim_find m key of None \<Rightarrow> x | Some orig \<Rightarrow> ff key orig x)
      in sim_insert m key new_val)"

definition sim_update ::
  "'v small_int_map \<Rightarrow> uint \<Rightarrow> 'v \<Rightarrow> ('v \<Rightarrow> 'v \<Rightarrow> 'v) \<Rightarrow> (bool \<times> 'v small_int_map) option" where
  "sim_update m key newval ff = sim_update_with_key m key newval (\<lambda>_ v v1. ff v v1)"

text \<open>\<open>Entries\<close>; \<open>it_items\<close> is what the slice iterator has still to deliver.\<close>

record 'v sim_entries =
  it_front :: uint
  it_back :: uint
  it_items :: "'v option list"

definition sim_iter :: "'v small_int_map \<Rightarrow> 'v sim_entries" where
  "sim_iter m = \<lparr>it_front = 0, it_back = length (sim_v m), it_items = sim_v m\<rparr>"

function sim_next :: "'v sim_entries \<Rightarrow> (uint \<times> 'v) option \<times> 'v sim_entries" where
  "sim_next it =
     (if it_front it < it_back it
      then (case it_items it of
              Some x # rest \<Rightarrow> (Some (it_front it, x), it\<lparr>it_front := it_front it + 1, it_items := rest\<rparr>)
            | None # rest \<Rightarrow> sim_next (it\<lparr>it_front := it_front it + 1, it_items := rest\<rparr>)
            | [] \<Rightarrow> sim_next (it\<lparr>it_front := it_front it + 1\<rparr>))
      else (None, it))"
  by pat_completeness auto
termination by (relation "measure (\<lambda>it. it_back it - it_front it)") auto

function sim_next_back :: "'v sim_entries \<Rightarrow> (uint \<times> 'v) option \<times> 'v sim_entries" where
  "sim_next_back it =
     (if it_front it < it_back it
      then (case vec_pop (it_items it) of
              Some (Some x, rest) \<Rightarrow> (Some (it_back it - 1, x), it\<lparr>it_back := it_back it - 1, it_items := rest\<rparr>)
            | Some (None, rest) \<Rightarrow> sim_next_back (it\<lparr>it_back := it_back it - 1, it_items := rest\<rparr>)
            | None \<Rightarrow> sim_next_back (it\<lparr>it_back := it_back it - 1\<rparr>))
      else (None, it))"
  by pat_completeness auto
termination by (relation "measure (\<lambda>it. it_back it - it_front it)") auto

declare sim_next.simps [simp del] sim_next_back.simps [simp del]

definition sim_size_hint :: "'v sim_entries \<Rightarrow> uint \<times> uint option" where
  "sim_size_hint it = (0, Some (it_back it - it_front it))"

definition sim_move_iter :: "'v small_int_map \<Rightarrow> (uint \<times> 'v) list \<times> 'v small_int_map" where
  "sim_move_iter m =
     (List.map_filter (\<lambda>(i, v). map_option (Pair i) v) (List.enumerate 0 (sim_v m)), m\<lparr>sim_v := []\<rparr>)"

section \<open>Refinement of finite maps\<close>

definition sim_abs :: "'v small_int_map \<Rightarrow> uint \<rightharpoonup> 'v" where
  "sim_abs m k = (if k < length (sim_v m) then sim_v m ! k else None)"

lemma sim_find_abs: "sim_find m k = sim_abs m k"
  by (simp add: sim_find_def sim_abs_def split: option.split)

lemma sim_insert_ok:
  "\<exists>m'. sim_insert m k v = Some (k \<notin> dom (sim_abs m), m') \<and> sim_abs m' = (sim_abs m)(k \<mapsto> v)"
  by (auto simp: sim_insert_def Let_def vec_set_def contains_key_default_def sim_find_abs sim_abs_def
      fun_eq_iff nth_append nth_list_update nth_Cons')

lemma sim_swap_ok:
  "\<exists>m'. sim_swap m k v = Some (sim_abs m k, m') \<and> sim_abs m' = (sim_abs m)(k \<mapsto> v)"
proof (cases "sim_abs m k")
  case None
  then have "sim_find_mut m k = None" by (simp add: sim_find_mut_def sim_abs_def split: if_splits)
  then show ?thesis using sim_insert_ok [of m k v] None by (auto simp: sim_swap_def)
next
  case (Some old)
  then have "k < length (sim_v m)" "sim_v m ! k = Some old" by (auto simp: sim_abs_def split: if_splits)
  then show ?thesis
    by (auto simp: sim_swap_def sim_find_mut_def sim_abs_def fun_eq_iff nth_list_update)
qed

lemma sim_pop_ok:
  "\<exists>m'. sim_pop m k = Some (sim_abs m k, m') \<and> sim_abs m' = (sim_abs m)(k := None)"
  by (auto simp: sim_pop_def vec_get_def sim_abs_def fun_eq_iff nth_list_update)

lemma dom_sim_abs: "dom (sim_abs m) = {i. i < length (sim_v m) \<and> sim_v m ! i \<noteq> None}"
  by (auto simp: sim_abs_def split: if_splits)

lemma sim_len_ok: "sim_len m = card (dom (sim_abs m))"
  by (simp add: sim_len_def length_filter_conv_card dom_sim_abs)

interpretation sim: mutable_map sim_new "\<lambda>_. True" sim_abs sim_len sim_find sim_swap sim_pop
proof
  show "\<exists>m'. sim_swap m k v = Some (sim_abs m k, m') \<and> True \<and> sim_abs m' = (sim_abs m)(k \<mapsto> v)"
    for m :: "'v small_int_map" and k v using sim_swap_ok by simp
  show "\<exists>m'. sim_pop m k = Some (sim_abs m k, m') \<and> True \<and> sim_abs m' = (sim_abs m)(k := None)"
    for m :: "'v small_int_map" and k using sim_pop_ok by simp
  show "finite (dom (sim_abs m))" for m :: "'v small_int_map" by (simp add: dom_sim_abs)
qed (auto simp: sim_abs_def sim_new_def sim_find_abs sim_len_ok fun_eq_iff)

section \<open>The iterator\<close>

definition sim_iter_ok :: "'v sim_entries \<Rightarrow> bool" where
  "sim_iter_ok it \<longleftrightarrow> it_back it = it_front it + length (it_items it)"

text \<open>The pairs of a slice whose first element has index \<open>n\<close>.\<close>

fun some_entries :: "uint \<Rightarrow> 'v option list \<Rightarrow> (uint \<times> 'v) list" where
  "some_entries n [] = []"
| "some_entries n (x # xs) = (case x of None \<Rightarrow> [] | Some v \<Rightarrow> [(n, v)]) @ some_entries (Suc n) xs"

lemma some_entries_append:
  "some_entries n (xs @ ys) = some_entries n xs @ some_entries (n + length xs) ys"
  by (induction xs arbitrary: n) auto

lemma some_entries_bounds: "(i, v) \<in> set (some_entries n xs) \<longleftrightarrow> n \<le> i \<and> i < n + length xs \<and> xs ! (i - n) = Some v"
proof (induction xs arbitrary: n)
  case (Cons x xs)
  show ?case
    by (cases x) (auto simp: Cons.IH nth_Cons' Suc_le_eq)
qed simp

lemma sorted_some_entries: "sorted_wrt (<) (map fst (some_entries n xs))"
proof (induction xs arbitrary: n)
  case (Cons x xs)
  show ?case
    by (cases x) (auto simp: Cons.IH some_entries_bounds)
qed simp

lemma sim_next_ok:
  "sim_iter_ok it \<Longrightarrow> \<exists>it'. sim_iter_ok it' \<and>
     some_entries (it_front it') (it_items it') = tl (some_entries (it_front it) (it_items it)) \<and>
     sim_next it = (if some_entries (it_front it) (it_items it) = [] then None
       else Some (hd (some_entries (it_front it) (it_items it))), it')"
proof (induction it rule: sim_next.induct)
  case (1 it)
  show ?case
  proof (cases "it_items it")
    case Nil
    with 1 show ?thesis by (auto simp: sim_next.simps [of it] sim_iter_ok_def)
  next
    case (Cons x rest)
    with 1 have len: "it_front it < it_back it" by (simp add: sim_iter_ok_def)
    show ?thesis
    proof (cases x)
      case None
      let ?it = "it\<lparr>it_front := it_front it + 1, it_items := rest\<rparr>"
      have "sim_iter_ok ?it" using "1.prems" Cons by (simp add: sim_iter_ok_def)
      from "1.IH"(2) [OF len Cons None this] Cons None len show ?thesis
        by (cases "some_entries (Suc (it_front it)) rest") (simp_all add: sim_next.simps [of it])
    next
      case (Some v)
      with "1.prems" Cons len show ?thesis by (auto simp: sim_next.simps [of it] sim_iter_ok_def)
    qed
  qed
qed

lemma sim_next_back_ok:
  "sim_iter_ok it \<Longrightarrow> \<exists>it'. sim_iter_ok it' \<and>
     some_entries (it_front it') (it_items it') = butlast (some_entries (it_front it) (it_items it)) \<and>
     sim_next_back it = (if some_entries (it_front it) (it_items it) = [] then None
       else Some (last (some_entries (it_front it) (it_items it))), it')"
proof (induction it rule: sim_next_back.induct)
  case (1 it)
  show ?case
  proof (cases "it_items it" rule: rev_cases)
    case Nil
    with 1 show ?thesis by (auto simp: sim_next_back.simps [of it] sim_iter_ok_def)
  next
    case (snoc rest x)
    with 1 have len: "it_front it < it_back it" by (simp add: sim_iter_ok_def)
    have pop: "vec_pop (it_items it) = Some (x, rest)" using snoc by simp
    show ?thesis
    proof (cases x)
      case None
      let ?it = "it\<lparr>it_back := it_back it - 1, it_items := rest\<rparr>"
      have "sim_iter_ok ?it" using "1.prems" snoc by (simp add: sim_iter_ok_def)
      from "1.IH"(2) [OF len pop refl None this] snoc None len pop show ?thesis
        by (cases "some_entries (it_front it) rest")
          (simp_all add: sim_next_back.simps [of it] some_entries_append)
    next
      case (Some v)
      with "1.prems" snoc len pop show ?thesis
        by (auto simp: sim_next_back.simps [of it] sim_iter_ok_def some_entries_append)
    qed
  qed
qed

interpretation sim_entries: double_ended_iterator sim_iter_ok
  "\<lambda>it. some_entries (it_front it) (it_items it)" sim_next sim_next_back
  by unfold_locales (rule sim_next_ok sim_next_back_ok, assumption)+


text \<open>
  C24. The entries of a \<open>SmallIntMap\<close> come in ascending order of their keys, and taking
  them from the front and from the back in any interleaving delivers each exactly once.
\<close>

theorem small_int_map_entries:
  "sorted_wrt (<) (map fst (some_entries 0 (sim_v m))) \<and>
   set (some_entries 0 (sim_v m)) = {(k, x). sim_abs m k = Some x} \<and>
   drain sim_next sim_next_back choices (sim_iter m) = drain_list choices (some_entries 0 (sim_v m)) \<and>
   fst (sim_move_iter m) = some_entries 0 (sim_v m)"
proof -
  have "set (some_entries 0 (sim_v m)) = {(k, x). sim_abs m k = Some x}"
    by (auto simp: some_entries_bounds sim_abs_def split: if_splits)
  moreover have "sim_iter_ok (sim_iter m)" by (simp add: sim_iter_ok_def sim_iter_def)
  moreover have "List.map_filter (\<lambda>(i, v). map_option (Pair i) v) (List.enumerate n xs) = some_entries n xs"
    for n and xs :: "'a option list"
    by (induction xs arbitrary: n) (auto simp: List.map_filter_simps split: option.splits)
  ultimately show ?thesis
    using sim_entries.drain_ok [of "sim_iter m" choices] sorted_some_entries
    by (simp add: sim_move_iter_def sim_iter_def)
qed

end
