(* ===== verification/Unify.thy ===== *)
theory Unify
  imports SmallIntMap RegionConstraints
begin

text \<open>
  Type inference variables: the union-find table of
  \<open>librustc/middle/typeck/infer/unify.rs\<close>, in which type, integer and float variables are
  unified, and the snapshots of \<open>infer/mod.rs\<close> that undo an attempt.

  The variable types \<open>TyVid\<close>, \<open>IntVid\<close> and \<open>FloatVid\<close> are their numbers; \<open>ty::t\<close>
  is a type parameter.  A compiler bug (\<open>sess.bug\<close>) and an endless chain are \<^const>\<open>None\<close>.
\<close>

section \<open>The table\<close>

datatype 'a uf_value =
    Redirect uint
  | Root 'a uint

record 'a vals_and_bindings =
  vb_vals :: "'a uf_value small_int_map"
  vb_bindings :: "(uint \<times> 'a uf_value) list"

record 'a uf_node =
  uf_root :: uint
  possible_types :: 'a
  uf_rank :: uint

definition new_vals_and_bindings :: "'a vals_and_bindings" where
  "new_vals_and_bindings = \<lparr>vb_vals = sim_new, vb_bindings = []\<rparr>"

text \<open>
  \<open>get\<close>.  The name \<open>vid\<close> in the branch for \<open>Redirect\<close> is the variable redirected
  to, and it is this one whose entry the path compression replaces.
\<close>

partial_function (option) uf_get ::
  "'a vals_and_bindings \<Rightarrow> uint \<Rightarrow> ('a uf_node \<times> 'a vals_and_bindings) option" where
  "uf_get vb vid =
     (case sim_find (vb_vals vb) vid of
        None \<Rightarrow> None
      | Some (Redirect vid') \<Rightarrow>
          do { (node, vb') \<leftarrow> uf_get vb vid';
               if uf_root node \<noteq> vid'
               then do { (_, vals) \<leftarrow> sim_insert (vb_vals vb') vid' (Redirect (uf_root node));
                         Some (node, vb'\<lparr>vb_vals := vals\<rparr>) }
               else Some (node, vb') }
      | Some (Root pt rk) \<Rightarrow> Some (\<lparr>uf_root = vid, possible_types = pt, uf_rank = rk\<rparr>, vb))"

definition uf_set :: "'a vals_and_bindings \<Rightarrow> uint \<Rightarrow> 'a uf_value \<Rightarrow> 'a vals_and_bindings option" where
  "uf_set vb vid new_v =
     do { old_v \<leftarrow> sim_get (vb_vals vb) vid;
          (_, vals) \<leftarrow> sim_insert (vb_vals vb) vid new_v;
          Some (vb\<lparr>vb_vals := vals, vb_bindings := vb_bindings vb @ [(vid, old_v)]\<rparr>) }"

definition uf_unify ::
  "'a vals_and_bindings \<Rightarrow> 'a uf_node \<Rightarrow> 'a uf_node \<Rightarrow> ((uint \<times> uint) \<times> 'a vals_and_bindings) option" where
  "uf_unify vb node_a node_b =
     (if uf_rank node_a > uf_rank node_b
      then do { vb' \<leftarrow> uf_set vb (uf_root node_b) (Redirect (uf_root node_a));
                Some ((uf_root node_a, uf_rank node_a), vb') }
      else if uf_rank node_a < uf_rank node_b
      then do { vb' \<leftarrow> uf_set vb (uf_root node_a) (Redirect (uf_root node_b));
                Some ((uf_root node_b, uf_rank node_b), vb') }
      else do { vb' \<leftarrow> uf_set vb (uf_root node_b) (Redirect (uf_root node_a));
                Some ((uf_root node_a, uf_rank node_a + 1), vb') })"

section \<open>Simple variables\<close>

datatype 'a expected_found = ExpectedFound (ef_expected: 'a) (ef_found: 'a)

text \<open>
  The result of unification is \<open>Inl\<close> a type error or \<open>Inr ()\<close>; \<open>to_type_err\<close> is the
  method of \<open>SimplyUnifiable\<close>.
\<close>

definition mk_err :: "('t expected_found \<Rightarrow> 'e) \<Rightarrow> bool \<Rightarrow> 't \<Rightarrow> 't \<Rightarrow> 'e + unit" where
  "mk_err to_type_err a_is_expected a_t b_t =
     (if a_is_expected then Inl (to_type_err (ExpectedFound a_t b_t))
      else Inl (to_type_err (ExpectedFound b_t a_t)))"

definition simple_vars ::
  "('t expected_found \<Rightarrow> 'e) \<Rightarrow> bool \<Rightarrow> 't option vals_and_bindings \<Rightarrow> uint \<Rightarrow> uint \<Rightarrow>
   (('e + unit) \<times> 't option vals_and_bindings) option" where
  "simple_vars to_type_err a_is_expected vb a_id b_id =
     do { (node_a, vb1) \<leftarrow> uf_get vb a_id;
          (node_b, vb2) \<leftarrow> uf_get vb1 b_id;
          if uf_root node_a = uf_root node_b then Some (Inr (), vb2)
          else
            let go = (\<lambda>combined.
                  do { ((new_root, new_rank), vb3) \<leftarrow> uf_unify vb2 node_a node_b;
                       vb4 \<leftarrow> uf_set vb3 new_root (Root combined new_rank);
                       Some (Inr (), vb4) })
            in (case (possible_types node_a, possible_types node_b) of
                  (None, None) \<Rightarrow> go None
                | (Some v, None) \<Rightarrow> go (Some v)
                | (None, Some v) \<Rightarrow> go (Some v)
                | (Some v1, Some v2) \<Rightarrow>
                    if v1 \<noteq> v2 then Some (mk_err to_type_err a_is_expected v1 v2, vb2) else go (Some v1)) }"

definition simple_var_t ::
  "('t expected_found \<Rightarrow> 'e) \<Rightarrow> bool \<Rightarrow> 't option vals_and_bindings \<Rightarrow> uint \<Rightarrow> 't \<Rightarrow>
   (('e + unit) \<times> 't option vals_and_bindings) option" where
  "simple_var_t to_type_err a_is_expected vb a_id b =
     do { (node_a, vb1) \<leftarrow> uf_get vb a_id;
          case possible_types node_a of
            None \<Rightarrow>
              do { vb2 \<leftarrow> uf_set vb1 (uf_root node_a) (Root (Some b) (uf_rank node_a)); Some (Inr (), vb2) }
          | Some a_t \<Rightarrow>
              if a_t = b then Some (Inr (), vb1)
              else Some (mk_err to_type_err a_is_expected a_t b, vb1) }"

definition next_simple_var ::
  "uint \<Rightarrow> 't option vals_and_bindings \<Rightarrow> (uint \<times> uint \<times> 't option vals_and_bindings) option" where
  "next_simple_var counter bindings =
     do { (_, vals) \<leftarrow> sim_insert (vb_vals bindings) counter (Root None 0);
          Some (counter, counter + 1, bindings\<lparr>vb_vals := vals\<rparr>) }"

section \<open>Snapshots\<close>

text \<open>\<open>rollback_to\<close> on one table: pop the log down to a length; \<open>pop\<close> on an empty log fails.\<close>

function uf_rollback_to :: "'a vals_and_bindings \<Rightarrow> uint \<Rightarrow> 'a vals_and_bindings option" where
  "uf_rollback_to vb len =
     (if length (vb_bindings vb) \<noteq> len
      then (case vec_pop (vb_bindings vb) of
              None \<Rightarrow> None
            | Some ((vid, old_v), bindings) \<Rightarrow>
                (case sim_insert (vb_vals vb) vid old_v of
                   None \<Rightarrow> None
                 | Some (_, vals) \<Rightarrow> uf_rollback_to (vb\<lparr>vb_vals := vals, vb_bindings := bindings\<rparr>) len))
      else Some vb)"
  by pat_completeness auto
termination
  by (relation "measure (\<lambda>(vb, len). length (vb_bindings vb))") (auto simp: vec_pop_def split: if_splits)

declare uf_rollback_to.simps [simp del]

text \<open>The kinds of integers and floats a literal can have.\<close>

datatype int_ty = TyI | TyI8 | TyI16 | TyI32 | TyI64

datatype uint_ty = TyU | TyU8 | TyU16 | TyU32 | TyU64

datatype int_var_value = IntType int_ty | UintType uint_ty

datatype float_ty = TyF32 | TyF64

record 't ty_bounds =
  lb :: "'t option"
  ub :: "'t option"

record ('t, 'vo, 'so) infer_ctxt =
  ty_var_bindings :: "'t ty_bounds vals_and_bindings"
  ty_var_counter :: uint
  int_var_bindings :: "int_var_value option vals_and_bindings"
  int_var_counter :: uint
  float_var_bindings :: "float_ty option vals_and_bindings"
  float_var_counter :: uint
  region_vars :: "('vo, 'so) region_var_bindings"

record snapshot =
  ty_var_bindings_len :: uint
  int_var_bindings_len :: uint
  float_var_bindings_len :: uint
  region_vars_snapshot :: uint

definition new_infer_ctxt :: "('t, 'vo, 'so) infer_ctxt" where
  "new_infer_ctxt =
     \<lparr>ty_var_bindings = new_vals_and_bindings, ty_var_counter = 0,
      int_var_bindings = new_vals_and_bindings, int_var_counter = 0,
      float_var_bindings = new_vals_and_bindings, float_var_counter = 0,
      region_vars = new_region_var_bindings\<rparr>"

definition infer_in_snapshot :: "('t, 'vo, 'so) infer_ctxt \<Rightarrow> bool" where
  "infer_in_snapshot cx = in_snapshot (region_vars cx)"

definition infer_start_snapshot :: "('t, 'vo, 'so) infer_ctxt \<Rightarrow> snapshot \<times> ('t, 'vo, 'so) infer_ctxt" where
  "infer_start_snapshot cx =
     (let (n, rvb) = start_snapshot (region_vars cx)
      in (\<lparr>ty_var_bindings_len = length (vb_bindings (ty_var_bindings cx)),
           int_var_bindings_len = length (vb_bindings (int_var_bindings cx)),
           float_var_bindings_len = length (vb_bindings (float_var_bindings cx)),
           region_vars_snapshot = n\<rparr>, cx\<lparr>region_vars := rvb\<rparr>))"

definition infer_rollback_to :: "('t, 'vo, 'so) infer_ctxt \<Rightarrow> snapshot \<Rightarrow> ('t, 'vo, 'so) infer_ctxt option" where
  "infer_rollback_to cx snapshot =
     do { tys \<leftarrow> uf_rollback_to (ty_var_bindings cx) (ty_var_bindings_len snapshot);
          ints \<leftarrow> uf_rollback_to (int_var_bindings cx) (int_var_bindings_len snapshot);
          floats \<leftarrow> uf_rollback_to (float_var_bindings cx) (float_var_bindings_len snapshot);
          rvb \<leftarrow> rollback_to (region_vars cx) (region_vars_snapshot snapshot);
          Some (cx\<lparr>ty_var_bindings := tys, int_var_bindings := ints, float_var_bindings := floats,
                   region_vars := rvb\<rparr>) }"

type_synonym ('cx, 'e, 'r) attempt = "'cx \<Rightarrow> (('e + 'r) \<times> 'cx) option"

text \<open>\<open>try\<close>, \<open>commit\<close> and \<open>probe\<close> of a closure.\<close>

definition infer_try ::
  "(('t, 'vo, 'so) infer_ctxt, 'e, 'r) attempt \<Rightarrow> (('t, 'vo, 'so) infer_ctxt, 'e, 'r) attempt" where
  "infer_try f cx =
     (let (snapshot, cx1) = infer_start_snapshot cx
      in do { (r, cx2) \<leftarrow> f cx1;
              case r of
                Inr _ \<Rightarrow> Some (r, cx2)
              | Inl _ \<Rightarrow> do { cx3 \<leftarrow> infer_rollback_to cx2 snapshot; Some (r, cx3) } })"

definition infer_commit ::
  "(('t, 'vo, 'so) infer_ctxt, 'e, 'r) attempt \<Rightarrow> (('t, 'vo, 'so) infer_ctxt, 'e, 'r) attempt" where
  "infer_commit f cx =
     (if infer_in_snapshot cx then None
      else do { (r, cx1) \<leftarrow> infer_try f cx;
                Some (r, cx1\<lparr>ty_var_bindings := (ty_var_bindings cx1)\<lparr>vb_bindings := []\<rparr>,
                             int_var_bindings := (int_var_bindings cx1)\<lparr>vb_bindings := []\<rparr>,
                             region_vars := commit (region_vars cx1)\<rparr>) })"

definition infer_probe ::
  "(('t, 'vo, 'so) infer_ctxt, 'e, 'r) attempt \<Rightarrow> (('t, 'vo, 'so) infer_ctxt, 'e, 'r) attempt" where
  "infer_probe f cx =
     (let (snapshot, cx1) = infer_start_snapshot cx
      in do { (r, cx2) \<leftarrow> f cx1;
              cx3 \<leftarrow> infer_rollback_to cx2 snapshot;
              Some (r, cx3) })"

definition next_ty_var_id :: "('t, 'vo, 'so) infer_ctxt \<Rightarrow> (uint \<times> ('t, 'vo, 'so) infer_ctxt) option" where
  "next_ty_var_id cx =
     (let id = ty_var_counter cx; tys = ty_var_bindings cx
      in do { (_, vals) \<leftarrow> sim_insert (vb_vals tys) id (Root \<lparr>lb = None, ub = None\<rparr> 0);
              Some (id, cx\<lparr>ty_var_counter := id + 1, ty_var_bindings := tys\<lparr>vb_vals := vals\<rparr>\<rparr>) })"

definition next_int_var_id :: "('t, 'vo, 'so) infer_ctxt \<Rightarrow> (uint \<times> ('t, 'vo, 'so) infer_ctxt) option" where
  "next_int_var_id cx =
     do { (id, counter, bindings) \<leftarrow> next_simple_var (int_var_counter cx) (int_var_bindings cx);
          Some (id, cx\<lparr>int_var_counter := counter, int_var_bindings := bindings\<rparr>) }"

definition next_float_var_id :: "('t, 'vo, 'so) infer_ctxt \<Rightarrow> (uint \<times> ('t, 'vo, 'so) infer_ctxt) option" where
  "next_float_var_id cx =
     do { (id, counter, bindings) \<leftarrow> next_simple_var (float_var_counter cx) (float_var_bindings cx);
          Some (id, cx\<lparr>float_var_counter := counter, float_var_bindings := bindings\<rparr>) }"

text \<open>Unification of integer and float variables in the context.\<close>

datatype simple_type_err =
    terr_int_mismatch "int_var_value expected_found"
  | terr_float_mismatch "float_ty expected_found"

definition int_vars ::
  "bool \<Rightarrow> uint \<Rightarrow> uint \<Rightarrow> (('t, 'vo, 'so) infer_ctxt, simple_type_err, unit) attempt" where
  "int_vars a_is_expected a b cx =
     do { (r, vb) \<leftarrow> simple_vars terr_int_mismatch a_is_expected (int_var_bindings cx) a b;
          Some (r, cx\<lparr>int_var_bindings := vb\<rparr>) }"

definition int_var_t ::
  "bool \<Rightarrow> uint \<Rightarrow> int_var_value \<Rightarrow> (('t, 'vo, 'so) infer_ctxt, simple_type_err, unit) attempt" where
  "int_var_t a_is_expected a b cx =
     do { (r, vb) \<leftarrow> simple_var_t terr_int_mismatch a_is_expected (int_var_bindings cx) a b;
          Some (r, cx\<lparr>int_var_bindings := vb\<rparr>) }"

definition float_vars ::
  "bool \<Rightarrow> uint \<Rightarrow> uint \<Rightarrow> (('t, 'vo, 'so) infer_ctxt, simple_type_err, unit) attempt" where
  "float_vars a_is_expected a b cx =
     do { (r, vb) \<leftarrow> simple_vars terr_float_mismatch a_is_expected (float_var_bindings cx) a b;
          Some (r, cx\<lparr>float_var_bindings := vb\<rparr>) }"

definition float_var_t ::
  "bool \<Rightarrow> uint \<Rightarrow> float_ty \<Rightarrow> (('t, 'vo, 'so) infer_ctxt, simple_type_err, unit) attempt" where
  "float_var_t a_is_expected a b cx =
     do { (r, vb) \<leftarrow> simple_var_t terr_float_mismatch a_is_expected (float_var_bindings cx) a b;
          Some (r, cx\<lparr>float_var_bindings := vb\<rparr>) }"

section \<open>Representatives\<close>

abbreviation uf_map :: "'a vals_and_bindings \<Rightarrow> uint \<rightharpoonup> 'a uf_value" where
  "uf_map vb \<equiv> sim_abs (vb_vals vb)"

inductive root_of :: "(uint \<rightharpoonup> 'a uf_value) \<Rightarrow> uint \<Rightarrow> uint \<Rightarrow> bool" for m where
  root: "m v = Some (Root pt rk) \<Longrightarrow> root_of m v v"
| step: "m v = Some (Redirect w) \<Longrightarrow> root_of m w r \<Longrightarrow> root_of m v r"

text \<open>Every chain of redirections ends in a root.\<close>

definition uf_ok :: "(uint \<rightharpoonup> 'a uf_value) \<Rightarrow> bool" where
  "uf_ok m \<longleftrightarrow> (\<forall>v \<in> dom m. \<exists>r. root_of m v r)"

lemma root_of_unique: "root_of m v r \<Longrightarrow> root_of m v s \<Longrightarrow> r = s"
proof (induction arbitrary: s rule: root_of.induct)
  case (root v pt rk)
  from root(2) show ?case by cases (use root(1) in auto)
next
  case (step v w r)
  from step(4) show ?case by cases (use step(1,3) in auto)
qed

lemma root_of_root: "root_of m v r \<Longrightarrow> \<exists>pt rk. m r = Some (Root pt rk)"
  by (induction rule: root_of.induct) auto

lemma root_of_self: "m r = Some (Root pt rk) \<Longrightarrow> root_of m r s \<longleftrightarrow> s = r"
  using root_of_unique root_of.root by metis

lemma root_of_dom: "root_of m v r \<Longrightarrow> v \<in> dom m"
  by (erule root_of.cases) auto

text \<open>
  Path compression: an entry on the way may be replaced by a redirection to the root.
\<close>

lemma root_of_compress:
  assumes v: "m v = Some (Redirect w)" "root_of m v r"
    and m': "m' v = Some (Redirect r)" "\<And>u. u \<noteq> v \<Longrightarrow> m' u = m u"
  shows "root_of m' u s \<longleftrightarrow> root_of m u s"
proof
  obtain pt rk where r: "m r = Some (Root pt rk)" using root_of_root [OF v(2)] by blast
  with v(1) have ne: "r \<noteq> v" by auto
  with r m'(2) have r': "root_of m' r r" by (metis root_of.root)
  assume "root_of m u s"
  then show "root_of m' u s"
  proof induction
    case (root u pt rk)
    then have "u \<noteq> v" using v(1) by auto
    with root m'(2) show ?case by (metis root_of.root)
  next
    case (step u w' s)
    show ?case
    proof (cases "u = v")
      case True
      then have "s = r" using root_of_unique [OF v(2)] step root_of.step by metis
      with True show ?thesis using root_of.step [OF m'(1) r'] by simp
    next
      case False
      with step m'(2) show ?thesis by (metis root_of.step)
    qed
  qed
next
  assume "root_of m' u s"
  then show "root_of m u s"
  proof induction
    case (root u pt rk)
    then have "u \<noteq> v" using m'(1) by auto
    with root m'(2) show ?case by (metis root_of.root)
  next
    case (step u w' s)
    show ?case
    proof (cases "u = v")
      case True
      then have "w' = r" using step m'(1) by simp
      with step(3) root_of_self root_of_root [OF v(2)] have "s = r" by metis
      with True v(2) show ?thesis by simp
    next
      case False
      with step m'(2) show ?thesis by (metis root_of.step)
    qed
  qed
qed

text \<open>Linking a root to another one.\<close>

lemma root_of_link:
  assumes a: "m a = Some (Root pa ka)" and b: "m b = Some (Root pb kb)" and ne: "a \<noteq> b"
    and m': "m' a = Some (Redirect b)" "\<And>u. u \<noteq> a \<Longrightarrow> m' u = m u"
  shows "root_of m' u s \<longleftrightarrow> (if root_of m u a then s = b else root_of m u s)"
proof -
  have b': "root_of m' b b" using b ne m'(2) by (metis root_of.root)
  have 1: "root_of m' u (if s = a then b else s)" if "root_of m u s" for u s
    using that
  proof induction
    case (root u pt rk)
    then show ?case using root_of.step [OF m'(1) b'] m'(2) by (metis root_of.root)
  next
    case (step u w s)
    then have "u \<noteq> a" using a by auto
    with step m'(2) show ?case by (metis root_of.step)
  qed
  have 2: "\<exists>s. root_of m u s" if "root_of m' u t" for u t
    using that
  proof induction
    case (root u pt rk)
    then show ?case using m' by (metis option.inject root_of.root uf_value.distinct(1))
  next
    case (step u w t)
    then show ?case using a m'(2) by (metis root_of.intros)
  qed
  show ?thesis
  proof (cases "root_of m u a")
    case True
    then have "root_of m' u b" using 1 [OF True] by simp
    then have "root_of m' u s \<longleftrightarrow> s = b" using root_of_unique by metis
    with True show ?thesis by simp
  next
    case False
    have "root_of m u s" if s: "root_of m' u s"
    proof -
      obtain s' where s': "root_of m u s'" using 2 [OF s] by blast
      with False have "s' \<noteq> a" by auto
      then have "root_of m' u s'" using 1 [OF s'] by simp
      then have "s = s'" by (rule root_of_unique [OF s])
      with s' show ?thesis by simp
    qed
    moreover have "root_of m' u s" if s: "root_of m u s"
      using 1 [OF s] False s by (cases "s = a") auto
    ultimately show ?thesis using False by auto
  qed
qed

lemma root_of_new_value:
  assumes a: "m a = Some (Root pa ka)" and m': "m' a = Some (Root pt rk)" "\<And>u. u \<noteq> a \<Longrightarrow> m' u = m u"
  shows "root_of m' u s \<longleftrightarrow> root_of m u s"
proof
  assume "root_of m' u s"
  then show "root_of m u s"
  proof induction
    case (root u pt rk)
    then show ?case using a m' by (metis root_of.root)
  next
    case (step u w s)
    then have "u \<noteq> a" using m'(1) by auto
    with step m'(2) show ?case by (metis root_of.step)
  qed
next
  assume "root_of m u s"
  then show "root_of m' u s"
  proof induction
    case (root u pt rk)
    then show ?case using m' by (metis root_of.root)
  next
    case (step u w s)
    then have "u \<noteq> a" using a by auto
    with step m'(2) show ?case by (metis root_of.step)
  qed
qed

section \<open>The operations keep and merge classes\<close>

text \<open>Two tables with the same classes and the same values of the classes.\<close>

definition same_classes :: "(uint \<rightharpoonup> 'a uf_value) \<Rightarrow> (uint \<rightharpoonup> 'a uf_value) \<Rightarrow> bool" where
  "same_classes m m' \<longleftrightarrow> dom m' = dom m \<and> (\<forall>u s. root_of m' u s \<longleftrightarrow> root_of m u s) \<and>
     (\<forall>r pt rk. m' r = Some (Root pt rk) \<longleftrightarrow> m r = Some (Root pt rk))"

lemma same_classes_refl [simp]: "same_classes m m"
  by (simp add: same_classes_def)

lemma same_classes_trans: "same_classes m m' \<Longrightarrow> same_classes m' m'' \<Longrightarrow> same_classes m m''"
  by (simp add: same_classes_def)

lemma same_classes_ok: "same_classes m m' \<Longrightarrow> uf_ok m \<Longrightarrow> uf_ok m'"
  by (simp add: same_classes_def uf_ok_def)

lemma same_classes_compress:
  assumes "root_of m v r" "r \<noteq> v"
  shows "same_classes m (m(v \<mapsto> Redirect r))"
proof -
  have "\<exists>w. m v = Some (Redirect w)" using assms by cases auto
  then obtain w where w: "m v = Some (Redirect w)" by blast
  note eq = root_of_compress [OF w assms(1), of "m(v \<mapsto> Redirect r)"]
  show ?thesis unfolding same_classes_def using w by (auto simp: eq)
qed

lemma uf_get_ok:
  assumes "root_of (uf_map vb) v r"
  shows "\<exists>node vb'. uf_get vb v = Some (node, vb') \<and> uf_root node = r \<and>
    uf_map vb r = Some (Root (possible_types node) (uf_rank node)) \<and>
    same_classes (uf_map vb) (uf_map vb') \<and> vb_bindings vb' = vb_bindings vb"
  using assms
proof (induction rule: root_of.induct)
  case (root v pt rk)
  then show ?case by (simp add: uf_get.simps [of vb v] sim_find_abs)
next
  case (step v w r)
  then obtain node vb' where get: "uf_get vb w = Some (node, vb')" and node: "uf_root node = r"
    "uf_map vb r = Some (Root (possible_types node) (uf_rank node))"
    and same: "same_classes (uf_map vb) (uf_map vb')" "vb_bindings vb' = vb_bindings vb" by blast
  show ?case
  proof (cases "r = w")
    case True
    with step(1) get node same show ?thesis by (auto simp: uf_get.simps [of vb v] sim_find_abs)
  next
    case False
    obtain b vals where ins: "sim_insert (vb_vals vb') w (Redirect r) = Some (b, vals)"
      "sim_abs vals = (uf_map vb')(w \<mapsto> Redirect r)"
      using sim_insert_ok [of "vb_vals vb'" w "Redirect r"] by blast
    have "root_of (uf_map vb') w r" using same(1) step(2) by (simp add: same_classes_def)
    then have "same_classes (uf_map vb') (sim_abs vals)"
      unfolding ins(2) using False by (rule same_classes_compress)
    from same_classes_trans [OF same(1) this] step(1) get node same(2) ins(1) False
    show ?thesis by (simp add: uf_get.simps [of vb v] sim_find_abs)
  qed
qed

lemma uf_set_ok:
  assumes "uf_map vb v = Some old"
  shows "\<exists>vb'. uf_set vb v x = Some vb' \<and> uf_map vb' = (uf_map vb)(v \<mapsto> x) \<and>
    vb_bindings vb' = vb_bindings vb @ [(v, old)]"
proof -
  have "sim_get (vb_vals vb) v = Some old" using assms by (simp add: sim_get_def sim_find_abs)
  moreover obtain b vals where "sim_insert (vb_vals vb) v x = Some (b, vals)" "sim_abs vals = (uf_map vb)(v \<mapsto> x)"
    using sim_insert_ok [of "vb_vals vb" v x] by blast
  ultimately show ?thesis by (simp add: uf_set_def)
qed

text \<open>
  The abstract state: which variables are equal, and what is known of the class of a variable.
\<close>

definition equated :: "(uint \<rightharpoonup> 'a uf_value) \<Rightarrow> uint \<Rightarrow> uint \<Rightarrow> bool" where
  "equated m u v \<longleftrightarrow> (\<exists>r. root_of m u r \<and> root_of m v r)"

definition class_value :: "(uint \<rightharpoonup> 'a uf_value) \<Rightarrow> uint \<Rightarrow> 'a \<Rightarrow> bool" where
  "class_value m u t \<longleftrightarrow> (\<exists>r rk. root_of m u r \<and> m r = Some (Root t rk))"

lemma same_classes_abs:
  assumes "same_classes m m'"
  shows "equated m' = equated m" "class_value m' = class_value m"
  using assms by (simp_all add: same_classes_def equated_def class_value_def fun_eq_iff)

text \<open>What \<open>unify\<close> and the following \<open>set\<close> do to the table.\<close>

lemma root_of_merge:
  assumes a: "m a = Some (Root pa ka)" and b: "m b = Some (Root pb kb)" and ne: "a \<noteq> b"
    and m': "m' = m(a \<mapsto> Redirect b, b \<mapsto> Root pt rk)"
  shows "root_of m' u s \<longleftrightarrow> (if root_of m u a then s = b else root_of m u s)"
proof -
  define m1 where "m1 = m(a \<mapsto> Redirect b)"
  have 1: "root_of m1 u s \<longleftrightarrow> (if root_of m u a then s = b else root_of m u s)" for u s
    by (rule root_of_link [OF a b ne]) (simp_all add: m1_def)
  have "root_of m' u s \<longleftrightarrow> root_of m1 u s"
    by (rule root_of_new_value [of _ b pb kb]) (use b ne in \<open>simp_all add: m' m1_def\<close>)
  with 1 show ?thesis by simp
qed

lemma merged_abs:
  assumes a: "m a = Some (Root pa ka)" and b: "m b = Some (Root pb kb)" and ne: "a \<noteq> b"
    and m': "m' = m(a \<mapsto> Redirect b, b \<mapsto> Root pt rk)" and ok: "uf_ok m"
  shows "uf_ok m'" "dom m' = dom m"
    "equated m' u v \<longleftrightarrow> equated m u v \<or> (\<exists>r s. root_of m u r \<and> root_of m v s \<and> {r, s} = {a, b})"
    "class_value m' u t \<longleftrightarrow> (if root_of m u a \<or> root_of m u b then t = pt else class_value m u t)"
proof -
  note eq = root_of_merge [OF a b ne m']
  show dom: "dom m' = dom m" using a b by (auto simp: m')
  show "uf_ok m'" unfolding uf_ok_def dom eq using ok by (auto simp: uf_ok_def)
  have roots: "root_of m x s \<longleftrightarrow> s = r" if "root_of m x r" for x r s
    using that root_of_unique by metis
  show "equated m' u v \<longleftrightarrow> equated m u v \<or> (\<exists>r s. root_of m u r \<and> root_of m v s \<and> {r, s} = {a, b})"
  proof (cases "(\<exists>r. root_of m u r) \<and> (\<exists>s. root_of m v s)")
    case True
    then obtain r s where rs: "root_of m u r" "root_of m v s" by blast
    show ?thesis
      unfolding equated_def eq roots [OF rs(1)] roots [OF rs(2)] by (auto simp: doubleton_eq_iff)
  next
    case False
    then show ?thesis by (auto simp: equated_def eq split: if_splits)
  qed
  show "class_value m' u t \<longleftrightarrow> (if root_of m u a \<or> root_of m u b then t = pt else class_value m u t)"
  proof (cases "\<exists>r. root_of m u r")
    case True
    then obtain r where r: "root_of m u r" by blast
    show ?thesis unfolding class_value_def eq roots [OF r] using ne by (auto simp: m')
  next
    case False
    then show ?thesis by (auto simp: class_value_def eq)
  qed
qed

definition unify_and_set ::
  "'a vals_and_bindings \<Rightarrow> 'a uf_node \<Rightarrow> 'a uf_node \<Rightarrow> 'a \<Rightarrow> 'a vals_and_bindings option" where
  "unify_and_set vb node_a node_b combined =
     do { ((new_root, new_rank), vb3) \<leftarrow> uf_unify vb node_a node_b; uf_set vb3 new_root (Root combined new_rank) }"

lemma redirect_and_set_ok:
  assumes "uf_map vb x = Some (Root px kx)" "uf_map vb y = Some (Root py ky)" "x \<noteq> y"
  shows "\<exists>vb'. (do { vb3 \<leftarrow> uf_set vb x (Redirect y); uf_set vb3 y (Root c rk) }) = Some vb' \<and>
    uf_map vb' = (uf_map vb)(x \<mapsto> Redirect y, y \<mapsto> Root c rk) \<and>
    vb_bindings vb' = vb_bindings vb @ [(x, Root px kx), (y, Root py ky)]"
proof -
  obtain vb3 where 3: "uf_set vb x (Redirect y) = Some vb3" "uf_map vb3 = (uf_map vb)(x \<mapsto> Redirect y)"
    "vb_bindings vb3 = vb_bindings vb @ [(x, Root px kx)]"
    using uf_set_ok [OF assms(1)] by blast
  then have "uf_map vb3 y = Some (Root py ky)" using assms(2,3) by simp
  from uf_set_ok [OF this, of "Root c rk"] 3 show ?thesis by auto
qed

lemma unify_and_set_ok:
  assumes a: "uf_map vb (uf_root na) = Some (Root pa (uf_rank na))"
    and b: "uf_map vb (uf_root nb) = Some (Root pb (uf_rank nb))" and ne: "uf_root na \<noteq> uf_root nb"
  obtains x y px py kx ky rk vb' where "unify_and_set vb na nb c = Some vb'" "{x, y} = {uf_root na, uf_root nb}" "x \<noteq> y"
    "uf_map vb x = Some (Root px kx)" "uf_map vb y = Some (Root py ky)"
    "uf_map vb' = (uf_map vb)(x \<mapsto> Redirect y, y \<mapsto> Root c rk)"
    "vb_bindings vb' = vb_bindings vb @ [(x, Root px kx), (y, Root py ky)]"
proof (cases "uf_rank na < uf_rank nb")
  case True
  from redirect_and_set_ok [OF a b ne, of c "uf_rank nb"] that [OF _ _ ne a b] True show ?thesis
    by (auto simp: unify_and_set_def uf_unify_def)
next
  case False
  let ?rk = "if uf_rank na > uf_rank nb then uf_rank na else uf_rank na + 1"
  from redirect_and_set_ok [OF b a ne [symmetric], of c ?rk] that [OF _ _ ne [symmetric] b a] False show ?thesis
    by (auto simp: unify_and_set_def uf_unify_def split: if_splits)
qed

definition known_value :: "'t option \<Rightarrow> 't option \<Rightarrow> 't option" where
  "known_value ta tb = (case ta of None \<Rightarrow> tb | Some v \<Rightarrow> Some v)"

lemma simple_vars_alt:
  "simple_vars e ae vb a b =
     do { (na, vb1) \<leftarrow> uf_get vb a;
          (nb, vb2) \<leftarrow> uf_get vb1 b;
          if uf_root na = uf_root nb then Some (Inr (), vb2)
          else if possible_types na \<noteq> None \<and> possible_types nb \<noteq> None \<and> possible_types na \<noteq> possible_types nb
          then Some (mk_err e ae (the (possible_types na)) (the (possible_types nb)), vb2)
          else do { vb4 \<leftarrow> unify_and_set vb2 na nb (known_value (possible_types na) (possible_types nb));
                    Some (Inr (), vb4) } }"
  by (auto simp: simple_vars_def unify_and_set_def known_value_def Let_def bind_assoc split_beta split: option.splits
      intro!: Option.bind_cong)

lemma root_of_iff: "root_of m a r \<Longrightarrow> root_of m a s \<longleftrightarrow> s = r"
  using root_of_unique by metis

lemma equated_root: "root_of m a r \<Longrightarrow> equated m u a \<longleftrightarrow> root_of m u r"
  unfolding equated_def using root_of_unique by metis

lemma class_value_root: "root_of m a r \<Longrightarrow> m r = Some (Root t rk) \<Longrightarrow> class_value m a t' \<longleftrightarrow> t' = t"
  by (auto simp: class_value_def root_of_iff)

lemma equated_trans: "equated m u v \<Longrightarrow> equated m v w \<Longrightarrow> equated m u w"
  unfolding equated_def using root_of_unique by metis

lemma equated_sym: "equated m u v \<Longrightarrow> equated m v u"
  unfolding equated_def by blast

lemma equated_value: "equated m u v \<Longrightarrow> class_value m u t \<longleftrightarrow> class_value m v t"
  unfolding equated_def class_value_def using root_of_unique by metis

lemma two_gets_ok:
  assumes a: "root_of (uf_map vb) a ra" "uf_map vb ra = Some (Root ta ka)"
    and b: "root_of (uf_map vb) b rb" "uf_map vb rb = Some (Root tb kb)"
  obtains na nb vb1 vb2 where "uf_get vb a = Some (na, vb1)" "uf_get vb1 b = Some (nb, vb2)"
    "uf_root na = ra" "possible_types na = ta" "uf_rank na = ka"
    "uf_root nb = rb" "possible_types nb = tb" "uf_rank nb = kb"
    "same_classes (uf_map vb) (uf_map vb2)"
proof -
  obtain na vb1 where 1: "uf_get vb a = Some (na, vb1)" "uf_root na = ra"
    "uf_map vb ra = Some (Root (possible_types na) (uf_rank na))" "same_classes (uf_map vb) (uf_map vb1)"
    using uf_get_ok [OF a(1)] by blast
  then have "root_of (uf_map vb1) b rb" using b(1) by (simp add: same_classes_def)
  from uf_get_ok [OF this] obtain nb vb2 where 2: "uf_get vb1 b = Some (nb, vb2)" "uf_root nb = rb"
    "uf_map vb1 rb = Some (Root (possible_types nb) (uf_rank nb))" "same_classes (uf_map vb1) (uf_map vb2)"
    by blast
  from 1(4) 2(3) b(2) have "tb = possible_types nb \<and> kb = uf_rank nb" by (simp add: same_classes_def)
  with 1 2 a(2) same_classes_trans [OF 1(4) 2(4)] show thesis by (intro that [of na vb1 nb vb2]) auto
qed

text \<open>
  C14. Unification of two variables that have no subtyping relates exactly their classes.  On a
  table whose redirections end it returns; if the values known of the two classes agree, or
  one is unknown, the classes are merged and the new class has the known value; otherwise the
  result is the mismatch error with expected and found in the right order, and no class and no
  value has changed, whatever paths were compressed on the way.
\<close>

theorem simple_vars_correct:
  assumes ok: "uf_ok (uf_map vb)" and a: "class_value (uf_map vb) a ta" and b: "class_value (uf_map vb) b tb"
  shows "\<exists>res vb'. simple_vars to_type_err a_is_expected vb a b = Some (res, vb') \<and>
    uf_ok (uf_map vb') \<and> dom (uf_map vb') = dom (uf_map vb) \<and>
    (if ta = None \<or> tb = None \<or> ta = tb
     then res = Inr () \<and>
       (\<forall>u v. equated (uf_map vb') u v \<longleftrightarrow> equated (uf_map vb) u v \<or>
          equated (uf_map vb) u a \<and> equated (uf_map vb) v b \<or> equated (uf_map vb) u b \<and> equated (uf_map vb) v a) \<and>
       (\<forall>u t. class_value (uf_map vb') u t \<longleftrightarrow>
          (if equated (uf_map vb) u a \<or> equated (uf_map vb) u b
           then t = known_value ta tb else class_value (uf_map vb) u t))
     else res = Inl (to_type_err (if a_is_expected then ExpectedFound (the ta) (the tb) else ExpectedFound (the tb) (the ta))) \<and>
       equated (uf_map vb') = equated (uf_map vb) \<and> class_value (uf_map vb') = class_value (uf_map vb))"
proof -
  obtain ra ka where ra: "root_of (uf_map vb) a ra" "uf_map vb ra = Some (Root ta ka)"
    using a by (auto simp: class_value_def)
  obtain rb kb where rb: "root_of (uf_map vb) b rb" "uf_map vb rb = Some (Root tb kb)"
    using b by (auto simp: class_value_def)
  obtain na nb vb1 vb2 where get: "uf_get vb a = Some (na, vb1)" "uf_get vb1 b = Some (nb, vb2)"
    and na: "uf_root na = ra" "possible_types na = ta" "uf_rank na = ka"
    and nb: "uf_root nb = rb" "possible_types nb = tb" "uf_rank nb = kb"
    and same: "same_classes (uf_map vb) (uf_map vb2)" by (rule two_gets_ok [OF ra rb])
  note abs = same_classes_abs [OF same]
  have ok2: "uf_ok (uf_map vb2)" "dom (uf_map vb2) = dom (uf_map vb)"
    using same_classes_ok [OF same ok] same by (simp_all add: same_classes_def)
  note eq = equated_root [OF ra(1)] equated_root [OF rb(1)]
  show ?thesis
  proof (cases "ra = rb")
    case True
    then have tab: "ta = tb" using ra(2) rb(2) by simp
    have "equated (uf_map vb) a b" using True ra(1) rb(1) by (auto simp: equated_def)
    then have "equated (uf_map vb) u v" if "equated (uf_map vb) u a \<and> equated (uf_map vb) v b \<or>
        equated (uf_map vb) u b \<and> equated (uf_map vb) v a" for u v
      using that equated_trans equated_sym by metis
    moreover have "class_value (uf_map vb) u t \<longleftrightarrow> t = ta" if "root_of (uf_map vb) u ra" for u t
      using class_value_root [OF that ra(2)] .
    ultimately show ?thesis
      using get True na nb ok2 tab
      by (auto simp: simple_vars_alt abs eq known_value_def split: option.split)
  next
    case False
    show ?thesis
    proof (cases "ta = None \<or> tb = None \<or> ta = tb")
      case True
      let ?c = "known_value ta tb"
      have 2: "uf_map vb2 ra = Some (Root ta ka)" "uf_map vb2 rb = Some (Root tb kb)"
        using same ra rb by (simp_all add: same_classes_def)
      obtain x y px py kx ky rk vb' where
        un: "unify_and_set vb2 na nb ?c = Some vb'" "{x, y} = {ra, rb}" "x \<noteq> y"
        and xy: "uf_map vb2 x = Some (Root px kx)" "uf_map vb2 y = Some (Root py ky)"
        and m': "uf_map vb' = (uf_map vb2)(x \<mapsto> Redirect y, y \<mapsto> Root ?c rk)"
        by (rule unify_and_set_ok [of vb2 na ta nb tb ?c]) (use na nb 2 False in auto)
      note merged = merged_abs [OF xy un(3) m' ok2(1)]
      have roots: "root_of (uf_map vb2) = root_of (uf_map vb)"
        using same by (simp add: same_classes_def fun_eq_iff)
      have res: "simple_vars to_type_err a_is_expected vb a b = Some (Inr (), vb')"
        using get na nb False True un(1) by (auto simp: simple_vars_alt)
      have "(\<exists>r s. root_of (uf_map vb) u r \<and> root_of (uf_map vb) v s \<and> {r, s} = {x, y}) \<longleftrightarrow>
          root_of (uf_map vb) u ra \<and> root_of (uf_map vb) v rb \<or> root_of (uf_map vb) u rb \<and> root_of (uf_map vb) v ra"
        for u v unfolding un(2) by (auto simp: doubleton_eq_iff)
      moreover have "(root_of (uf_map vb) u x \<or> root_of (uf_map vb) u y) \<longleftrightarrow>
          root_of (uf_map vb) u ra \<or> root_of (uf_map vb) u rb" for u
        using un(2) by (auto simp: doubleton_eq_iff)
      ultimately show ?thesis
        using True merged ok2(2) unfolding res eq by (simp add: abs roots)
    next
      case ne: False
      then have "simple_vars to_type_err a_is_expected vb a b =
          Some (mk_err to_type_err a_is_expected (the ta) (the tb), vb2)"
        using get na nb False by (auto simp: simple_vars_alt)
      with ne ok2 show ?thesis by (simp add: mk_err_def abs)
    qed
  qed
qed

theorem simple_vars_correct_witness:
  "\<exists>res vb'. simple_vars terr_int_mismatch True
      \<lparr>vb_vals = \<lparr>sim_v = [Some (Root (Some (IntType TyI8)) 0), Some (Root None 1), Some (Redirect 1)]\<rparr>, vb_bindings = []\<rparr>
      0 2 = Some (res, vb') \<and> res = Inr () \<and> class_value (uf_map vb') 2 (Some (IntType TyI8))"
proof -
  let ?vb = "\<lparr>vb_vals = \<lparr>sim_v = [Some (Root (Some (IntType TyI8)) 0), Some (Root None 1), Some (Redirect 1)]\<rparr>,
    vb_bindings = []\<rparr>"
  have m: "uf_map ?vb 0 = Some (Root (Some (IntType TyI8)) 0)" "uf_map ?vb 1 = Some (Root None 1)"
    "uf_map ?vb 2 = Some (Redirect 1)" and dom: "dom (uf_map ?vb) = {0, 1, 2}"
    by (auto simp: sim_abs_def nth_Cons' split: if_splits)
  note r = root_of.root [of "uf_map ?vb", OF m(1)] root_of.root [of "uf_map ?vb", OF m(2)]
  note r2 = root_of.step [of "uf_map ?vb", OF m(3) r(2)]
  have "uf_ok (uf_map ?vb)" unfolding uf_ok_def dom using r r2 by blast
  moreover have "class_value (uf_map ?vb) 0 (Some (IntType TyI8))" "class_value (uf_map ?vb) 2 None"
    unfolding class_value_def using m r r2 by blast+
  ultimately have "\<exists>res vb'. simple_vars terr_int_mismatch True ?vb 0 2 = Some (res, vb') \<and> res = Inr () \<and>
      (\<forall>u t. class_value (uf_map vb') u t \<longleftrightarrow> (if equated (uf_map ?vb) u 0 \<or> equated (uf_map ?vb) u 2
         then t = Some (IntType TyI8) else class_value (uf_map ?vb) u t))"
    using simple_vars_correct [of ?vb 0 "Some (IntType TyI8)" 2 None terr_int_mismatch True]
    by (auto simp: known_value_def)
  moreover have "equated (uf_map ?vb) 2 2" unfolding equated_def using r2 by blast
  ultimately show ?thesis by auto
qed

text \<open>
  C17. Giving a value to a variable sets the value of its class if it was unknown, accepts the
  value the class already has, and reports any other as a mismatch without changing a class.
\<close>

theorem simple_var_t_correct:
  assumes ok: "uf_ok (uf_map vb)" and a: "class_value (uf_map vb) a ta"
  shows "\<exists>res vb'. simple_var_t to_type_err a_is_expected vb a b = Some (res, vb') \<and>
    uf_ok (uf_map vb') \<and> equated (uf_map vb') = equated (uf_map vb) \<and>
    (if ta = None \<or> ta = Some b
     then res = Inr () \<and> (\<forall>u t. class_value (uf_map vb') u t \<longleftrightarrow>
            (if equated (uf_map vb) u a then t = Some b else class_value (uf_map vb) u t))
     else res = Inl (to_type_err (if a_is_expected then ExpectedFound (the ta) b else ExpectedFound b (the ta))) \<and>
       class_value (uf_map vb') = class_value (uf_map vb))"
proof -
  obtain ra ka where ra: "root_of (uf_map vb) a ra" "uf_map vb ra = Some (Root ta ka)"
    using a by (auto simp: class_value_def)
  obtain na vb1 where get: "uf_get vb a = Some (na, vb1)" and na: "uf_root na = ra" "possible_types na = ta"
    and same: "same_classes (uf_map vb) (uf_map vb1)"
    using uf_get_ok [OF ra(1)] ra(2) by auto
  note abs = same_classes_abs [OF same]
  have ok1: "uf_ok (uf_map vb1)" by (rule same_classes_ok [OF same ok])
  note eq = equated_root [OF ra(1)]
  have val: "class_value (uf_map vb) u t \<longleftrightarrow> t = ta" if "root_of (uf_map vb) u ra" for u t
    using class_value_root [OF that ra(2)] .
  show ?thesis
  proof (cases ta)
    case (Some v)
    then show ?thesis using get na ok1 val by (simp add: simple_var_t_def mk_err_def abs eq)
  next
    case None
    have "uf_map vb1 ra = Some (Root ta ka)" using same ra(2) by (simp add: same_classes_def)
    from uf_set_ok [OF this, of "Root (Some b) (uf_rank na)"] obtain vb' where
      set: "uf_set vb1 ra (Root (Some b) (uf_rank na)) = Some vb'"
      "uf_map vb' = (uf_map vb1)(ra \<mapsto> Root (Some b) (uf_rank na))" by blast
    have roots: "root_of (uf_map vb') u s \<longleftrightarrow> root_of (uf_map vb) u s" for u s
      using root_of_new_value [of "uf_map vb1" ra ta ka "uf_map vb'"] set(2) same ra(2)
      by (simp add: same_classes_def)
    have "dom (uf_map vb') = dom (uf_map vb)" using set(2) same ra(2) by (auto simp: same_classes_def)
    then have "uf_ok (uf_map vb')" using ok by (simp add: uf_ok_def roots)
    moreover have "equated (uf_map vb') = equated (uf_map vb)" by (simp add: equated_def fun_eq_iff roots)
    moreover have "class_value (uf_map vb') u t \<longleftrightarrow>
        (if root_of (uf_map vb) u ra then t = Some b else class_value (uf_map vb) u t)" for u t
    proof (cases "root_of (uf_map vb) u ra")
      case True
      then show ?thesis unfolding class_value_def roots root_of_iff [OF True] using set(2) by auto
    next
      case False
      then have "uf_map vb' r = Some (Root t rk) \<longleftrightarrow> uf_map vb r = Some (Root t rk)"
        if "root_of (uf_map vb) u r" for r rk using that same by (auto simp: set(2) same_classes_def)
      with False show ?thesis by (auto simp: class_value_def roots)
    qed
    ultimately show ?thesis using get na None set(1) by (simp add: simple_var_t_def eq)
  qed
qed

theorem simple_var_t_correct_witness:
  "\<exists>vb'. simple_var_t terr_int_mismatch False
      \<lparr>vb_vals = \<lparr>sim_v = [Some (Root (Some (IntType TyI8)) 0)]\<rparr>, vb_bindings = []\<rparr> 0 (UintType TyU)
    = Some (Inl (terr_int_mismatch (ExpectedFound (UintType TyU) (IntType TyI8))), vb')"
proof -
  let ?vb = "\<lparr>vb_vals = \<lparr>sim_v = [Some (Root (Some (IntType TyI8)) 0)]\<rparr>, vb_bindings = []\<rparr>"
  have m: "uf_map ?vb 0 = Some (Root (Some (IntType TyI8)) 0)" and dom: "dom (uf_map ?vb) = {0}"
    by (auto simp: sim_abs_def split: if_splits)
  then have r: "root_of (uf_map ?vb) 0 0" by (intro root_of.root)
  then have "uf_ok (uf_map ?vb)" unfolding uf_ok_def dom by blast
  moreover have "class_value (uf_map ?vb) 0 (Some (IntType TyI8))" unfolding class_value_def using m r by blast
  ultimately show ?thesis
    using simple_var_t_correct [of ?vb 0 "Some (IntType TyI8)" terr_int_mismatch False "UintType TyU"] by auto
qed

end
