(* ===== verification/UnifySnapshots.thy ===== *)
theory UnifySnapshots
  imports Unify
begin

text \<open>
  What undoing an attempt does to the union-find tables of \<open>infer/unify.rs\<close>.  Assignments are
  logged and undone; path compression is not logged.  The roots and their values are always
  restored, the redirections are not.
\<close>

section \<open>Undoing the log\<close>

fun undo_log_entries :: "(uint \<times> 'a uf_value) list \<Rightarrow> (uint \<rightharpoonup> 'a uf_value) \<Rightarrow> (uint \<rightharpoonup> 'a uf_value)" where
  "undo_log_entries [] m = m"
| "undo_log_entries ((v, old) # log) m = (undo_log_entries log m)(v \<mapsto> old)"

lemma undo_log_entries_snoc: "undo_log_entries (log @ [(v, old)]) m = undo_log_entries log (m(v \<mapsto> old))"
  by (induction log) auto

lemma uf_rollback_to_ok:
  "vb_bindings vb = bs @ log \<Longrightarrow> \<exists>vb'. uf_rollback_to vb (length bs) = Some vb' \<and> vb_bindings vb' = bs \<and>
     uf_map vb' = undo_log_entries log (uf_map vb)"
proof (induction log arbitrary: vb rule: rev_induct)
  case Nil
  then show ?case by (simp add: uf_rollback_to.simps)
next
  case (snoc e log)
  obtain v old where e: "e = (v, old)" by fastforce
  obtain b vals where ins: "sim_insert (vb_vals vb) v old = Some (b, vals)" "sim_abs vals = (uf_map vb)(v \<mapsto> old)"
    using sim_insert_ok [of "vb_vals vb" v old] by blast
  have pop: "vec_pop (vb_bindings vb) = Some ((v, old), bs @ log)"
    using snoc.prems by (simp add: e vec_pop_def butlast_append)
  have len: "length (vb_bindings vb) \<noteq> length bs" using snoc.prems by simp
  have "uf_rollback_to vb (length bs) = uf_rollback_to (vb\<lparr>vb_vals := vals, vb_bindings := bs @ log\<rparr>) (length bs)"
    using len by (simp add: uf_rollback_to.simps [of vb] pop ins(1))
  moreover have "\<exists>vb'. uf_rollback_to (vb\<lparr>vb_vals := vals, vb_bindings := bs @ log\<rparr>) (length bs) = Some vb' \<and>
      vb_bindings vb' = bs \<and> uf_map vb' = undo_log_entries log (sim_abs vals)"
    using snoc.IH [of "vb\<lparr>vb_vals := vals, vb_bindings := bs @ log\<rparr>"] by simp
  ultimately show ?case unfolding ins(2) e undo_log_entries_snoc by simp
qed

section \<open>Changes since a snapshot\<close>

text \<open>
  \<open>redirected m n\<close>: the tables differ only in redirections, and those of \<open>n\<close> that differ lead
  to a root of \<open>m\<close>.
\<close>

definition is_root :: "(uint \<rightharpoonup> 'a uf_value) \<Rightarrow> uint \<Rightarrow> bool" where
  "is_root m v \<longleftrightarrow> (\<exists>pt rk. m v = Some (Root pt rk))"

definition redirected :: "(uint \<rightharpoonup> 'a uf_value) \<Rightarrow> (uint \<rightharpoonup> 'a uf_value) \<Rightarrow> bool" where
  "redirected m n \<longleftrightarrow> (\<forall>v. n v = m v \<or> (\<exists>w w'. m v = Some (Redirect w) \<and> n v = Some (Redirect w') \<and> is_root m w'))"

lemma redirected_dom: "redirected m n \<Longrightarrow> dom n = dom m"
  unfolding redirected_def dom_def by (auto; metis option.distinct(1))

lemma redirected_root: "redirected m n \<Longrightarrow> n v = Some (Root pt rk) \<longleftrightarrow> m v = Some (Root pt rk)"
  unfolding redirected_def by (metis option.inject uf_value.distinct(1))

lemma redirected_ok:
  assumes "redirected m n" "uf_ok m"
  shows "uf_ok n"
  unfolding uf_ok_def redirected_dom [OF assms(1)]
proof
  fix v assume "v \<in> dom m"
  then obtain r where "root_of m v r" using assms(2) by (auto simp: uf_ok_def)
  then show "\<exists>r. root_of n v r"
  proof induction
    case (root v pt rk)
    then show ?case using redirected_root [OF assms(1)] root_of.root by metis
  next
    case (step v w r)
    show ?case
    proof (cases "n v = m v")
      case True
      with step show ?thesis by (metis root_of.step)
    next
      case False
      then obtain w' where w': "n v = Some (Redirect w')" "is_root m w'" using assms(1) by (auto simp: redirected_def)
      then obtain pt rk where "n w' = Some (Root pt rk)"
        using redirected_root [OF assms(1)] by (auto simp: is_root_def)
      from root_of.step [OF w'(1) root_of.root [of n, OF this]] show ?thesis by blast
    qed
  qed
qed

text \<open>The invariant between the table at a snapshot and the table now.\<close>

definition since :: "'a vals_and_bindings \<Rightarrow> 'a vals_and_bindings \<Rightarrow> bool" where
  "since vb0 vb \<longleftrightarrow> uf_ok (uf_map vb) \<and> dom (uf_map vb) = dom (uf_map vb0) \<and>
     (\<forall>v. is_root (uf_map vb) v \<longrightarrow> is_root (uf_map vb0) v) \<and>
     (\<exists>log. vb_bindings vb = vb_bindings vb0 @ log \<and> redirected (uf_map vb0) (undo_log_entries log (uf_map vb)))"

lemma since_refl: "uf_ok (uf_map vb) \<Longrightarrow> since vb vb"
  by (auto simp: since_def redirected_def intro: exI [of _ "[]"])

text \<open>Path compression changes redirections to redirections to the root that was found.\<close>

lemma uf_get_changes:
  assumes "root_of (uf_map vb) v r" "uf_get vb v = Some (node, vb')"
  shows "uf_map vb' u = uf_map vb u \<or> (\<exists>w. uf_map vb u = Some (Redirect w) \<and> uf_map vb' u = Some (Redirect r))"
  using assms
proof (induction arbitrary: node vb' rule: root_of.induct)
  case (root v pt rk)
  then show ?case by (simp add: uf_get.simps [of vb v] sim_find_abs)
next
  case (step v w r)
  obtain node1 vb1 where get: "uf_get vb w = Some (node1, vb1)" "uf_root node1 = r"
    and same: "same_classes (uf_map vb) (uf_map vb1)" using uf_get_ok [OF step(2)] by blast
  obtain b vals where ins: "sim_insert (vb_vals vb1) w (Redirect r) = Some (b, vals)"
    "sim_abs vals = (uf_map vb1)(w \<mapsto> Redirect r)" using sim_insert_ok [of "vb_vals vb1" w "Redirect r"] by blast
  have eq: "vb' = (if r \<noteq> w then vb1\<lparr>vb_vals := vals\<rparr> else vb1)"
    using step(4) step(1) get ins by (simp add: uf_get.simps [of vb v] sim_find_abs split: if_splits)
  have w: "\<exists>w'. uf_map vb w = Some (Redirect w')" if "r \<noteq> w" using step(2) that by cases auto
  show ?case
  proof (cases "r \<noteq> w \<and> u = w")
    case True
    with w ins eq show ?thesis by auto
  next
    case False
    with step.IH [OF get(1)] ins eq show ?thesis by auto
  qed
qed

lemma undo_log_entries_outside:
  "v \<notin> fst ` set log \<Longrightarrow> undo_log_entries log m v = m v"
  by (induction log) auto

lemma undo_log_entries_inside:
  "v \<in> fst ` set log \<Longrightarrow> undo_log_entries log m v = undo_log_entries log m' v"
  by (induction log) force+

lemma since_get:
  assumes "since vb0 vb" "root_of (uf_map vb) v r" "uf_get vb v = Some (node, vb')"
  shows "since vb0 vb'"
proof -
  obtain log where log: "vb_bindings vb = vb_bindings vb0 @ log"
    "redirected (uf_map vb0) (undo_log_entries log (uf_map vb))" using assms(1) by (auto simp: since_def)
  have same: "same_classes (uf_map vb) (uf_map vb')" "vb_bindings vb' = vb_bindings vb"
    using uf_get_ok [OF assms(2)] assms(3) by auto
  have root: "is_root (uf_map vb0) r"
    using assms(1) root_of_root [OF assms(2)] by (auto simp: since_def is_root_def)
  let ?n = "undo_log_entries log (uf_map vb)" and ?n' = "undo_log_entries log (uf_map vb')"
  have step: "?n' u = ?n u \<or> (\<exists>w. ?n u = Some (Redirect w) \<and> ?n' u = Some (Redirect r))" for u
  proof (cases "u \<in> fst ` set log")
    case True
    have "?n' u = ?n u" by (rule undo_log_entries_inside [OF True])
    then show ?thesis ..
  next
    case False
    then show ?thesis using uf_get_changes [OF assms(2,3), of u] by (simp add: undo_log_entries_outside)
  qed
  have "redirected (uf_map vb0) ?n'"
    unfolding redirected_def
  proof
    fix u
    show "?n' u = uf_map vb0 u \<or> (\<exists>w w'. uf_map vb0 u = Some (Redirect w) \<and> ?n' u = Some (Redirect w') \<and> is_root (uf_map vb0) w')"
      using step [of u] log(2) [unfolded redirected_def, rule_format, of u] root by auto
  qed
  moreover have "is_root (uf_map vb') u \<longleftrightarrow> is_root (uf_map vb) u" for u
    using same(1) by (simp add: same_classes_def is_root_def)
  ultimately show ?thesis
    using assms(1) same log(1) same_classes_ok [OF same(1)] unfolding since_def
    by (auto simp: same_classes_def)
qed

text \<open>Assignments that are logged.\<close>

lemma since_logged:
  assumes "since vb0 vb" "vb_bindings vb' = vb_bindings vb @ es" "undo_log_entries es (uf_map vb') = uf_map vb"
    "\<And>u. is_root (uf_map vb') u \<Longrightarrow> is_root (uf_map vb) u" "dom (uf_map vb') = dom (uf_map vb)" "uf_ok (uf_map vb')"
  shows "since vb0 vb'"
proof -
  obtain log where log: "vb_bindings vb = vb_bindings vb0 @ log"
    "redirected (uf_map vb0) (undo_log_entries log (uf_map vb))" using assms(1) by (auto simp: since_def)
  have "undo_log_entries (log @ es) m = undo_log_entries log (undo_log_entries es m)" for m
    by (induction log) auto
  then have "redirected (uf_map vb0) (undo_log_entries (log @ es) (uf_map vb'))" using log(2) assms(3) by simp
  with assms log(1) show ?thesis unfolding since_def by auto
qed

lemma since_root: "since vb0 vb \<Longrightarrow> uf_get vb v = Some x \<Longrightarrow> \<exists>r. root_of (uf_map vb) v r"
proof -
  assume "since vb0 vb" "uf_get vb v = Some x"
  then have "uf_map vb v \<noteq> None" by (cases "uf_map vb v") (auto simp: uf_get.simps [of vb v] sim_find_abs)
  with \<open>since vb0 vb\<close> show ?thesis by (auto simp: since_def uf_ok_def)
qed

lemma since_simple_vars:
  assumes vb: "since vb0 vb" and res: "simple_vars e ae vb a b = Some (res, vb')"
  shows "since vb0 vb'"
proof -
  obtain na vb1 nb vb2 where get: "uf_get vb a = Some (na, vb1)" "uf_get vb1 b = Some (nb, vb2)"
    using res by (auto simp: simple_vars_def split: bind_splits)
  obtain ra where ra: "root_of (uf_map vb) a ra" using since_root [OF vb get(1)] by blast
  note s1 = since_get [OF vb ra get(1)]
  obtain rb where rb: "root_of (uf_map vb1) b rb" using since_root [OF s1 get(2)] by blast
  note s2 = since_get [OF s1 rb get(2)]
  have na: "uf_root na = ra" "uf_map vb ra = Some (Root (possible_types na) (uf_rank na))"
    "same_classes (uf_map vb) (uf_map vb1)" using uf_get_ok [OF ra] get(1) by auto
  have nb: "uf_root nb = rb" "uf_map vb1 rb = Some (Root (possible_types nb) (uf_rank nb))"
    "same_classes (uf_map vb1) (uf_map vb2)" using uf_get_ok [OF rb] get(2) by auto
  have roots: "uf_map vb2 (uf_root na) = Some (Root (possible_types na) (uf_rank na))"
    "uf_map vb2 (uf_root nb) = Some (Root (possible_types nb) (uf_rank nb))"
    using na nb by (simp_all add: same_classes_def)
  show ?thesis
  proof (cases "vb' = vb2")
    case True
    with s2 show ?thesis by simp
  next
    case False
    with res get have ne: "uf_root na \<noteq> uf_root nb" and
      un: "unify_and_set vb2 na nb (known_value (possible_types na) (possible_types nb)) = Some vb'"
      by (auto simp: simple_vars_alt split: if_splits bind_splits)
    obtain x y px py kx ky rk where xy: "x \<noteq> y" "uf_map vb2 x = Some (Root px kx)" "uf_map vb2 y = Some (Root py ky)"
      and m': "uf_map vb' = (uf_map vb2)(x \<mapsto> Redirect y, y \<mapsto> Root (known_value (possible_types na) (possible_types nb)) rk)"
      and bs: "vb_bindings vb' = vb_bindings vb2 @ [(x, Root px kx), (y, Root py ky)]"
      by (rule unify_and_set_ok [OF roots ne, of "known_value (possible_types na) (possible_types nb)"]) (use un in auto)
    have ok: "uf_ok (uf_map vb2)" using s2 by (simp add: since_def)
    show ?thesis
    proof (rule since_logged [OF s2 bs])
      show "undo_log_entries [(x, Root px kx), (y, Root py ky)] (uf_map vb') = uf_map vb2"
        using xy by (auto simp: m' fun_eq_iff)
      show "dom (uf_map vb') = dom (uf_map vb2)" "uf_ok (uf_map vb')"
        using merged_abs [OF xy(2,3,1) m' ok] by auto
      show "is_root (uf_map vb2) u" if "is_root (uf_map vb') u" for u
        using that xy by (auto simp: is_root_def m' split: if_splits)
    qed
  qed
qed

lemma since_simple_var_t:
  assumes vb: "since vb0 vb" and res: "simple_var_t e ae vb a b = Some (res, vb')"
  shows "since vb0 vb'"
proof -
  obtain na vb1 where get: "uf_get vb a = Some (na, vb1)"
    using res by (auto simp: simple_var_t_def split: bind_splits)
  obtain ra where ra: "root_of (uf_map vb) a ra" using since_root [OF vb get] by blast
  note s1 = since_get [OF vb ra get]
  have na: "uf_root na = ra" "uf_map vb1 ra = Some (Root (possible_types na) (uf_rank na))"
    using uf_get_ok [OF ra] get by (auto simp: same_classes_def)
  show ?thesis
  proof (cases "possible_types na")
    case None
    obtain vb2 where set: "uf_set vb1 ra (Root (Some b) (uf_rank na)) = Some vb2"
      "uf_map vb2 = (uf_map vb1)(ra \<mapsto> Root (Some b) (uf_rank na))"
      "vb_bindings vb2 = vb_bindings vb1 @ [(ra, Root (possible_types na) (uf_rank na))]"
      using uf_set_ok [OF na(2)] by blast
    then have eq: "vb' = vb2" using res get None na(1) by (simp add: simple_var_t_def)
    have roots: "root_of (uf_map vb2) u s \<longleftrightarrow> root_of (uf_map vb1) u s" for u s
      using root_of_new_value [of "uf_map vb1", OF na(2), of "uf_map vb2"] set(2) by simp
    have dom: "dom (uf_map vb2) = dom (uf_map vb1)" using na(2) by (auto simp: set(2))
    show ?thesis unfolding eq
    proof (rule since_logged [OF s1 set(3)])
      show "undo_log_entries [(ra, Root (possible_types na) (uf_rank na))] (uf_map vb2) = uf_map vb1"
        using na(2) by (auto simp: set(2) fun_eq_iff)
      show "uf_ok (uf_map vb2)" using s1 by (simp add: since_def uf_ok_def dom roots)
      show "is_root (uf_map vb1) u" if "is_root (uf_map vb2) u" for u
        using that na(2) by (auto simp: is_root_def set(2) split: if_splits)
    qed (rule dom)
  next
    case (Some v)
    then have "vb' = vb1" using res get by (auto simp: simple_var_t_def split: if_splits)
    with s1 show ?thesis by simp
  qed
qed

section \<open>What an undone attempt leaves behind\<close>

datatype 't uf_op =
    UnifyVars bool uint uint
  | SetVar bool uint 't

fun run_uf_ops ::
  "('t expected_found \<Rightarrow> 'e) \<Rightarrow> 't uf_op list \<Rightarrow> 't option vals_and_bindings \<Rightarrow> 't option vals_and_bindings option" where
  "run_uf_ops e [] vb = Some vb"
| "run_uf_ops e (UnifyVars ae a b # ops) vb = do { (_, vb') \<leftarrow> simple_vars e ae vb a b; run_uf_ops e ops vb' }"
| "run_uf_ops e (SetVar ae a t # ops) vb = do { (_, vb') \<leftarrow> simple_var_t e ae vb a t; run_uf_ops e ops vb' }"

lemma since_run_uf_ops: "since vb0 vb \<Longrightarrow> run_uf_ops e ops vb = Some vb' \<Longrightarrow> since vb0 vb'"
  by (induction e ops vb rule: run_uf_ops.induct)
    (auto split: bind_splits dest: since_simple_vars since_simple_var_t)

text \<open>
  C15. After any sequence of unifications, rolling back to the length the log had before
  succeeds, leaves the log as it was and a table whose redirections end, and restores exactly
  the roots with their values and ranks: every value learned in the attempt is forgotten.
\<close>

theorem rollback_restores_roots:
  assumes "uf_ok (uf_map vb)" "run_uf_ops to_type_err ops vb = Some vb'"
  shows "\<exists>vb''. uf_rollback_to vb' (length (vb_bindings vb)) = Some vb'' \<and> vb_bindings vb'' = vb_bindings vb \<and>
    uf_ok (uf_map vb'') \<and> dom (uf_map vb'') = dom (uf_map vb) \<and>
    (\<forall>v pt rk. uf_map vb'' v = Some (Root pt rk) \<longleftrightarrow> uf_map vb v = Some (Root pt rk))"
proof -
  have "since vb vb'" by (rule since_run_uf_ops [OF since_refl [OF assms(1)] assms(2)])
  then obtain log where log: "vb_bindings vb' = vb_bindings vb @ log"
    "redirected (uf_map vb) (undo_log_entries log (uf_map vb'))" by (auto simp: since_def)
  from uf_rollback_to_ok [OF log(1)] redirected_ok [OF log(2) assms(1)] redirected_dom [OF log(2)]
    redirected_root [OF log(2)]
  show ?thesis by auto
qed

lemmas uf_eval = uf_get.simps simple_vars_def simple_var_t_def uf_unify_def uf_set_def sim_find_def sim_get_def
  sim_insert_def vec_set_def contains_key_default_def uf_rollback_to.simps vec_pop_def

theorem rollback_restores_roots_witness:
  "\<exists>vb'' vb'. run_uf_ops terr_int_mismatch [UnifyVars True 0 2, SetVar True 2 (IntType TyI)]
       \<lparr>vb_vals = \<lparr>sim_v = [Some (Root None 0), Some (Root None 1), Some (Redirect 1)]\<rparr>, vb_bindings = []\<rparr> = Some vb' \<and>
     uf_map vb' 1 = Some (Root (Some (IntType TyI)) 1) \<and>
     uf_rollback_to vb' 0 = Some vb'' \<and> uf_map vb'' 1 = Some (Root None 1)"
proof -
  let ?vb = "\<lparr>vb_vals = \<lparr>sim_v = [Some (Root None 0), Some (Root None 1), Some (Redirect 1)]\<rparr>, vb_bindings = []\<rparr>
    :: int_var_value option vals_and_bindings"
  have m: "uf_map ?vb 0 = Some (Root None 0)" "uf_map ?vb 1 = Some (Root None 1)"
    "uf_map ?vb 2 = Some (Redirect 1)" and dom: "dom (uf_map ?vb) = {0, 1, 2}"
    by (auto simp: sim_abs_def nth_Cons' split: if_splits)
  note r = root_of.root [of "uf_map ?vb", OF m(1)] root_of.root [of "uf_map ?vb", OF m(2)]
  note r2 = root_of.step [of "uf_map ?vb", OF m(3) r(2)]
  have ok: "uf_ok (uf_map ?vb)" unfolding uf_ok_def dom using r r2 by blast
  obtain vb' where run: "run_uf_ops terr_int_mismatch [UnifyVars True 0 2, SetVar True 2 (IntType TyI)] ?vb = Some vb'"
    and "sim_v (vb_vals vb') = [Some (Redirect 1), Some (Root (Some (IntType TyI)) 1), Some (Redirect 1)]"
    by (simp add: uf_eval)
  then have "uf_map vb' 1 = Some (Root (Some (IntType TyI)) 1)" by (simp add: sim_abs_def)
  with rollback_restores_roots [OF ok run] run m(2) show ?thesis by auto
qed

text \<open>
  An inference context with eight integer variables that are unified into two balanced
  classes, \<open>0\<close> to \<open>3\<close> and \<open>4\<close> to \<open>7\<close>.
\<close>

fun new_int_vars :: "nat \<Rightarrow> ('t, 'vo, 'so) infer_ctxt \<Rightarrow> ('t, 'vo, 'so) infer_ctxt option" where
  "new_int_vars 0 cx = Some cx"
| "new_int_vars (Suc n) cx = do { (_, cx') \<leftarrow> next_int_var_id cx; new_int_vars n cx' }"

fun unify_pairs :: "(uint \<times> uint) list \<Rightarrow> ('t, 'vo, 'so) infer_ctxt \<Rightarrow> ('t, 'vo, 'so) infer_ctxt option" where
  "unify_pairs [] cx = Some cx"
| "unify_pairs ((a, b) # ps) cx = do { (_, cx') \<leftarrow> int_vars True a b cx; unify_pairs ps cx' }"

definition two_classes :: "('t, 'vo, 'so) infer_ctxt option" where
  "two_classes = do { cx \<leftarrow> new_int_vars 8 new_infer_ctxt;
     unify_pairs [(0, 1), (2, 3), (0, 2), (4, 5), (6, 7), (4, 6)] cx }"

text \<open>An attempt that unifies the two classes and then looks at variable \<open>7\<close>.\<close>

definition unify_classes :: "(('t, 'vo, 'so) infer_ctxt, simple_type_err, unit) attempt" where
  "unify_classes cx = do { (_, cx') \<leftarrow> int_vars True 0 4 cx; int_vars True 7 0 cx' }"

lemmas ctxt_eval = two_classes_def new_infer_ctxt_def new_vals_and_bindings_def sim_new_def next_int_var_id_def
  next_simple_var_def int_vars_def uf_eval numeral_nat

lemma two_classes_table:
  "\<exists>cx. two_classes = Some cx \<and>
     sim_v (vb_vals (int_var_bindings (cx :: ('t, 'vo, 'so) infer_ctxt))) =
       [Some (Root None 2), Some (Redirect 0), Some (Redirect 0), Some (Redirect 2),
        Some (Root None 2), Some (Redirect 4), Some (Redirect 4), Some (Redirect 6)]"
  by (simp add: ctxt_eval)

lemma probe_table:
  "\<exists>cx r cx'. two_classes = Some cx \<and> infer_probe unify_classes (cx :: ('t, 'vo, 'so) infer_ctxt) = Some (r, cx') \<and>
     sim_v (vb_vals (int_var_bindings cx')) =
       [Some (Root None 2), Some (Redirect 0), Some (Redirect 0), Some (Redirect 2),
        Some (Root None 2), Some (Redirect 4), Some (Redirect 0), Some (Redirect 6)]"
  by (simp add: ctxt_eval infer_probe_def unify_classes_def infer_start_snapshot_def start_snapshot_def
      infer_rollback_to_def new_region_var_bindings_def in_snapshot_def rollback_to.simps)

lemma root_of_table:
  assumes "sim_v (vb_vals vb) = [Some (Root None 2), Some (Redirect 0), Some (Redirect 0), Some (Redirect 2),
        Some (Root None 2), Some (Redirect 4), Some (Redirect x), Some (Redirect 6)]" "x = 0 \<or> x = 4"
  shows "root_of (uf_map vb) 0 0" "root_of (uf_map vb) 4 4" "root_of (uf_map vb) 7 x"
proof -
  have m: "uf_map vb 0 = Some (Root None 2)" "uf_map vb 4 = Some (Root None 2)"
    "uf_map vb 6 = Some (Redirect x)" "uf_map vb 7 = Some (Redirect 6)"
    by (simp_all add: sim_abs_def assms(1) nth_Cons')
  show 1: "root_of (uf_map vb) 0 0" "root_of (uf_map vb) 4 4"
    using root_of.root [of "uf_map vb", OF m(1)] root_of.root [of "uf_map vb", OF m(2)] .
  then have "root_of (uf_map vb) x x" using assms(2) by auto
  from root_of.step [of "uf_map vb", OF m(4) root_of.step [of "uf_map vb", OF m(3) this]]
  show "root_of (uf_map vb) 7 x" .
qed

text \<open>
  C16. Undoing an attempt does not undo path compression: in a context with two classes of
  integer variables, a \<open>probe\<close> that unifies them and looks at a variable moves that variable
  from its class into the other one for good, although the attempt is rolled back.
\<close>

theorem probe_leaks_unification:
  "\<exists>cx r cx'. two_classes = Some cx \<and>
     infer_probe unify_classes (cx :: ('t, 'vo, 'so) infer_ctxt) = Some (r, cx') \<and>
     equated (uf_map (int_var_bindings cx)) 7 4 \<and> \<not> equated (uf_map (int_var_bindings cx)) 7 0 \<and>
     equated (uf_map (int_var_bindings cx')) 7 0 \<and> \<not> equated (uf_map (int_var_bindings cx')) 7 4"
proof -
  obtain cx r cx' where cx: "two_classes = Some (cx :: ('t, 'vo, 'so) infer_ctxt)"
    and probe: "infer_probe unify_classes cx = Some (r, cx')"
    and after: "sim_v (vb_vals (int_var_bindings cx')) =
       [Some (Root None 2), Some (Redirect 0), Some (Redirect 0), Some (Redirect 2),
        Some (Root None 2), Some (Redirect 4), Some (Redirect 0), Some (Redirect 6)]"
    using probe_table by blast
  have before: "sim_v (vb_vals (int_var_bindings cx)) =
       [Some (Root None 2), Some (Redirect 0), Some (Redirect 0), Some (Redirect 2),
        Some (Root None 2), Some (Redirect 4), Some (Redirect 4), Some (Redirect 6)]"
  proof -
    obtain cx0 :: "('t, 'vo, 'so) infer_ctxt" where "two_classes = Some cx0" "sim_v (vb_vals (int_var_bindings cx0)) =
       [Some (Root None 2), Some (Redirect 0), Some (Redirect 0), Some (Redirect 2),
        Some (Root None 2), Some (Redirect 4), Some (Redirect 4), Some (Redirect 6)]"
      using two_classes_table by blast
    moreover have "cx = cx0"
      using trans [OF cx [symmetric] \<open>two_classes = Some cx0\<close>] by (rule option.inject [THEN iffD1])
    ultimately show ?thesis by simp
  qed
  note b = root_of_table [OF before] and a = root_of_table [OF after]
  show ?thesis
    using cx probe b a equated_root [OF b(1)] equated_root [OF b(2)] equated_root [OF a(1)] equated_root [OF a(2)]
      root_of_iff [OF b(3)] root_of_iff [OF a(3)] by auto
qed

end
