(* ===== verification/TreeMap.thy ===== *)
theory TreeMap
  imports Containers "HOL-Library.Product_Lexorder" "HOL-Library.List_Lexorder"
begin

text \<open>
  \<open>libcollections/treemap.rs\<close>: ordered maps as AA trees, balanced binary search trees in
  which a node may have a horizontal link to its right child, that is, share its level.

  An \<open>Option<~TreeNode>\<close> is a value of the datatype \<open>tree\<close>, whose constructor
  \<open>NoNode\<close> is \<open>None\<close>; a function that takes \<open>&mut ~TreeNode\<close> returns the new tree.
  Levels and lengths are natural numbers: the number of nodes is bounded by the memory.
\<close>

section \<open>Trees\<close>

datatype ('k, 'v) tree =
    NoNode
  | TreeNode 'k 'v "('k, 'v) tree" "('k, 'v) tree" uint

fun level :: "('k, 'v) tree \<Rightarrow> uint" where
  "level NoNode = 0"
| "level (TreeNode k v l r n) = n"

fun set_level :: "uint \<Rightarrow> ('k, 'v) tree \<Rightarrow> ('k, 'v) tree" where
  "set_level n NoNode = NoNode"
| "set_level n (TreeNode k v l r _) = TreeNode k v l r n"

fun right_child :: "('k, 'v) tree \<Rightarrow> ('k, 'v) tree" where
  "right_child NoNode = NoNode"
| "right_child (TreeNode k v l r n) = r"

definition node_new :: "'k \<Rightarrow> 'v \<Rightarrow> ('k, 'v) tree" where
  "node_new k v = TreeNode k v NoNode NoNode 1"

text \<open>Remove left horizontal link by rotating right.\<close>

fun skew :: "('k, 'v) tree \<Rightarrow> ('k, 'v) tree" where
  "skew (TreeNode k v (TreeNode lk lv ll lr m) r n) =
     (if m = n then TreeNode lk lv ll (TreeNode k v lr r n) m
      else TreeNode k v (TreeNode lk lv ll lr m) r n)"
| "skew t = t"

text \<open>Remove dual horizontal link by rotating left and increasing level of the parent.\<close>

fun split :: "('k, 'v) tree \<Rightarrow> ('k, 'v) tree" where
  "split (TreeNode k v l (TreeNode rk rv rl (TreeNode sk sv sl sr p) m) n) =
     (if p = n then TreeNode rk rv (TreeNode k v l rl n) (TreeNode sk sv sl sr p) (m + 1)
      else TreeNode k v l (TreeNode rk rv rl (TreeNode sk sv sl sr p) m) n)"
| "split t = t"

fun find_node :: "('k::linorder, 'v) tree \<Rightarrow> 'k \<Rightarrow> 'v option" where
  "find_node NoNode key = None"
| "find_node (TreeNode k v l r n) key =
     (case cmp key k of Less \<Rightarrow> find_node l key | Greater \<Rightarrow> find_node r key | Equal \<Rightarrow> Some v)"

text \<open>The value behind the reference that \<open>find_mut\<close> returns, and writing through it.\<close>

fun find_mut_node ::
  "('k::linorder, 'v) tree \<Rightarrow> 'k \<Rightarrow> ('v \<times> ('v \<Rightarrow> ('k, 'v) tree)) option" where
  "find_mut_node NoNode key = None"
| "find_mut_node (TreeNode k v l r n) key =
     (case cmp key k of
        Less \<Rightarrow> map_option (\<lambda>(x, w). (x, \<lambda>y. TreeNode k v (w y) r n)) (find_mut_node l key)
      | Greater \<Rightarrow> map_option (\<lambda>(x, w). (x, \<lambda>y. TreeNode k v l (w y) n)) (find_mut_node r key)
      | Equal \<Rightarrow> Some (v, \<lambda>y. TreeNode k y l r n))"

fun insert_node :: "('k::linorder, 'v) tree \<Rightarrow> 'k \<Rightarrow> 'v \<Rightarrow> 'v option \<times> ('k, 'v) tree" where
  "insert_node NoNode key x = (None, node_new key x)"
| "insert_node (TreeNode k v l r n) key x =
     (case cmp key k of
        Less \<Rightarrow> (let (inserted, l') = insert_node l key x
                 in (inserted, split (skew (TreeNode k v l' r n))))
      | Greater \<Rightarrow> (let (inserted, r') = insert_node r key x
                    in (inserted, split (skew (TreeNode k v l r' n))))
      | Equal \<Rightarrow> (Some v, TreeNode key x l r n))"

text \<open>
  Exchange the key and value of a node with those of the last node of a subtree; the
  node's are passed and returned.
\<close>

fun heir_swap :: "'k \<times> 'v \<Rightarrow> ('k, 'v) tree \<Rightarrow> ('k \<times> 'v) \<times> ('k, 'v) tree" where
  "heir_swap kv NoNode = (kv, NoNode)"
| "heir_swap kv (TreeNode xk xv l r n) =
     (if r \<noteq> NoNode
      then (let (kv', r') = heir_swap kv r in (kv', TreeNode xk xv l r' n))
      else ((xk, xv), TreeNode (fst kv) (snd kv) l r n))"

fun on_right :: "(('k, 'v) tree \<Rightarrow> ('k, 'v) tree) \<Rightarrow> ('k, 'v) tree \<Rightarrow> ('k, 'v) tree" where
  "on_right f NoNode = NoNode"
| "on_right f (TreeNode k v l r n) = TreeNode k v l (if r \<noteq> NoNode then f r else r) n"

text \<open>The re-balancing step of \<open>remove\<close>.\<close>

fun rebalance :: "('k, 'v) tree \<Rightarrow> ('k, 'v) tree" where
  "rebalance NoNode = NoNode"
| "rebalance (TreeNode k v l r n) =
     (if level l < n - 1 \<or> level r < n - 1
      then let n' = n - 1;
               r' = (if level r > n' then set_level n' r else r);
               t1 = skew (TreeNode k v l r' n');
               t2 = on_right (\<lambda>right. on_right skew (skew right)) t1;
               t3 = split t2
           in on_right split t3
      else TreeNode k v l r n)"

text \<open>
  The swap of a node with two children with the last node of its left subtree: the new key
  and value of the node, and the subtree that now holds the old ones.
\<close>

definition swap_left :: "'k \<times> 'v \<Rightarrow> ('k, 'v) tree \<Rightarrow> ('k \<times> 'v) \<times> ('k, 'v) tree" where
  "swap_left kv left =
     (case left of
        NoNode \<Rightarrow> (kv, NoNode)
      | TreeNode lk lv ll lr m \<Rightarrow>
          if lr \<noteq> NoNode
          then (let (kv', lr') = heir_swap kv lr in (kv', TreeNode lk lv ll lr' m))
          else ((lk, lv), TreeNode (fst kv) (snd kv) ll lr m))"

lemma size_heir_swap [simp]: "size (snd (heir_swap kv t)) = size t"
  by (induction kv t rule: heir_swap.induct) (auto simp: split_beta)

lemma size_swap_left [simp]: "size (snd (swap_left kv t)) = size t"
  by (simp add: swap_left_def split_beta split: tree.split)

text \<open>
  \<open>remove\<close>.  A node with a left child only is replaced by the left child of that child,
  which fails when there is none.
\<close>

function remove_node :: "('k::linorder, 'v) tree \<Rightarrow> 'k \<Rightarrow> ('v option \<times> ('k, 'v) tree) option" where
  "remove_node NoNode key = Some (None, NoNode)"
| "remove_node (TreeNode k v l r n) key =
     (case cmp key k of
        Less \<Rightarrow> do { (ret, l') \<leftarrow> remove_node l key; Some (ret, rebalance (TreeNode k v l' r n)) }
      | Greater \<Rightarrow> do { (ret, r') \<leftarrow> remove_node r key; Some (ret, rebalance (TreeNode k v l r' n)) }
      | Equal \<Rightarrow>
          (if l \<noteq> NoNode then
             if r \<noteq> NoNode then
               (case swap_left (k, v) l of
                  (kv', l') \<Rightarrow>
                    do { (ret, l'') \<leftarrow> remove_node l' key;
                         Some (ret, rebalance (TreeNode (fst kv') (snd kv') l'' r n)) })
             else
               (case l of
                  TreeNode _ _ (TreeNode k' v' l' r' n') _ _ \<Rightarrow>
                    Some (Some v, rebalance (TreeNode k' v' l' r' n'))
                | _ \<Rightarrow> None)
           else if r \<noteq> NoNode then Some (Some v, rebalance r)
           else Some (Some v, NoNode)))"
  by pat_completeness auto
termination
  by (relation "measure (\<lambda>(t, key). size t)")
    (auto simp: less_Suc_eq_le dest!: arg_cong [of "(_, _)" "swap_left _ _" "\<lambda>p. size (snd p)"])

section \<open>Maps\<close>

record ('k, 'v) tree_map =
  tm_root :: "('k, 'v) tree"
  tm_length :: uint

definition tm_new :: "('k, 'v) tree_map" where
  "tm_new = \<lparr>tm_root = NoNode, tm_length = 0\<rparr>"

definition tm_len :: "('k, 'v) tree_map \<Rightarrow> uint" where
  "tm_len m = tm_length m"

definition tm_is_empty :: "('k, 'v) tree_map \<Rightarrow> bool" where
  "tm_is_empty m \<longleftrightarrow> tm_root m = NoNode"

definition tm_clear :: "('k, 'v) tree_map \<Rightarrow> ('k, 'v) tree_map" where
  "tm_clear m = m\<lparr>tm_root := NoNode, tm_length := 0\<rparr>"

definition tm_find :: "('k::linorder, 'v) tree_map \<Rightarrow> 'k \<Rightarrow> 'v option" where
  "tm_find m key = find_node (tm_root m) key"

definition tm_find_mut ::
  "('k::linorder, 'v) tree_map \<Rightarrow> 'k \<Rightarrow> ('v \<times> ('v \<Rightarrow> ('k, 'v) tree_map)) option" where
  "tm_find_mut m key =
     map_option (\<lambda>(x, w). (x, \<lambda>y. m\<lparr>tm_root := w y\<rparr>)) (find_mut_node (tm_root m) key)"

definition tm_swap ::
  "('k::linorder, 'v) tree_map \<Rightarrow> 'k \<Rightarrow> 'v \<Rightarrow> ('v option \<times> ('k, 'v) tree_map) option" where
  "tm_swap m key x =
     (let (ret, root) = insert_node (tm_root m) key x
      in Some (ret, \<lparr>tm_root = root,
           tm_length = (if ret = None then tm_length m + 1 else tm_length m)\<rparr>))"

definition tm_pop ::
  "('k::linorder, 'v) tree_map \<Rightarrow> 'k \<Rightarrow> ('v option \<times> ('k, 'v) tree_map) option" where
  "tm_pop m key =
     do { (ret, root) \<leftarrow> remove_node (tm_root m) key;
          Some (ret, \<lparr>tm_root = root,
            tm_length = (if ret \<noteq> None then tm_length m - 1 else tm_length m)\<rparr>) }"

text \<open>\<open>MutableMap::insert\<close>, \<open>remove\<close> and \<open>Extendable::extend\<close> of a \<open>TreeMap\<close>.\<close>

definition tm_insert :: "('k::linorder, 'v) tree_map \<Rightarrow> 'k \<Rightarrow> 'v \<Rightarrow> (bool \<times> ('k, 'v) tree_map) option" where
  "tm_insert = insert_default tm_swap"

definition tm_remove :: "('k::linorder, 'v) tree_map \<Rightarrow> 'k \<Rightarrow> (bool \<times> ('k, 'v) tree_map) option" where
  "tm_remove = remove_default tm_pop"

definition tm_extend :: "('k::linorder, 'v) tree_map \<Rightarrow> ('k \<times> 'v) list \<Rightarrow> ('k, 'v) tree_map option" where
  "tm_extend = extend_with tm_insert"

definition tm_from_iter :: "('k::linorder \<times> 'v) list \<Rightarrow> ('k, 'v) tree_map option" where
  "tm_from_iter kvs = tm_extend tm_new kvs"

section \<open>The search tree\<close>

fun inorder :: "('k, 'v) tree \<Rightarrow> ('k \<times> 'v) list" where
  "inorder NoNode = []"
| "inorder (TreeNode k v l r n) = inorder l @ (k, v) # inorder r"

definition ordered :: "('k::linorder, 'v) tree \<Rightarrow> bool" where
  "ordered t \<longleftrightarrow> sorted_wrt (<) (map fst (inorder t))"

lemma ordered_node [simp]:
  "ordered NoNode"
  "ordered (TreeNode k v l r n) \<longleftrightarrow>
     ordered l \<and> ordered r \<and> (\<forall>p \<in> set (inorder l). fst p < k) \<and> (\<forall>p \<in> set (inorder r). k < fst p)"
  by (fastforce simp: ordered_def sorted_wrt_append)+

named_theorems inorder_simps \<open>rotations keep the inorder list\<close>

lemma inorder_skew [inorder_simps]: "inorder (skew t) = inorder t"
  by (cases t rule: skew.cases) auto

lemma inorder_split [inorder_simps]: "inorder (split t) = inorder t"
  by (cases t rule: split.cases) auto

lemma inorder_set_level [inorder_simps]: "inorder (set_level n t) = inorder t"
  by (cases t) auto

lemma inorder_on_right: "(\<And>r. inorder (f r) = inorder r) \<Longrightarrow> inorder (on_right f t) = inorder t"
  by (cases t) auto

lemma inorder_rebalance [inorder_simps]: "inorder (rebalance t) = inorder t"
  by (cases t) (auto simp: inorder_simps inorder_on_right Let_def)

lemma find_node_inorder: "ordered t \<Longrightarrow> find_node t key = map_of (inorder t) key"
proof (induction t)
  case (TreeNode k v l r n)
  then have "\<forall>x \<in> set (inorder l). fst x < k" "\<forall>x \<in> set (inorder r). k < fst x" "ordered l" "ordered r"
    by auto
  moreover have "map_of (inorder l) key = None" if "k \<le> key"
    using that calculation(1) by (force simp: map_of_eq_None_iff)
  moreover have "map_of (inorder r) key = None" if "key \<le> k"
    using that calculation(2) by (force simp: map_of_eq_None_iff)
  ultimately show ?case using TreeNode.IH by (auto simp: case_cmp map_add_def split: option.split)
qed simp

text \<open>The list after an insertion, and what the operations do to it.\<close>

definition upd :: "'k::linorder \<Rightarrow> 'v \<Rightarrow> ('k \<times> 'v) list \<Rightarrow> ('k \<times> 'v) list" where
  "upd k v xs = filter (\<lambda>p. fst p < k) xs @ (k, v) # filter (\<lambda>p. k < fst p) xs"

definition del :: "'k::linorder \<Rightarrow> ('k \<times> 'v) list \<Rightarrow> ('k \<times> 'v) list" where
  "del k xs = filter (\<lambda>p. fst p \<noteq> k) xs"

lemma map_of_node:
  assumes "ordered (TreeNode k v l r n)"
  shows "map_of (inorder (TreeNode k v l r n)) key =
    (if key < k then map_of (inorder l) key else if key = k then Some v else map_of (inorder r) key)"
  using find_node_inorder [OF assms, of key] assms
  by (auto simp: find_node_inorder case_cmp simp del: inorder.simps)

lemma filter_all: "(\<And>x. x \<in> set xs \<Longrightarrow> P x) \<Longrightarrow> filter P xs = xs"
  by (simp add: filter_id_conv)

lemma filter_none: "(\<And>x. x \<in> set xs \<Longrightarrow> \<not> P x) \<Longrightarrow> filter P xs = []"
  by (simp add: filter_empty_conv)

lemma upd_node:
  assumes "ordered (TreeNode k v l r n)"
  shows "upd key x (inorder (TreeNode k v l r n)) =
    (if key < k then upd key x (inorder l) @ (k, v) # inorder r
     else if key = k then inorder l @ (key, x) # inorder r
     else inorder l @ (k, v) # upd key x (inorder r))"
proof -
  have l: "\<forall>p \<in> set (inorder l). fst p < k" and r: "\<forall>p \<in> set (inorder r). k < fst p"
    using assms by auto
  have "filter (\<lambda>p. key < fst p) (inorder r) = inorder r" "filter (\<lambda>p. fst p < key) (inorder r) = []"
    if "key \<le> k" using that r by (auto intro!: filter_all filter_none)
  moreover have "filter (\<lambda>p. fst p < key) (inorder l) = inorder l" "filter (\<lambda>p. key < fst p) (inorder l) = []"
    if "k \<le> key" using that l by (auto intro!: filter_all filter_none)
  ultimately show ?thesis by (auto simp: upd_def)
qed

lemma del_node:
  assumes "ordered (TreeNode k v l r n)"
  shows "del key (inorder (TreeNode k v l r n)) =
    (if key < k then del key (inorder l) @ (k, v) # inorder r
     else if key = k then inorder l @ inorder r
     else inorder l @ (k, v) # del key (inorder r))"
proof -
  have l: "\<forall>p \<in> set (inorder l). fst p < k" and r: "\<forall>p \<in> set (inorder r). k < fst p"
    using assms by auto
  have "filter (\<lambda>p. fst p \<noteq> key) (inorder r) = inorder r" if "key \<le> k"
    using that r by (auto intro!: filter_all)
  moreover have "filter (\<lambda>p. fst p \<noteq> key) (inorder l) = inorder l" if "k \<le> key"
    using that l by (auto intro!: filter_all)
  ultimately show ?thesis by (auto simp: del_def)
qed

lemma sorted_upd: "sorted_wrt (<) (map fst xs) \<Longrightarrow> sorted_wrt (<) (map fst (upd k v xs))"
  by (auto simp: upd_def sorted_wrt_append sorted_wrt_map intro!: sorted_wrt_filter)

lemma sorted_del: "sorted_wrt (<) (map fst xs) \<Longrightarrow> sorted_wrt (<) (map fst (del k xs))"
  by (auto simp: del_def sorted_wrt_map intro!: sorted_wrt_filter)

lemma map_of_upd: "map_of (upd k v xs) = (map_of xs)(k \<mapsto> v)"
proof
  fix x
  have "map_of (filter (\<lambda>p. P (fst p)) xs) y = (if P y then map_of xs y else None)" for P y
    by (induction xs) auto
  from this [of "\<lambda>x. x < k"] this [of "\<lambda>x. k < x"]
  show "map_of (upd k v xs) x = ((map_of xs)(k \<mapsto> v)) x"
    by (auto simp: upd_def map_add_def split: option.split)
qed

lemma map_of_del: "map_of (del k xs) = (map_of xs)(k := None)"
  by (induction xs) (auto simp: del_def)

lemma insert_node_inorder:
  "ordered t \<Longrightarrow> fst (insert_node t key x) = map_of (inorder t) key \<and>
     inorder (snd (insert_node t key x)) = upd key x (inorder t)"
proof (induction t)
  case NoNode
  show ?case by (simp add: node_new_def upd_def)
next
  case (TreeNode k v l r n)
  then have "ordered l" "ordered r" by auto
  with TreeNode.IH show ?case
    unfolding map_of_node [OF TreeNode.prems] upd_node [OF TreeNode.prems]
    by (auto simp: case_cmp split_beta inorder_simps)
qed

section \<open>Balance\<close>

fun aa :: "('k, 'v) tree \<Rightarrow> bool" where
  "aa NoNode \<longleftrightarrow> True"
| "aa (TreeNode k v l r n) \<longleftrightarrow> aa l \<and> aa r \<and> level l + 1 = n \<and>
     (level r + 1 = n \<or> level r = n \<and> level (right_child r) + 1 = n)"

text \<open>A node without a horizontal link.\<close>

abbreviation single :: "('k, 'v) tree \<Rightarrow> bool" where
  "single t \<equiv> level (right_child t) < level t"

lemma aa_level_0 [simp]: "aa t \<Longrightarrow> level t = 0 \<longleftrightarrow> t = NoNode"
  by (cases t) auto

definition grown :: "('k, 'v) tree \<Rightarrow> ('k, 'v) tree \<Rightarrow> bool" where
  "grown t t' \<longleftrightarrow> aa t' \<and>
     (level t' = level t \<or>
      level t' = level t + 1 \<and> \<not> single t \<and> (\<exists>k v l r. t' = TreeNode k v l r (level t + 1) \<and> level r = level t))"

lemma skew_aa: "aa t \<Longrightarrow> skew t = t"
  by (cases t rule: skew.cases) simp_all

lemma split_aa: "aa t \<Longrightarrow> split t = t"
  by (cases t rule: split.cases) (simp_all, arith)

lemma grown_same: "aa t' \<Longrightarrow> level t' = level t \<Longrightarrow> grown t t'"
  by (simp add: grown_def)

lemma level_node: "aa t \<Longrightarrow> level t = Suc n \<Longrightarrow> \<exists>k v l r. t = TreeNode k v l r (Suc n)"
  by (cases t) simp_all

lemma grown_left:
  assumes t: "aa (TreeNode k v l r n)" and l': "grown l l'"
  shows "grown (TreeNode k v l r n) (split (skew (TreeNode k v l' r n)))"
proof (cases "level l' = level l")
  case True
  with assms have "aa (TreeNode k v l' r n)" by (simp add: grown_def)
  then show ?thesis by (simp add: skew_aa split_aa grown_same del: aa.simps)
next
  case False
  with l' obtain a b ll lr where l'_eq: "l' = TreeNode a b ll lr (level l + 1)" "level lr = level l" "aa l'"
    by (auto simp: grown_def)
  have n: "n = level l + 1" and r: "aa r" "level r + 1 = n \<or> level r = n \<and> level (right_child r) + 1 = n"
    using t by simp_all
  have ll: "aa ll" "aa lr" "level ll = level l" using l'_eq by auto
  have skew: "skew (TreeNode k v l' r n) = TreeNode a b ll (TreeNode k v lr r n) n"
    using l'_eq n by simp
  show ?thesis
  proof (cases "n = level r + 1")
    case True
    then have "aa (TreeNode a b ll (TreeNode k v lr r n) n)" using ll l'_eq(2) n r(1) by simp
    then show ?thesis by (simp add: skew split_aa grown_same del: aa.simps)
  next
    case False
    with r n obtain rk rv rl rr where r_eq: "r = TreeNode rk rv rl rr n" "level rr = level l"
      using level_node [of r "level l"] by auto
    with n have "split (TreeNode a b ll (TreeNode k v lr r n) n) = TreeNode k v (TreeNode a b ll lr n) r (n + 1)"
      by simp
    then show ?thesis using ll l'_eq(2) n r r_eq unfolding skew by (simp add: grown_def)
  qed
qed

lemma grown_right:
  assumes t: "aa (TreeNode k v l r n)" and r': "grown r r'"
  shows "grown (TreeNode k v l r n) (split (skew (TreeNode k v l r' n)))"
proof -
  have n: "n = level l + 1" and r: "aa l" "aa r" "level r + 1 = n \<or> level r = n \<and> level (right_child r) + 1 = n"
    using t by simp_all
  have skew: "skew (TreeNode k v l r' n) = TreeNode k v l r' n" using n by (cases l) simp_all
  show ?thesis
  proof (cases "aa (TreeNode k v l r' n)")
    case True
    then show ?thesis unfolding skew by (simp add: split_aa grown_same del: aa.simps)
  next
    case False
    have "level r' = level r"
      using r' r n False by (auto simp: grown_def)
    with False r' r n have rn: "level r = n" "level r' = n" "aa r'" "level (right_child r') + 1 \<noteq> n"
      by (auto simp: grown_def)
    then obtain rk rv rl rr where r'_eq: "r' = TreeNode rk rv rl rr n"
      using level_node [of r' "level l"] n by auto
    with rn have rr: "level rr = n" "aa rr" "aa rl" "level rl + 1 = n" by auto
    then obtain sk sv sl sr where rr_eq: "rr = TreeNode sk sv sl sr n"
      using level_node [of rr "level l"] n by auto
    have "split (TreeNode k v l r' n) = TreeNode rk rv (TreeNode k v l rl n) rr (n + 1)"
      using r'_eq rr_eq by simp
    with rr r n rn show ?thesis unfolding skew by (simp add: grown_def)
  qed
qed

lemma grown_insert: "aa t \<Longrightarrow> grown t (snd (insert_node t key x))"
proof (induction t)
  case NoNode
  show ?case by (simp add: grown_def node_new_def)
next
  case (TreeNode k v l r n)
  then have "grown l (snd (insert_node l key x))" "grown r (snd (insert_node r key x))" by simp_all
  from grown_left [OF TreeNode.prems this(1)] grown_right [OF TreeNode.prems this(2)]
  have 1: "key < k \<Longrightarrow> ?case" "k < key \<Longrightarrow> ?case" by (auto simp: case_cmp split_beta)
  have "?case" if "key = k"
    using TreeNode.prems that by (simp add: grown_def case_cmp)
  with 1 show ?case by (cases key k rule: linorder_cases)
qed

subsection \<open>Removal\<close>

definition shrunk :: "('k, 'v) tree \<Rightarrow> ('k, 'v) tree \<Rightarrow> bool" where
  "shrunk t t' \<longleftrightarrow> aa t' \<and> (level t' = level t \<or> level t' + 1 = level t) \<and>
     (level t' = level t \<and> single t \<longrightarrow> single t')"

text \<open>A node one of whose subtrees has shrunk.\<close>

definition shrunk_below :: "('k, 'v) tree \<Rightarrow> ('k, 'v) tree \<Rightarrow> uint \<Rightarrow> bool" where
  "shrunk_below l r n \<longleftrightarrow> aa l \<and> aa r \<and>
     (level l + 1 = n \<and> (level r + 1 = n \<or> level r + 2 = n \<or> level r = n \<and> single r) \<or>
      level l + 2 = n \<and> (level r + 1 = n \<or> level r = n \<and> single r))"

lemma skew_id: "level l \<noteq> n \<Longrightarrow> skew (TreeNode k v l r n) = TreeNode k v l r n"
  by (cases l) simp_all

lemma split_id: "level (right_child r) \<noteq> n \<Longrightarrow> split (TreeNode k v l r n) = TreeNode k v l r n"
  by (cases r; cases "right_child r") simp_all

lemma on_right_node: "f NoNode = NoNode \<Longrightarrow> on_right f (TreeNode k v l r n) = TreeNode k v l (f r) n"
  by simp

lemmas rotate_simps = skew_id split_id on_right_node skew_aa split_aa Let_def

lemma aa_single: "aa r \<Longrightarrow> single r \<Longrightarrow> level (right_child r) + 1 = level r"
  by (cases r) auto

lemma rebalance_left_taller:
  assumes "aa l" "aa r" "level l = Suc p" "level r = p"
  shows "shrunk (TreeNode k v l r (Suc (Suc p))) (rebalance (TreeNode k v l r (Suc (Suc p))))"
proof -
  obtain lk lv ll lr where l: "l = TreeNode lk lv ll lr (Suc p)" using level_node [OF assms(1,3)] by blast
  with assms(1) have ll: "aa ll" "level ll = p" "aa lr"
    "level lr = p \<or> level lr = Suc p \<and> level (right_child lr) = p" by auto
  show ?thesis
  proof (cases "level lr = p")
    case True
    then have "aa (TreeNode k v lr r (Suc p))" using assms ll by simp
    then have "rebalance (TreeNode k v l r (Suc (Suc p))) = TreeNode lk lv ll (TreeNode k v lr r (Suc p)) (Suc p)"
      using assms l ll True by (simp add: rotate_simps)
    then show ?thesis using assms ll True by (simp add: shrunk_def)
  next
    case False
    with ll obtain mk mv ml mr where lr: "lr = TreeNode mk mv ml mr (Suc p)"
      using level_node [of lr p] by auto
    with ll False have m: "aa ml" "aa mr" "level ml = p" "level mr = p" by auto
    have "aa (TreeNode k v mr r (Suc p))" using assms m by simp
    then have "rebalance (TreeNode k v l r (Suc (Suc p))) =
        TreeNode mk mv (TreeNode lk lv ll ml (Suc p)) (TreeNode k v mr r (Suc p)) (Suc (Suc p))"
      using assms l ll lr m by (simp add: rotate_simps)
    then show ?thesis using assms ll m by (simp add: shrunk_def)
  qed
qed

lemma rebalance_right_taller:
  assumes "aa l" "aa r" "level l = p" "level r = Suc p"
  shows "shrunk (TreeNode k v l r (Suc (Suc p))) (rebalance (TreeNode k v l r (Suc (Suc p))))"
proof -
  obtain rk rv rl rr where r: "r = TreeNode rk rv rl rr (Suc p)" using level_node [OF assms(2,4)] by blast
  with assms(2) have rl: "aa rl" "level rl = p" "aa rr"
    "level rr = p \<or> level rr = Suc p \<and> level (right_child rr) = p" by auto
  have skew: "skew r = r" "skew rr = rr" "split rr = rr" "split r = r" using assms(2) rl(3) by (simp_all add: skew_aa split_aa)
  show ?thesis
  proof (cases "level rr = p")
    case True
    then have "rebalance (TreeNode k v l r (Suc (Suc p))) = TreeNode k v l r (Suc p)"
      using assms r rl skew by (simp add: rotate_simps)
    then show ?thesis using assms r rl True by (simp add: shrunk_def)
  next
    case False
    with rl obtain sk sv sl sr where rr: "rr = TreeNode sk sv sl sr (Suc p)"
      using level_node [of rr p] by auto
    then have "rebalance (TreeNode k v l r (Suc (Suc p))) =
        TreeNode rk rv (TreeNode k v l rl (Suc p)) rr (Suc (Suc p))"
      using assms r rl skew by (simp add: rotate_simps)
    then show ?thesis using assms r rl False by (simp add: shrunk_def)
  qed
qed

lemma rebalance_right_much_taller:
  assumes "aa l" "aa r" "level l = p" "level r = Suc (Suc p)" "single r"
  shows "shrunk (TreeNode k v l r (Suc (Suc p))) (rebalance (TreeNode k v l r (Suc (Suc p))))"
proof -
  obtain rk rv rl rr where r: "r = TreeNode rk rv rl rr (Suc (Suc p))" using level_node [OF assms(2,4)] by blast
  with assms(2,5) have rl: "aa rl" "level rl = Suc p" "aa rr" "level rr = Suc p" by auto
  obtain ak av al ar where rl_eq: "rl = TreeNode ak av al ar (Suc p)" using level_node [OF rl(1,2)] by blast
  with rl have a: "aa al" "level al = p" "aa ar" "level ar = p \<or> level ar = Suc p \<and> level (right_child ar) = p"
    by auto
  obtain sk sv sl sr where rr_eq: "rr = TreeNode sk sv sl sr (Suc p)" using level_node [OF rl(3,4)] by blast
  with rl have s: "aa sl" "level sl = p" "aa sr" "level sr = p \<or> level sr = Suc p \<and> level (right_child sr) = p"
    by auto
  show ?thesis
  proof (cases "level ar = p")
    case ar: True
    show ?thesis
    proof (cases "level sr = p")
      case True
      then have "rebalance (TreeNode k v l r (Suc (Suc p))) =
          TreeNode ak av (TreeNode k v l al (Suc p)) (TreeNode rk rv ar rr (Suc p)) (Suc (Suc p))"
        using assms r rl rl_eq rr_eq a s ar by (simp add: rotate_simps)
      then show ?thesis using assms r rl rr_eq a s ar True by (simp add: shrunk_def)
    next
      case False
      with s obtain tk tv tl tr where sr: "sr = TreeNode tk tv tl tr (Suc p)"
        using level_node [of sr p] by auto
      have "rebalance (TreeNode k v l r (Suc (Suc p))) =
          TreeNode ak av (TreeNode k v l al (Suc p))
            (TreeNode sk sv (TreeNode rk rv ar sl (Suc p)) sr (Suc (Suc p))) (Suc (Suc p))"
        using assms r rl rl_eq rr_eq a s ar sr by (simp add: rotate_simps)
      then show ?thesis using assms r rl rr_eq a s ar False by (simp add: shrunk_def)
    qed
  next
    case False
    with a obtain bk bv bl br where ar: "ar = TreeNode bk bv bl br (Suc p)"
      using level_node [of ar p] by auto
    with a False have b: "aa bl" "level bl = p" "aa br" "level br = p" by auto
    have "rebalance (TreeNode k v l r (Suc (Suc p))) =
        TreeNode ak av (TreeNode k v l al (Suc p))
          (TreeNode rk rv (TreeNode bk bv bl br (Suc p)) rr (Suc (Suc p))) (Suc (Suc p))"
      using assms r rl rl_eq rr_eq a s ar b by (simp add: rotate_simps)
    then show ?thesis using assms r rl a b by (simp add: shrunk_def)
  qed
qed

lemma rebalance_ok:
  assumes "shrunk_below l r n"
  shows "shrunk (TreeNode k v l r n) (rebalance (TreeNode k v l r n))"
proof -
  have aa: "aa l" "aa r" using assms by (auto simp: shrunk_below_def)
  consider (same) "level l + 1 = n" "level r + 1 = n \<or> level r = n \<and> single r"
    | (l) p where "n = Suc (Suc p)" "level l = Suc p" "level r = p"
    | (r) p where "n = Suc (Suc p)" "level l = p" "level r = Suc p"
    | (rr) p where "n = Suc (Suc p)" "level l = p" "level r = Suc (Suc p)" "single r"
    using assms by (auto simp: shrunk_below_def)
  then show ?thesis
  proof cases
    case same
    then have "rebalance (TreeNode k v l r n) = TreeNode k v l r n" by auto
    moreover have "aa (TreeNode k v l r n)" using same aa aa_single [of r] by auto
    ultimately show ?thesis by (simp add: shrunk_def)
  next
    case l
    then show ?thesis using rebalance_left_taller [OF aa] by simp
  next
    case r
    then show ?thesis using rebalance_right_taller [OF aa] by simp
  next
    case rr
    then show ?thesis using rebalance_right_much_taller [OF aa] by simp
  qed
qed

declare rebalance.simps(2) [simp del]

lemma shrunk_change:
  "shrunk (TreeNode k v l r n) t' \<Longrightarrow> level r \<le> level r0 \<Longrightarrow> shrunk (TreeNode k0 v0 l0 r0 n) t'"
  by (auto simp: shrunk_def)

lemma heir_swap_shape:
  "level (snd (heir_swap kv t)) = level t \<and> level (right_child (snd (heir_swap kv t))) = level (right_child t) \<and>
     (aa (snd (heir_swap kv t)) \<longleftrightarrow> aa t)"
  by (induction kv t rule: heir_swap.induct) (auto simp: split_beta)

lemma heir_swap_inorder:
  "t \<noteq> NoNode \<Longrightarrow> fst (heir_swap kv t) = last (inorder t) \<and>
     inorder (snd (heir_swap kv t)) = butlast (inorder t) @ [kv]"
proof (induction kv t rule: heir_swap.induct)
  case (2 kv xk xv l r n)
  show ?case
  proof (cases r)
    case (TreeNode rk rv rl rr m)
    then have "inorder r \<noteq> []" by simp
    with TreeNode 2 show ?thesis by (simp add: split_beta butlast_append)
  qed simp
qed simp

lemma swap_left_heir: "swap_left kv t = heir_swap kv t"
  by (cases t) (auto simp: swap_left_def split_beta)

lemma shrunk_below_left:
  "aa (TreeNode k v l r n) \<Longrightarrow> shrunk l l' \<Longrightarrow> shrunk_below l' r n"
  by (auto simp: shrunk_below_def shrunk_def)

lemma shrunk_below_right:
  "aa (TreeNode k v l r n) \<Longrightarrow> shrunk r r' \<Longrightarrow> shrunk_below l r' n"
  by (auto simp: shrunk_below_def shrunk_def)

lemma shrunk_level: "shrunk t t' \<Longrightarrow> level t' \<le> level t"
  by (auto simp: shrunk_def)

lemma remove_two_children:
  assumes t: "aa (TreeNode k v l r n)" "ordered (TreeNode k v l r n)" and l: "l \<noteq> NoNode"
    and sw: "swap_left (k, v) l = (kv', l')"
    and IH: "aa l' \<Longrightarrow> ordered l' \<Longrightarrow>
      \<exists>t'. remove_node l' k = Some (map_of (inorder l') k, t') \<and> inorder t' = del k (inorder l') \<and> shrunk l' t'"
  shows "\<exists>l''. remove_node l' k = Some (Some v, l'') \<and>
     inorder (TreeNode (fst kv') (snd kv') l'' r n) = inorder l @ inorder r \<and>
     shrunk_below l'' r n"
proof -
  have sw': "inorder l' = butlast (inorder l) @ [(k, v)]" "kv' = last (inorder l)"
    "level l' = level l" "level (right_child l') = level (right_child l)" "aa l'"
    using heir_swap_inorder [OF l, of "(k, v)"] heir_swap_shape [of "(k, v)" l] t(1) sw
    by (auto simp: swap_left_heir)
  have ne: "inorder l \<noteq> []" using l by (cases l) auto
  have below: "fst p < k" if "p \<in> set (butlast (inorder l))" for p
    using t(2) in_set_butlastD [OF that] by simp
  have "ordered l" using t(2) by simp
  then have "sorted_wrt (<) (map fst (butlast (inorder l)))"
    by (simp add: ordered_def butlast_conv_take flip: take_map)
  then have "ordered l'"
    using below by (simp add: ordered_def sw'(1) sorted_wrt_append)
  with IH sw'(5) obtain l'' where l'': "remove_node l' k = Some (map_of (inorder l') k, l'')"
    "inorder l'' = del k (inorder l')" "shrunk l' l''" by blast
  have "map_of (butlast (inorder l)) k = None" using below by (force simp: map_of_eq_None_iff)
  then have "map_of (inorder l') k = Some v" by (simp add: sw'(1) map_add_def)
  moreover have "inorder l'' = butlast (inorder l)"
    unfolding l''(2) sw'(1) del_def using below by (auto intro!: filter_all)
  moreover have "shrunk l l''" using l''(3) sw' by (auto simp: shrunk_def)
  ultimately show ?thesis
    using l''(1) shrunk_below_left [OF t(1)] sw'(2) ne by auto
qed

lemma remove_node_ok:
  "aa t \<Longrightarrow> ordered t \<Longrightarrow> \<exists>t'. remove_node t key = Some (map_of (inorder t) key, t') \<and>
     inorder t' = del key (inorder t) \<and> shrunk t t'"
proof (induction t key rule: remove_node.induct)
  case (1 key)
  show ?case by (simp add: del_def shrunk_def)
next
  case (2 k v l r n key)
  note t = "2.prems"
  have sub: "aa l" "ordered l" "aa r" "ordered r" using t by auto
  note spec = map_of_node [OF t(2), of key] del_node [OF t(2), of key]
  show ?case
  proof (cases key k rule: linorder_cases)
    case less
    then obtain l' where l': "remove_node l key = Some (map_of (inorder l) key, l')"
      "inorder l' = del key (inorder l)" "shrunk l l'" using "2.IH"(1) sub by auto
    note sh = rebalance_ok [OF shrunk_below_left [OF t(1) l'(3)]]
    show ?thesis
      using less l' shrunk_change [OF sh le_refl] by (simp add: spec case_cmp inorder_simps del: inorder.simps) simp
  next
    case greater
    then obtain r' where r': "remove_node r key = Some (map_of (inorder r) key, r')"
      "inorder r' = del key (inorder r)" "shrunk r r'" using "2.IH"(3) sub by auto
    note sh = rebalance_ok [OF shrunk_below_right [OF t(1) r'(3)]]
    show ?thesis
      using less_not_sym [OF greater] less_imp_neq [OF greater] r' shrunk_change [OF sh shrunk_level [OF r'(3)]]
      by (simp add: spec case_cmp inorder_simps del: inorder.simps) simp
  next
    case equal
    show ?thesis
    proof (cases "l = NoNode")
      case False
      then have lev: "level l \<noteq> 0" using sub(1) by simp
      then have r: "r \<noteq> NoNode" using t(1) by (cases r) auto
      obtain kv' l' where sw: "swap_left (k, v) l = (kv', l')" by fastforce
      have IH: "aa l' \<Longrightarrow> ordered l' \<Longrightarrow> \<exists>t'. remove_node l' k = Some (map_of (inorder l') k, t') \<and>
          inorder t' = del k (inorder l') \<and> shrunk l' t'"
        using "2.IH"(2) [OF _ False r sw [symmetric]] equal by simp
      obtain l'' where l'': "remove_node l' k = Some (Some v, l'')"
        "inorder (TreeNode (fst kv') (snd kv') l'' r n) = inorder l @ inorder r" "shrunk_below l'' r n"
        using remove_two_children [OF t False sw IH] by blast
      show ?thesis
        using equal False r sw l'' shrunk_change [OF rebalance_ok [OF l''(3)] le_refl]
        by (simp add: spec [unfolded equal] case_cmp inorder_simps del: inorder.simps)
    next
      case True
      then have n: "n = 1" using t(1) by simp
      show ?thesis
      proof (cases "r = NoNode")
        case r: True
        show ?thesis using equal True r n by (simp add: case_cmp del_def shrunk_def)
      next
        case False
        then have "level r = 1" "aa r" using t(1) n True by auto
        then have "rebalance r = r" by (cases r) (auto simp: rebalance.simps)
        then show ?thesis
          using equal True False n \<open>level r = 1\<close> \<open>aa r\<close> del_node [OF t(2), of k]
          by (simp add: case_cmp shrunk_def)
      qed
    qed
  qed
qed

section \<open>Refinement of finite maps\<close>

definition tm_invar :: "('k::linorder, 'v) tree_map \<Rightarrow> bool" where
  "tm_invar m \<longleftrightarrow> aa (tm_root m) \<and> ordered (tm_root m) \<and> tm_length m = length (inorder (tm_root m))"

definition tm_abs :: "('k, 'v) tree_map \<Rightarrow> 'k \<rightharpoonup> 'v" where
  "tm_abs m = map_of (inorder (tm_root m))"

lemma ordered_distinct: "ordered t \<Longrightarrow> distinct (map fst (inorder t))"
  by (simp add: ordered_def strict_sorted_iff)

lemma length_card_dom: "distinct (map fst xs) \<Longrightarrow> length xs = card (dom (map_of xs))"
  using distinct_card [of "map fst xs"] by (simp add: dom_map_of_conv_image_fst)

lemma tm_swap_ok:
  assumes "tm_invar m"
  shows "\<exists>m'. tm_swap m k v = Some (tm_abs m k, m') \<and> tm_invar m' \<and> tm_abs m' = (tm_abs m)(k \<mapsto> v)"
proof -
  let ?t = "tm_root m"
  obtain ret t' where ins: "insert_node ?t k v = (ret, t')" by fastforce
  have t: "aa ?t" "ordered ?t" "tm_length m = length (inorder ?t)" using assms by (auto simp: tm_invar_def)
  have ret: "ret = map_of (inorder ?t) k" and t': "inorder t' = upd k v (inorder ?t)"
    using insert_node_inorder [OF t(2), of k v] ins by auto
  have "ordered t'" using t(2) sorted_upd t' by (simp add: ordered_def)
  moreover have "aa t'" using grown_insert [OF t(1), of k v] ins by (simp add: grown_def)
  moreover have "length (inorder t') = (if ret = None then tm_length m + 1 else tm_length m)"
    using length_card_dom [OF ordered_distinct [OF t(2)]] length_card_dom [OF ordered_distinct [OF \<open>ordered t'\<close>]]
    by (auto simp: t(3) t' map_of_upd ret card_insert_if finite_dom_map_of insert_absorb)
  ultimately show ?thesis by (simp add: tm_swap_def ins tm_invar_def tm_abs_def ret t' map_of_upd)
qed

lemma tm_pop_ok:
  assumes "tm_invar m"
  shows "\<exists>m'. tm_pop m k = Some (tm_abs m k, m') \<and> tm_invar m' \<and> tm_abs m' = (tm_abs m)(k := None)"
proof -
  let ?t = "tm_root m"
  have t: "aa ?t" "ordered ?t" "tm_length m = length (inorder ?t)" using assms by (auto simp: tm_invar_def)
  obtain t' where rem: "remove_node ?t k = Some (map_of (inorder ?t) k, t')"
    and t': "inorder t' = del k (inorder ?t)" "aa t'"
    using remove_node_ok [OF t(1,2), of k] by (auto simp: shrunk_def)
  have "ordered t'" using t(2) sorted_del t' by (simp add: ordered_def)
  moreover have "length (inorder t') = (if map_of (inorder ?t) k = None then tm_length m else tm_length m - 1)"
    using length_card_dom [OF ordered_distinct [OF t(2)]] length_card_dom [OF ordered_distinct [OF \<open>ordered t'\<close>]]
    by (auto simp: t(3) t' map_of_del card_Diff_singleton_if)
  ultimately show ?thesis using t'(2) by (auto simp: tm_pop_def rem tm_invar_def tm_abs_def t'(1) map_of_del)
qed

interpretation tm: mutable_map tm_new tm_invar tm_abs tm_len tm_find tm_swap tm_pop
proof
  fix m :: "('k::linorder, 'v) tree_map" and k :: 'k
  assume m: "tm_invar m"
  show "finite (dom (tm_abs m))" by (simp add: tm_abs_def finite_dom_map_of)
  show "tm_len m = card (dom (tm_abs m))"
    using m length_card_dom [OF ordered_distinct [of "tm_root m"]]
    by (simp add: tm_abs_def tm_len_def tm_invar_def)
  show "tm_find m k = tm_abs m k" using m by (simp add: tm_abs_def tm_find_def tm_invar_def find_node_inorder)
qed (rule tm_swap_ok tm_pop_ok, assumption | simp add: tm_invar_def tm_abs_def tm_new_def)+

lemma find_mut_node_ok:
  "ordered t \<Longrightarrow> (case find_mut_node t key of
       None \<Rightarrow> map_of (inorder t) key = None
     | Some (x, w) \<Rightarrow> map_of (inorder t) key = Some x \<and>
         (\<forall>y. inorder (w y) = upd key y (inorder t) \<and> level (w y) = level t \<and>
            level (right_child (w y)) = level (right_child t) \<and> (aa (w y) \<longleftrightarrow> aa t)))"
proof (induction t)
  case (TreeNode k v l r n)
  then have sub: "ordered l" "ordered r" by simp_all
  show ?case
  proof (cases key k rule: linorder_cases)
    case less
    with TreeNode.IH(1) [OF sub(1)] show ?thesis
      by (auto simp: case_cmp map_of_node [OF TreeNode.prems] upd_node [OF TreeNode.prems]
          simp del: inorder.simps(2) split: option.splits) (simp_all)
  next
    case equal
    then show ?thesis
      using map_of_node [OF TreeNode.prems, of key] upd_node [OF TreeNode.prems, of key]
      by (simp add: case_cmp)
  next
    case greater
    then have "\<not> key < k" "key \<noteq> k" by auto
    with TreeNode.IH(2) [OF sub(2)] show ?thesis
      by (auto simp: case_cmp map_of_node [OF TreeNode.prems] upd_node [OF TreeNode.prems]
          simp del: inorder.simps(2) split: option.splits) (simp_all)
  qed
qed simp

text \<open>The number of nodes that a search visits at most.\<close>

fun tree_height :: "('k, 'v) tree \<Rightarrow> nat" where
  "tree_height NoNode = 0"
| "tree_height (TreeNode k v l r n) = max (tree_height l) (tree_height r) + 1"

lemma aa_height: "aa t \<Longrightarrow> tree_height t \<le> 2 * level t \<and> (single t \<longrightarrow> tree_height t \<le> 2 * level t - 1)"
  by (induction t) auto

lemma aa_size: "aa t \<Longrightarrow> 2 ^ level t \<le> length (inorder t) + 1"
proof (induction t)
  case (TreeNode k v l r n)
  then have n: "n = Suc (level l)" "level l \<le> level r" by auto
  then have "(2::nat) ^ level l \<le> 2 ^ level r" by simp
  moreover have "2 ^ level l \<le> length (inorder l) + 1" "2 ^ level r \<le> length (inorder r) + 1"
    using TreeNode by simp_all
  ultimately have "(2::nat) * 2 ^ level l \<le> (length (inorder l) + 1) + (length (inorder r) + 1)" by linarith
  then show ?case by (simp add: n(1))
qed simp

text \<open>
  C18. A \<open>TreeMap\<close> is a finite map: on a balanced search tree no operation fails, the
  failing branch of \<open>remove\<close> for a node with a left child only included; lookup,
  exchange, insertion, removal, extension and length are those of the map; and each operation
  keeps the tree ordered, balanced and its length right.
\<close>

theorem treemap_refines:
  assumes "tm_invar m"
  shows "tm_find m k = tm_abs m k \<and> tm_len m = card (dom (tm_abs m)) \<and>
    (tm_is_empty m \<longleftrightarrow> tm_abs m = Map.empty) \<and>
    (\<exists>m'. tm_swap m k x = Some (tm_abs m k, m') \<and> tm_invar m' \<and> tm_abs m' = (tm_abs m)(k \<mapsto> x)) \<and>
    (\<exists>m'. tm_pop m k = Some (tm_abs m k, m') \<and> tm_invar m' \<and> tm_abs m' = (tm_abs m)(k := None)) \<and>
    (\<exists>m'. tm_insert m k x = Some (k \<notin> dom (tm_abs m), m') \<and> tm_invar m' \<and> tm_abs m' = (tm_abs m)(k \<mapsto> x)) \<and>
    (\<exists>m'. tm_remove m k = Some (k \<in> dom (tm_abs m), m') \<and> tm_invar m' \<and> tm_abs m' = (tm_abs m)(k := None)) \<and>
    (\<exists>m'. tm_extend m kvs = Some m' \<and> tm_invar m' \<and> tm_abs m' = tm_abs m ++ map_of (rev kvs)) \<and>
    (\<exists>m'. tm_from_iter kvs = Some m' \<and> tm_invar m' \<and> tm_abs m' = map_of (rev kvs))"
proof -
  have "tm_is_empty m \<longleftrightarrow> tm_abs m = Map.empty"
    by (cases "tm_root m") (auto simp: tm_is_empty_def tm_abs_def)
  moreover have "\<exists>m'. extend_with (insert_default tm_swap) tm_new kvs = Some m' \<and> tm_invar m' \<and>
      tm_abs m' = map_of (rev kvs)"
    using tm.extend_ok [OF tm.new_ok(1), of kvs] by (simp add: tm.new_ok(2))
  ultimately show ?thesis
    by (simp only: tm_insert_def tm_remove_def tm_extend_def tm_from_iter_def simp_thms tm.len_ok [OF assms] tm.find_ok [OF assms] tm.swap_ok [OF assms]
        tm.pop_ok [OF assms] tm.insert_ok [OF assms] tm.remove_ok [OF assms] tm.extend_ok [OF assms])
qed

theorem treemap_refines_witness:
  "\<exists>m. tm_from_iter [(3, ''c''), (1, ''a''), (2, ''b''), (4, ''d''), (5::nat, ''e'')] = Some m \<and> tm_invar m \<and>
     (\<exists>m'. tm_pop m 4 = Some (Some ''d'', m') \<and> tm_abs m' 5 = Some ''e'' \<and> tm_abs m' 4 = None)"
proof -
  let ?t = "TreeNode 2 ''b'' (TreeNode 1 ''a'' NoNode NoNode 1)
     (TreeNode (4::nat) ''d'' (TreeNode 3 ''c'' NoNode NoNode 1) (TreeNode 5 ''e'' NoNode NoNode 1) 2) 2"
  let ?m = "\<lparr>tm_root = ?t, tm_length = 5\<rparr>"
  have inv: "tm_invar ?m" by (simp add: tm_invar_def)
  have "tm_from_iter [(3, ''c''), (1, ''a''), (2, ''b''), (4, ''d''), (5, ''e'')] = Some ?m"
    by (simp add: tm_from_iter_def tm_extend_def tm_insert_def insert_default_def tm_swap_def tm_new_def
        node_new_def case_cmp)
  moreover have "tm_abs ?m 4 = Some ''d''" "tm_abs ?m 5 = Some ''e''" by (simp_all add: tm_abs_def)
  ultimately show ?thesis using treemap_refines [OF inv, of 4 "[]" "[]"] inv by auto
qed



end
