(* ===== verification/TreeIter.thy ===== *)
theory TreeIter
  imports TreeMap
begin

text \<open>
  The iterators of \<open>libcollections/treemap.rs\<close>: in both directions, from a bound, and the
  one that consumes the map; and the comparisons that run over two of them.

  A reference to a node is the tuple of its fields; the head of a stack is its top.  The
  iterators over mutable values are the same code, instantiated by the macro
  \<open>define_iterator\<close>.
\<close>

section \<open>Operations\<close>

type_synonym ('k, 'v) node_ref = "'k \<times> 'v \<times> ('k, 'v) tree \<times> ('k, 'v) tree \<times> uint"

record ('k, 'v) tm_entries =
  e_stack :: "('k, 'v) node_ref list"
  e_node :: "('k, 'v) tree"
  remaining_min :: uint
  remaining_max :: uint

definition tm_iter :: "('k, 'v) tree_map \<Rightarrow> ('k, 'v) tm_entries" where
  "tm_iter m = \<lparr>e_stack = [], e_node = tm_root m, remaining_min = tm_length m, remaining_max = tm_length m\<rparr>"

definition iter_for_traversal :: "('k, 'v) tree_map \<Rightarrow> ('k, 'v) tm_entries" where
  "iter_for_traversal m = \<lparr>e_stack = [], e_node = tm_root m, remaining_min = 0, remaining_max = tm_length m\<rparr>"

function next_dir :: "bool \<Rightarrow> ('k, 'v) tm_entries \<Rightarrow> ('k \<times> 'v) option \<times> ('k, 'v) tm_entries" where
  "next_dir forward it =
     (case e_node it of
        TreeNode k v l r n \<Rightarrow>
          next_dir forward (it\<lparr>e_node := (if forward then l else r), e_stack := (k, v, l, r, n) # e_stack it\<rparr>)
      | NoNode \<Rightarrow>
          (case e_stack it of
             [] \<Rightarrow> (None, it)
           | (k, v, l, r, n) # stack \<Rightarrow>
               (Some (k, v),
                it\<lparr>e_stack := stack, e_node := (if forward then r else l),
                   remaining_max := remaining_max it - 1,
                   remaining_min := (if remaining_min it > 0 then remaining_min it - 1 else remaining_min it)\<rparr>)))"
  by pat_completeness auto
termination by (relation "measure (\<lambda>(forward, it). size (e_node it))") auto

declare next_dir.simps [simp del]

definition entries_next :: "('k, 'v) tm_entries \<Rightarrow> ('k \<times> 'v) option \<times> ('k, 'v) tm_entries" where
  "entries_next = next_dir True"

definition entries_size_hint :: "('k, 'v) tm_entries \<Rightarrow> uint \<times> uint option" where
  "entries_size_hint it = (remaining_min it, Some (remaining_max it))"

record ('k, 'v) tm_rev_entries =
  re_iter :: "('k, 'v) tm_entries"

definition tm_rev_iter :: "('k, 'v) tree_map \<Rightarrow> ('k, 'v) tm_rev_entries" where
  "tm_rev_iter m = \<lparr>re_iter = tm_iter m\<rparr>"

definition rev_entries_next :: "('k, 'v) tm_rev_entries \<Rightarrow> ('k \<times> 'v) option \<times> ('k, 'v) tm_rev_entries" where
  "rev_entries_next it = (let (x, i) = next_dir False (re_iter it) in (x, it\<lparr>re_iter := i\<rparr>))"

definition rev_entries_size_hint :: "('k, 'v) tm_rev_entries \<Rightarrow> uint \<times> uint option" where
  "rev_entries_size_hint it = entries_size_hint (re_iter it)"

text \<open>Moving an iterator to a node of the tree; the first two are called at a node only.\<close>

definition traverse_left :: "('k, 'v) tm_entries \<Rightarrow> ('k, 'v) tm_entries" where
  "traverse_left it =
     (case e_node it of
        NoNode \<Rightarrow> it
      | TreeNode k v l r n \<Rightarrow> it\<lparr>e_node := l, e_stack := (k, v, l, r, n) # e_stack it\<rparr>)"

definition traverse_right :: "('k, 'v) tm_entries \<Rightarrow> ('k, 'v) tm_entries" where
  "traverse_right it = (case e_node it of NoNode \<Rightarrow> it | TreeNode k v l r n \<Rightarrow> it\<lparr>e_node := r\<rparr>)"

definition traverse_complete :: "('k, 'v) tm_entries \<Rightarrow> ('k, 'v) tm_entries" where
  "traverse_complete it =
     (case e_node it of
        NoNode \<Rightarrow> it
      | TreeNode k v l r n \<Rightarrow> it\<lparr>e_stack := (k, v, l, r, n) # e_stack it, e_node := NoNode\<rparr>)"

function bound_setup :: "bool \<Rightarrow> 'k::linorder \<Rightarrow> ('k, 'v) tm_entries \<Rightarrow> ('k, 'v) tm_entries" where
  "bound_setup is_lower_bound k it =
     (case e_node it of
        TreeNode node_k v l r n \<Rightarrow>
          (case cmp k node_k of
             Less \<Rightarrow> bound_setup is_lower_bound k (traverse_left it)
           | Greater \<Rightarrow> bound_setup is_lower_bound k (traverse_right it)
           | Equal \<Rightarrow>
               if is_lower_bound then traverse_complete it
               else bound_setup is_lower_bound k (traverse_right it))
      | NoNode \<Rightarrow> traverse_complete it)"
  by pat_completeness auto
termination
  by (relation "measure (\<lambda>(lower, k, it). size (e_node it))") (auto simp: traverse_left_def traverse_right_def)

declare bound_setup.simps [simp del]

definition tm_lower_bound :: "('k::linorder, 'v) tree_map \<Rightarrow> 'k \<Rightarrow> ('k, 'v) tm_entries" where
  "tm_lower_bound m k = bound_setup True k (iter_for_traversal m)"

definition tm_upper_bound :: "('k::linorder, 'v) tree_map \<Rightarrow> 'k \<Rightarrow> ('k, 'v) tm_entries" where
  "tm_upper_bound m k = bound_setup False k (iter_for_traversal m)"

text \<open>The iterator that takes the nodes apart.\<close>

record ('k, 'v) tm_move_entries =
  me_stack :: "('k, 'v) node_ref list"
  me_remaining :: uint

definition tm_move_iter :: "('k, 'v) tree_map \<Rightarrow> ('k, 'v) tm_move_entries" where
  "tm_move_iter m =
     \<lparr>me_stack = (case tm_root m of NoNode \<Rightarrow> [] | TreeNode k v l r n \<Rightarrow> [(k, v, l, r, n)]),
      me_remaining = tm_length m\<rparr>"

fun left_links :: "('k, 'v) tree \<Rightarrow> nat" where
  "left_links NoNode = 0"
| "left_links (TreeNode k v l r n) = (if l = NoNode then 0 else Suc (left_links l)) + left_links r"

function move_next :: "('k, 'v) tm_move_entries \<Rightarrow> ('k \<times> 'v) option \<times> ('k, 'v) tm_move_entries" where
  "move_next it =
     (case me_stack it of
        [] \<Rightarrow> (None, it)
      | (key, val, left, right, lvl) # stack \<Rightarrow>
          (case left of
             TreeNode k v l r n \<Rightarrow>
               move_next (it\<lparr>me_stack := (k, v, l, r, n) # (key, val, NoNode, right, lvl) # stack\<rparr>)
           | NoNode \<Rightarrow>
               (Some (key, val),
                it\<lparr>me_stack := (case right of NoNode \<Rightarrow> stack | TreeNode k v l r n \<Rightarrow> (k, v, l, r, n) # stack),
                   me_remaining := me_remaining it - 1\<rparr>)))"
  by pat_completeness auto
termination
  by (relation "measure (\<lambda>it. \<Sum>(k, v, l, r, n) \<leftarrow> me_stack it. left_links (TreeNode k v l r n))") auto

declare move_next.simps [simp del]

definition move_size_hint :: "('k, 'v) tm_move_entries \<Rightarrow> uint \<times> uint option" where
  "move_size_hint it = (me_remaining it, Some (me_remaining it))"

text \<open>Equality and the lexicographical order; the outer option is an endless loop.\<close>

definition tm_eq :: "('k::linorder, 'v) tree_map \<Rightarrow> ('k, 'v) tree_map \<Rightarrow> bool option" where
  "tm_eq self other =
     (if tm_len self = tm_len other
      then do { r \<leftarrow> zip_search (\<lambda>a b. if a = b then None else Some ()) entries_next entries_next
                  (tm_iter self) (tm_iter other);
                Some (r = None) }
      else Some False)"

text \<open>The body of the loop of \<open>lt\<close>: what it returns, if it returns.\<close>

fun entry_lt :: "'k::linorder \<times> 'v::linorder \<Rightarrow> 'k \<times> 'v \<Rightarrow> bool option" where
  "entry_lt (key_a, value_a) (key_b, value_b) =
     (if key_a < key_b then Some True
      else if key_a > key_b then Some False
      else if value_a < value_b then Some True
      else if value_a > value_b then Some False
      else None)"

definition tm_lt :: "('k::linorder, 'v::linorder) tree_map \<Rightarrow> ('k, 'v) tree_map \<Rightarrow> bool option" where
  "tm_lt a b =
     do { r \<leftarrow> zip_search entry_lt entries_next entries_next (tm_iter a) (tm_iter b);
          Some (case r of Some r \<Rightarrow> r | None \<Rightarrow> tm_len a < tm_len b) }"

definition tm_le :: "('k::linorder, 'v::linorder) tree_map \<Rightarrow> ('k, 'v) tree_map \<Rightarrow> bool option" where
  "tm_le self other = map_option Not (tm_lt other self)"

definition tm_ge :: "('k::linorder, 'v::linorder) tree_map \<Rightarrow> ('k, 'v) tree_map \<Rightarrow> bool option" where
  "tm_ge self other = map_option Not (tm_lt self other)"

definition tm_gt :: "('k::linorder, 'v::linorder) tree_map \<Rightarrow> ('k, 'v) tree_map \<Rightarrow> bool option" where
  "tm_gt self other = tm_lt other self"

section \<open>What the iterators deliver\<close>

definition in_direction :: "bool \<Rightarrow> 'a list \<Rightarrow> 'a list" where
  "in_direction forward xs = (if forward then xs else rev xs)"

definition stack_pending :: "bool \<Rightarrow> ('k, 'v) node_ref list \<Rightarrow> ('k \<times> 'v) list" where
  "stack_pending forward stack =
     concat (map (\<lambda>(k, v, l, r, n). (k, v) # in_direction forward (inorder (if forward then r else l))) stack)"

definition e_pending :: "bool \<Rightarrow> ('k, 'v) tm_entries \<Rightarrow> ('k \<times> 'v) list" where
  "e_pending forward it = in_direction forward (inorder (e_node it)) @ stack_pending forward (e_stack it)"

text \<open>The hints enclose the number of entries that are left.\<close>

definition e_invar :: "bool \<Rightarrow> ('k, 'v) tm_entries \<Rightarrow> bool" where
  "e_invar forward it \<longleftrightarrow>
     remaining_min it \<le> length (e_pending forward it) \<and> length (e_pending forward it) \<le> remaining_max it"

lemmas e_defs = e_pending_def e_invar_def stack_pending_def in_direction_def

lemma next_dir_pending:
  "\<exists>it'. e_pending forward it' = tl (e_pending forward it) \<and>
     remaining_max it' = (if e_pending forward it = [] then remaining_max it else remaining_max it - 1) \<and>
     remaining_min it' = (if e_pending forward it = [] then remaining_min it else remaining_min it - 1) \<and>
     next_dir forward it =
       (if e_pending forward it = [] then None else Some (hd (e_pending forward it)), it')"
proof (induction forward it rule: next_dir.induct)
  case (1 forward it)
  show ?case
  proof (cases "e_node it")
    case NoNode
    then show ?thesis
      by (cases "e_stack it") (auto simp: next_dir.simps [of forward it] e_defs split: if_splits)
  next
    case (TreeNode k v l r n)
    define it1 where "it1 = it\<lparr>e_node := (if forward then l else r), e_stack := (k, v, l, r, n) # e_stack it\<rparr>"
    have same: "e_pending forward it1 = e_pending forward it" "next_dir forward it = next_dir forward it1"
      using TreeNode by (simp_all add: it1_def next_dir.simps [of forward it]) (simp add: e_defs)
    have hints: "remaining_max it1 = remaining_max it" "remaining_min it1 = remaining_min it"
      by (simp_all add: it1_def)
    from "1.IH" [OF TreeNode, folded it1_def] show ?thesis unfolding same hints .
  qed
qed

lemma next_dir_ok:
  assumes "e_invar forward it"
  shows "\<exists>it'. e_invar forward it' \<and> e_pending forward it' = tl (e_pending forward it) \<and>
     next_dir forward it =
       (if e_pending forward it = [] then None else Some (hd (e_pending forward it)), it')"
proof -
  obtain it' where "e_pending forward it' = tl (e_pending forward it)"
     "remaining_max it' = (if e_pending forward it = [] then remaining_max it else remaining_max it - 1)"
     "remaining_min it' = (if e_pending forward it = [] then remaining_min it else remaining_min it - 1)"
     "next_dir forward it = (if e_pending forward it = [] then None else Some (hd (e_pending forward it)), it')"
    using next_dir_pending [of forward it] by blast
  moreover have "e_invar forward it'"
    using assms calculation by (cases "e_pending forward it") (auto simp: e_invar_def)
  ultimately show ?thesis by blast
qed

interpretation entries: forward_iterator "e_invar True" "e_pending True" entries_next
  unfolding entries_next_def by unfold_locales (rule next_dir_ok)

interpretation rev_entries: forward_iterator "\<lambda>it. e_invar False (re_iter it)" "\<lambda>it. e_pending False (re_iter it)"
  rev_entries_next
proof
  fix it :: "('k, 'v) tm_rev_entries"
  assume "e_invar False (re_iter it)"
  from next_dir_ok [OF this] obtain i' where "e_invar False i'" "e_pending False i' = tl (e_pending False (re_iter it))"
    "next_dir False (re_iter it) =
       (if e_pending False (re_iter it) = [] then None else Some (hd (e_pending False (re_iter it))), i')" by blast
  then show "\<exists>it'. e_invar False (re_iter it') \<and> e_pending False (re_iter it') = tl (e_pending False (re_iter it)) \<and>
      rev_entries_next it = (if e_pending False (re_iter it) = [] then None
        else Some (hd (e_pending False (re_iter it))), it')"
    by (intro exI [of _ "it\<lparr>re_iter := i'\<rparr>"]) (simp add: rev_entries_next_def)
qed

lemma tm_iter_ok:
  "tm_invar m \<Longrightarrow> e_invar True (tm_iter m)" "e_pending True (tm_iter m) = inorder (tm_root m)"
  "tm_invar m \<Longrightarrow> e_invar False (re_iter (tm_rev_iter m))"
  "e_pending False (re_iter (tm_rev_iter m)) = rev (inorder (tm_root m))"
  by (auto simp: tm_iter_def tm_rev_iter_def e_defs tm_invar_def)

text \<open>Entries from a bound on.\<close>

definition above :: "bool \<Rightarrow> 'k::linorder \<Rightarrow> ('k \<times> 'v) list \<Rightarrow> ('k \<times> 'v) list" where
  "above inclusive k xs = filter (\<lambda>p. k < fst p \<or> inclusive \<and> k = fst p) xs"

lemma above_node:
  assumes "ordered (TreeNode x v l r n)"
  shows "above inclusive k (inorder (TreeNode x v l r n)) =
    (if k < x then above inclusive k (inorder l) @ (x, v) # inorder r
     else if k = x then (if inclusive then [(x, v)] else []) @ inorder r
     else above inclusive k (inorder r))"
proof -
  have l: "\<forall>p \<in> set (inorder l). fst p < x" and r: "\<forall>p \<in> set (inorder r). x < fst p"
    using assms by auto
  have "above inclusive k (inorder r) = inorder r" if "k \<le> x"
    using that r unfolding above_def by (auto intro!: filter_all)
  moreover have "above inclusive k (inorder l) = []" if "x \<le> k"
    using that l unfolding above_def by (auto intro!: filter_none)
  ultimately show ?thesis by (auto simp: above_def)
qed

lemma bound_setup_ok:
  "ordered (e_node it) \<Longrightarrow>
     e_pending True (bound_setup lower k it) = above lower k (inorder (e_node it)) @ stack_pending True (e_stack it) \<and>
     remaining_min (bound_setup lower k it) = remaining_min it \<and>
     remaining_max (bound_setup lower k it) = remaining_max it"
proof (induction lower k it rule: bound_setup.induct)
  case (1 lower k it)
  show ?case
  proof (cases "e_node it")
    case NoNode
    then show ?thesis by (simp add: bound_setup.simps [of lower k it] traverse_complete_def e_defs above_def)
  next
    case (TreeNode x v l r n)
    then have ord: "ordered (TreeNode x v l r n)" "ordered l" "ordered r" using "1.prems" by auto
    have step: "bound_setup lower k it =
        (if k < x then bound_setup lower k (traverse_left it)
         else if k = x \<and> lower then traverse_complete it else bound_setup lower k (traverse_right it))"
      by (simp add: bound_setup.simps [of lower k it] TreeNode case_cmp)
    note eqs = TreeNode above_node [OF ord(1)]
      traverse_left_def traverse_right_def traverse_complete_def e_defs
    show ?thesis
    proof (cases k x rule: linorder_cases)
      case less
      with "1.IH"(1) [OF TreeNode] ord show ?thesis unfolding step by (simp add: eqs del: inorder.simps(2))
    next
      case equal
      have "above False x (inorder r) = inorder r"
        using ord(1) by (auto simp: above_def intro!: filter_all)
      with equal "1.IH"(2) [OF TreeNode] ord show ?thesis unfolding step
        by (cases lower) (simp_all add: eqs del: inorder.simps(2))
    next
      case greater
      then have "\<not> k < x" "k \<noteq> x" by auto
      with greater "1.IH"(3) [OF TreeNode] ord show ?thesis unfolding step by (simp add: eqs del: inorder.simps(2))
    qed
  qed
qed

lemma bound_iter_ok:
  assumes "tm_invar m"
  shows "e_invar True (bound_setup lower k (iter_for_traversal m))"
    "e_pending True (bound_setup lower k (iter_for_traversal m)) = above lower k (inorder (tm_root m))"
proof -
  have "ordered (e_node (iter_for_traversal m))" using assms by (simp add: iter_for_traversal_def tm_invar_def)
  note start = bound_setup_ok [OF this, of lower k]
  from start show eq: "e_pending True (bound_setup lower k (iter_for_traversal m)) = above lower k (inorder (tm_root m))"
    by (simp add: iter_for_traversal_def stack_pending_def)
  have "tm_length m = length (inorder (tm_root m))" using assms by (simp add: tm_invar_def)
  then show "e_invar True (bound_setup lower k (iter_for_traversal m))"
    using start unfolding e_invar_def eq by (simp add: iter_for_traversal_def above_def)
qed

definition me_pending :: "('k, 'v) tm_move_entries \<Rightarrow> ('k \<times> 'v) list" where
  "me_pending it = concat (map (\<lambda>(k, v, l, r, n). inorder (TreeNode k v l r n)) (me_stack it))"

definition me_invar :: "('k, 'v) tm_move_entries \<Rightarrow> bool" where
  "me_invar it \<longleftrightarrow> me_remaining it = length (me_pending it)"

lemma move_next_ok:
  "me_invar it \<Longrightarrow> \<exists>it'. me_invar it' \<and> me_pending it' = tl (me_pending it) \<and>
     move_next it = (if me_pending it = [] then None else Some (hd (me_pending it)), it')"
proof (induction it rule: move_next.induct)
  case (1 it)
  show ?case
  proof (cases "me_stack it")
    case Nil
    with "1.prems" show ?thesis by (simp add: move_next.simps [of it] me_invar_def me_pending_def)
  next
    case (Cons top stack)
    obtain key val left right lvl where top: "top = (key, val, left, right, lvl)" by (cases top) auto
    show ?thesis
    proof (cases left)
      case NoNode
      with Cons top "1.prems" show ?thesis
        by (cases right) (auto simp: move_next.simps [of it] me_invar_def me_pending_def)
    next
      case (TreeNode k v l r n)
      define it1 where "it1 = it\<lparr>me_stack := (k, v, l, r, n) # (key, val, NoNode, right, lvl) # stack\<rparr>"
      have same: "me_pending it1 = me_pending it" "move_next it = move_next it1"
        using TreeNode Cons top by (simp_all add: it1_def move_next.simps [of it]) (simp add: me_pending_def)
      have "me_invar it1" using "1.prems" same(1) by (simp add: me_invar_def it1_def)
      with "1.IH" [OF Cons top [symmetric] refl refl refl TreeNode, folded it1_def] show ?thesis unfolding same by simp
    qed
  qed
qed

interpretation move_entries: forward_iterator me_invar me_pending move_next
  by unfold_locales (rule move_next_ok)

lemma tm_move_iter_ok:
  "me_pending (tm_move_iter m) = inorder (tm_root m)" "tm_invar m \<Longrightarrow> me_invar (tm_move_iter m)"
  by (auto simp: tm_move_iter_def me_invar_def me_pending_def tm_invar_def split: tree.split)

text \<open>
  C20. Every iterator of a \<open>TreeMap\<close> ends, and delivers each entry once: in ascending
  order of the keys, in descending order, consuming the map, or only the entries with keys not
  less than, or greater than, a bound.  The size hint of an iterator over all is exact, and
  that of one from a bound is an upper limit.
\<close>

theorem treemap_iterators:
  assumes "tm_invar m"
  shows "\<exists>es. sorted_wrt (<) (map fst es) \<and> map_of es = tm_abs m \<and>
    collect entries_next (tm_iter m) = Some es \<and>
    collect rev_entries_next (tm_rev_iter m) = Some (rev es) \<and>
    collect move_next (tm_move_iter m) = Some es \<and>
    collect entries_next (tm_lower_bound m k) = Some (filter (\<lambda>p. k \<le> fst p) es) \<and>
    collect entries_next (tm_upper_bound m k) = Some (filter (\<lambda>p. k < fst p) es) \<and>
    entries_size_hint (tm_iter m) = (length es, Some (length es)) \<and>
    rev_entries_size_hint (tm_rev_iter m) = (length es, Some (length es)) \<and>
    move_size_hint (tm_move_iter m) = (length es, Some (length es)) \<and>
    (\<exists>n. entries_size_hint (tm_lower_bound m k) = (0, Some n) \<and> length (filter (\<lambda>p. k \<le> fst p) es) \<le> n)"
proof (intro exI [of _ "inorder (tm_root m)"] conjI)
  let ?es = "inorder (tm_root m)"
  have m: "ordered (tm_root m)" "tm_length m = length ?es" using assms by (auto simp: tm_invar_def)
  show "sorted_wrt (<) (map fst ?es)" using m(1) by (simp add: ordered_def)
  show "map_of ?es = tm_abs m" by (simp add: tm_abs_def)
  show "collect entries_next (tm_iter m) = Some ?es" "collect rev_entries_next (tm_rev_iter m) = Some (rev ?es)"
    using entries.collect_ok rev_entries.collect_ok tm_iter_ok [of m] assms by fastforce+
  show "collect move_next (tm_move_iter m) = Some ?es"
    using move_entries.collect_ok tm_move_iter_ok [of m] assms by fastforce
  have above: "above True k ?es = filter (\<lambda>p. k \<le> fst p) ?es" "above False k ?es = filter (\<lambda>p. k < fst p) ?es"
    by (auto simp: above_def le_less)
  show "collect entries_next (tm_lower_bound m k) = Some (filter (\<lambda>p. k \<le> fst p) ?es)"
    "collect entries_next (tm_upper_bound m k) = Some (filter (\<lambda>p. k < fst p) ?es)"
    using entries.collect_ok [OF bound_iter_ok(1) [OF assms]] bound_iter_ok(2) [OF assms] above
    by (auto simp: tm_lower_bound_def tm_upper_bound_def)
  show "entries_size_hint (tm_iter m) = (length ?es, Some (length ?es))"
    "rev_entries_size_hint (tm_rev_iter m) = (length ?es, Some (length ?es))"
    "move_size_hint (tm_move_iter m) = (length ?es, Some (length ?es))"
    by (simp_all add: entries_size_hint_def rev_entries_size_hint_def move_size_hint_def tm_iter_def
        tm_rev_iter_def tm_move_iter_def m)
  have "ordered (e_node (iter_for_traversal m))" using m by (simp add: iter_for_traversal_def)
  from bound_setup_ok [OF this, of True k]
  show "\<exists>n. entries_size_hint (tm_lower_bound m k) = (0, Some n) \<and> length (filter (\<lambda>p. k \<le> fst p) ?es) \<le> n"
    by (simp add: entries_size_hint_def tm_lower_bound_def iter_for_traversal_def m(2))
qed

theorem treemap_iterators_witness:
  "collect entries_next (tm_lower_bound
     \<lparr>tm_root = TreeNode 2 ''b'' (TreeNode (1::nat) ''a'' NoNode NoNode 1) (TreeNode 4 ''d'' NoNode NoNode 1) 2,
      tm_length = 3\<rparr> 3) = Some [(4, ''d'')]"
proof -
  let ?m = "\<lparr>tm_root = TreeNode 2 ''b'' (TreeNode (1::nat) ''a'' NoNode NoNode 1) (TreeNode 4 ''d'' NoNode NoNode 1) 2,
      tm_length = 3\<rparr>"
  have "tm_invar ?m" by (simp add: tm_invar_def)
  from treemap_iterators [OF this, of 3] obtain es where
    "collect entries_next (tm_iter ?m) = Some es"
    "collect entries_next (tm_lower_bound ?m 3) = Some (filter (\<lambda>p. 3 \<le> fst p) es)" by blast
  moreover have "collect entries_next (tm_iter ?m) = Some [(1, ''a''), (2, ''b''), (4, ''d'')]"
    by (simp add: collect.simps tm_iter_def entries_next_def next_dir.simps)
  ultimately show ?thesis by simp
qed

lemma zip_find_eq:
  "length xs = length ys \<Longrightarrow> zip_find (\<lambda>a b. if a = b then None else Some ()) xs ys = None \<longleftrightarrow> xs = ys"
  by (induction xs ys rule: list_induct2) auto

lemma zip_find_lt:
  fixes xs ys :: "('k::linorder \<times> 'v::linorder) list"
  shows "(case zip_find entry_lt xs ys of Some r \<Rightarrow> r | None \<Rightarrow> length xs < length ys) \<longleftrightarrow> xs < ys"
proof (induction xs arbitrary: ys)
  case Nil
  show ?case by (cases ys) auto
next
  case (Cons x xs)
  obtain k v where x: "x = (k, v)" by fastforce
  show ?case
  proof (cases ys)
    case (Cons y ys')
    obtain k' v' where y: "y = (k', v')" by fastforce
    show ?thesis using Cons.IH [of ys'] by (auto simp: \<open>ys = y # ys'\<close> x y split: option.splits)
  qed simp
qed

lemma inorder_unique:
  assumes "ordered s" "ordered t" "map_of (inorder s) = map_of (inorder t)"
  shows "inorder s = inorder t"
proof (rule map_sorted_distinct_set_unique [where f = fst])
  have *: "set (inorder u) = {(k, v). map_of (inorder u) k = Some v}" if "ordered u" for u :: "('a, 'b) tree"
    using ordered_distinct [OF that] by auto
  show eq: "set (inorder s) = set (inorder t)" using * assms by simp
  show "inj_on fst (set (inorder s) \<union> set (inorder t))"
    using ordered_distinct [OF assms(1)] by (simp add: eq [symmetric] distinct_map)
qed (use assms in \<open>simp_all add: ordered_def strict_sorted_iff\<close>)

text \<open>
  C22. Comparison of tree maps always returns; equality is equality of the maps, however the
  trees are shaped, and the four order relations are the lexicographical order of the entries
  sorted by key.
\<close>

theorem treemap_comparison:
  fixes a b :: "('k::linorder, 'v::linorder) tree_map"
  assumes "tm_invar a" "tm_invar b"
  shows "\<exists>es es'. sorted_wrt (<) (map fst es) \<and> map_of es = tm_abs a \<and>
    sorted_wrt (<) (map fst es') \<and> map_of es' = tm_abs b \<and>
    tm_eq a b = Some (tm_abs a = tm_abs b) \<and> tm_lt a b = Some (es < es') \<and> tm_le a b = Some (es \<le> es') \<and>
    tm_gt a b = Some (es' < es) \<and> tm_ge a b = Some (es' \<le> es)"
proof (rule exI [of _ "inorder (tm_root a)"], rule exI [of _ "inorder (tm_root b)"], intro conjI)
  let ?xs = "inorder (tm_root a)" and ?ys = "inorder (tm_root b)"
  have ord: "ordered (tm_root a)" "ordered (tm_root b)" and len: "tm_len a = length ?xs" "tm_len b = length ?ys"
    using assms by (auto simp: tm_invar_def tm_len_def)
  show "sorted_wrt (<) (map fst ?xs)" "sorted_wrt (<) (map fst ?ys)" using ord by (simp_all add: ordered_def)
  show abs: "map_of ?xs = tm_abs a" "map_of ?ys = tm_abs b" by (simp_all add: tm_abs_def)
  have search: "zip_search f entries_next entries_next (tm_iter m) (tm_iter m') =
      Some (zip_find f (inorder (tm_root m)) (inorder (tm_root m')))" if "tm_invar m" "tm_invar m'"
    for m m' :: "('k, 'v) tree_map" and f :: "'k \<times> 'v \<Rightarrow> 'k \<times> 'v \<Rightarrow> 'r option"
    using entries.zip_search_ok [OF tm_iter_ok(1) tm_iter_ok(1), OF that] by (simp add: tm_iter_ok)
  have lt: "tm_lt m m' = Some (inorder (tm_root m) < inorder (tm_root m'))" if "tm_invar m" "tm_invar m'"
    for m m' :: "('k, 'v) tree_map"
    using that zip_find_lt [of "inorder (tm_root m)" "inorder (tm_root m')"]
    by (simp add: tm_lt_def search tm_len_def tm_invar_def split: option.splits)
  show "tm_eq a b = Some (tm_abs a = tm_abs b)"
    using inorder_unique [OF ord] by (auto simp: tm_eq_def search assms len zip_find_eq simp flip: abs)
  show "tm_lt a b = Some (?xs < ?ys)" "tm_le a b = Some (?xs \<le> ?ys)" "tm_gt a b = Some (?ys < ?xs)"
    "tm_ge a b = Some (?ys \<le> ?xs)"
    by (auto simp: tm_le_def tm_gt_def tm_ge_def lt assms)
qed

theorem treemap_comparison_witness:
  "tm_eq \<lparr>tm_root = TreeNode 1 5 NoNode (TreeNode (2::nat) (7::nat) NoNode NoNode 1) 1, tm_length = 2\<rparr>
         \<lparr>tm_root = TreeNode 1 5 NoNode (TreeNode 2 6 NoNode NoNode 1) 1, tm_length = 2\<rparr> = Some False"
proof -
  let ?m = "\<lambda>x. \<lparr>tm_root = TreeNode 1 5 NoNode (TreeNode (2::nat) (x::nat) NoNode NoNode 1) 1, tm_length = 2\<rparr>"
  have "tm_invar (?m x)" for x by (simp add: tm_invar_def)
  from treemap_comparison [OF this [of 7] this [of 6]]
  have "tm_eq (?m 7) (?m 6) = Some (tm_abs (?m 7) = tm_abs (?m 6))" by blast
  moreover have "tm_abs (?m 7) 2 \<noteq> tm_abs (?m 6) 2" by (simp add: tm_abs_def)
  then have "tm_abs (?m 7) \<noteq> tm_abs (?m 6)" by metis
  ultimately show ?thesis by simp
qed

end
