(* ===== verification/TreeSet.thy ===== *)
theory TreeSet
  imports TreeIter
begin

text \<open>
  Ordered sets as tree maps to unit (\<open>TreeSet\<close> of \<open>libcollections/treemap.rs\<close>), and the
  lazy iterators over their difference, symmetric difference, intersection and union, which
  walk two sorted sequences in step.
\<close>

section \<open>Operations\<close>

record 't tree_set =
  ts_map :: "('t, unit) tree_map"

definition ts_new :: "'t tree_set" where
  "ts_new = \<lparr>ts_map = tm_new\<rparr>"

definition ts_len :: "'t tree_set \<Rightarrow> uint" where
  "ts_len s = tm_len (ts_map s)"

definition ts_is_empty :: "'t tree_set \<Rightarrow> bool" where
  "ts_is_empty s = tm_is_empty (ts_map s)"

definition ts_clear :: "'t tree_set \<Rightarrow> 't tree_set" where
  "ts_clear s = s\<lparr>ts_map := tm_clear (ts_map s)\<rparr>"

definition ts_contains :: "'t::linorder tree_set \<Rightarrow> 't \<Rightarrow> bool" where
  "ts_contains s x = contains_key_default tm_find (ts_map s) x"

definition ts_insert :: "'t::linorder tree_set \<Rightarrow> 't \<Rightarrow> (bool \<times> 't tree_set) option" where
  "ts_insert s x = map_option (\<lambda>(r, m). (r, s\<lparr>ts_map := m\<rparr>)) (tm_insert (ts_map s) x ())"

definition ts_remove :: "'t::linorder tree_set \<Rightarrow> 't \<Rightarrow> (bool \<times> 't tree_set) option" where
  "ts_remove s x = map_option (\<lambda>(r, m). (r, s\<lparr>ts_map := m\<rparr>)) (tm_remove (ts_map s) x)"

fun ts_extend :: "'t::linorder tree_set \<Rightarrow> 't list \<Rightarrow> 't tree_set option" where
  "ts_extend s [] = Some s"
| "ts_extend s (x # xs) = do { (_, s') \<leftarrow> ts_insert s x; ts_extend s' xs }"

definition ts_from_iter :: "'t::linorder list \<Rightarrow> 't tree_set option" where
  "ts_from_iter xs = ts_extend ts_new xs"

definition ts_eq :: "'t::linorder tree_set \<Rightarrow> 't tree_set \<Rightarrow> bool option" where
  "ts_eq s t = tm_eq (ts_map s) (ts_map t)"

definition ts_ne :: "'t::linorder tree_set \<Rightarrow> 't tree_set \<Rightarrow> bool option" where
  "ts_ne s t = map_option Not (tm_eq (ts_map s) (ts_map t))"

definition ts_lt :: "'t::linorder tree_set \<Rightarrow> 't tree_set \<Rightarrow> bool option" where
  "ts_lt s t = tm_lt (ts_map s) (ts_map t)"

definition ts_le :: "'t::linorder tree_set \<Rightarrow> 't tree_set \<Rightarrow> bool option" where
  "ts_le s t = tm_le (ts_map s) (ts_map t)"

definition ts_ge :: "'t::linorder tree_set \<Rightarrow> 't tree_set \<Rightarrow> bool option" where
  "ts_ge s t = tm_ge (ts_map s) (ts_map t)"

definition ts_gt :: "'t::linorder tree_set \<Rightarrow> 't tree_set \<Rightarrow> bool option" where
  "ts_gt s t = tm_gt (ts_map s) (ts_map t)"

record 't set_items =
  si_iter :: "('t, unit) tm_entries"

definition set_items_next :: "'t set_items \<Rightarrow> 't option \<times> 't set_items" where
  "set_items_next it = (let (x, i) = entries_next (si_iter it) in (map_option fst x, it\<lparr>si_iter := i\<rparr>))"

record 't rev_set_items =
  rsi_iter :: "('t, unit) tm_rev_entries"

definition rev_set_items_next :: "'t rev_set_items \<Rightarrow> 't option \<times> 't rev_set_items" where
  "rev_set_items_next it =
     (let (x, i) = rev_entries_next (rsi_iter it) in (map_option fst x, it\<lparr>rsi_iter := i\<rparr>))"

definition ts_iter :: "'t tree_set \<Rightarrow> 't set_items" where
  "ts_iter s = \<lparr>si_iter = tm_iter (ts_map s)\<rparr>"

definition ts_rev_iter :: "'t tree_set \<Rightarrow> 't rev_set_items" where
  "ts_rev_iter s = \<lparr>rsi_iter = tm_rev_iter (ts_map s)\<rparr>"

definition ts_lower_bound :: "'t::linorder tree_set \<Rightarrow> 't \<Rightarrow> 't set_items" where
  "ts_lower_bound s x = \<lparr>si_iter = tm_lower_bound (ts_map s) x\<rparr>"

definition ts_upper_bound :: "'t::linorder tree_set \<Rightarrow> 't \<Rightarrow> 't set_items" where
  "ts_upper_bound s x = \<lparr>si_iter = tm_upper_bound (ts_map s) x\<rparr>"

text \<open>The elements still to come from an iterator, and from a peekable one.\<close>

definition si_pending :: "'t set_items \<Rightarrow> 't list" where
  "si_pending it = map fst (e_pending True (si_iter it))"

interpretation set_items: forward_iterator "\<lambda>_. True" si_pending set_items_next
proof
  fix it :: "'t set_items"
  obtain i' where "e_pending True i' = tl (e_pending True (si_iter it))"
    "next_dir True (si_iter it) =
       (if e_pending True (si_iter it) = [] then None else Some (hd (e_pending True (si_iter it))), i')"
    using next_dir_pending [of True "si_iter it"] by blast
  then show "\<exists>it'. True \<and> si_pending it' = tl (si_pending it) \<and>
      set_items_next it = (if si_pending it = [] then None else Some (hd (si_pending it)), it')"
    by (intro exI [of _ "it\<lparr>si_iter := i'\<rparr>"])
      (simp add: set_items_next_def entries_next_def si_pending_def map_tl hd_map)
qed

type_synonym 't peek_items = "('t set_items, 't) peekable"

abbreviation items_peek :: "'t peek_items \<Rightarrow> 't option \<times> 't peek_items" where
  "items_peek \<equiv> peekable_peek set_items_next"

abbreviation items_next :: "'t peek_items \<Rightarrow> 't option \<times> 't peek_items" where
  "items_next \<equiv> peekable_next set_items_next"

abbreviation items_pending :: "'t peek_items \<Rightarrow> 't list" where
  "items_pending \<equiv> peekable_pending si_pending"

definition hd_opt :: "'a list \<Rightarrow> 'a option" where
  "hd_opt xs = (if xs = [] then None else Some (hd xs))"

lemma items_peek_next:
  "fst (items_peek p) = hd_opt (items_pending p)" "items_pending (snd (items_peek p)) = items_pending p"
  "fst (items_next p) = hd_opt (items_pending p)" "items_pending (snd (items_next p)) = tl (items_pending p)"
  using set_items.peekable_peek_ok [of p] set_items.peekable_next_ok [of p] by (auto simp: hd_opt_def)

lemma items_peekD:
  assumes "(x, q) = items_peek p"
  shows "x = hd_opt (items_pending p)" "items_pending q = items_pending p"
  using items_peek_next(1,2) [of p] by (simp_all flip: assms)

section \<open>Walking two sets in step\<close>

text \<open>
  The iterators \<open>DifferenceItems\<close>, \<open>SymDifferenceItems\<close>, \<open>IntersectionItems\<close> and
  \<open>UnionItems\<close> have the same fields.
\<close>

record 't merge_items =
  mi_a :: "'t peek_items"
  mi_b :: "'t peek_items"

definition ts_pair :: "'t tree_set \<Rightarrow> 't tree_set \<Rightarrow> 't merge_items" where
  "ts_pair s t = \<lparr>mi_a = peekable_new (ts_iter s), mi_b = peekable_new (ts_iter t)\<rparr>"

fun cmp_opt :: "'t::linorder option \<Rightarrow> 't option \<Rightarrow> ordering \<Rightarrow> ordering \<Rightarrow> ordering" where
  "cmp_opt None _ short long = short"
| "cmp_opt (Some x1) None short long = long"
| "cmp_opt (Some x1) (Some y1) short long = cmp x1 y1"

abbreviation merge_pending :: "'t merge_items \<Rightarrow> nat" where
  "merge_pending it \<equiv> length (items_pending (mi_a it)) + length (items_pending (mi_b it))"

lemma merge_decreases:
  assumes "(x, a) = items_peek p" "(y, b) = items_peek q"
  shows "x \<noteq> None \<Longrightarrow> y \<noteq> None \<Longrightarrow>
      length (items_pending (snd (items_next a))) + length (items_pending (snd (items_next b)))
        < length (items_pending p) + length (items_pending q)"
    "x \<noteq> None \<Longrightarrow> length (items_pending (snd (items_next a))) + length (items_pending b)
        < length (items_pending p) + length (items_pending q)"
    "y \<noteq> None \<Longrightarrow> length (items_pending a) + length (items_pending (snd (items_next b)))
        < length (items_pending p) + length (items_pending q)"
  using items_peekD [OF assms(1)] items_peekD [OF assms(2)]
  by (auto simp: items_peek_next hd_opt_def add_less_mono split: if_splits)

lemma cmp_opt_cases:
  "cmp_opt x y short long = Equal \<Longrightarrow> short \<noteq> Equal \<Longrightarrow> long \<noteq> Equal \<Longrightarrow> x \<noteq> None \<and> y \<noteq> None"
  "cmp_opt x y Less Less = Greater \<Longrightarrow> y \<noteq> None"
  by (cases x; cases y; simp)+

function difference_next :: "'t::linorder merge_items \<Rightarrow> 't option \<times> 't merge_items" where
  "difference_next it =
     (case items_peek (mi_a it) of (x, a) \<Rightarrow>
      case items_peek (mi_b it) of (y, b) \<Rightarrow>
      case cmp_opt x y Less Less of
        Less \<Rightarrow> (fst (items_next a), it\<lparr>mi_a := snd (items_next a), mi_b := b\<rparr>)
      | Equal \<Rightarrow> difference_next (it\<lparr>mi_a := snd (items_next a), mi_b := snd (items_next b)\<rparr>)
      | Greater \<Rightarrow> difference_next (it\<lparr>mi_a := a, mi_b := snd (items_next b)\<rparr>))"
  by pat_completeness auto
termination
  by (relation "measure merge_pending") (auto dest!: cmp_opt_cases intro: merge_decreases)

function symmetric_difference_next :: "'t::linorder merge_items \<Rightarrow> 't option \<times> 't merge_items" where
  "symmetric_difference_next it =
     (case items_peek (mi_a it) of (x, a) \<Rightarrow>
      case items_peek (mi_b it) of (y, b) \<Rightarrow>
      case cmp_opt x y Greater Less of
        Less \<Rightarrow> (fst (items_next a), it\<lparr>mi_a := snd (items_next a), mi_b := b\<rparr>)
      | Equal \<Rightarrow> symmetric_difference_next (it\<lparr>mi_a := snd (items_next a), mi_b := snd (items_next b)\<rparr>)
      | Greater \<Rightarrow> (fst (items_next b), it\<lparr>mi_a := a, mi_b := snd (items_next b)\<rparr>))"
  by pat_completeness auto
termination
  by (relation "measure merge_pending") (auto dest!: cmp_opt_cases intro: merge_decreases)

function intersection_next :: "'t::linorder merge_items \<Rightarrow> 't option \<times> 't merge_items" where
  "intersection_next it =
     (case items_peek (mi_a it) of (x, a) \<Rightarrow>
      case items_peek (mi_b it) of (y, b) \<Rightarrow>
      case (case (x, y) of (None, _) \<Rightarrow> None | (_, None) \<Rightarrow> None | (Some a1, Some b1) \<Rightarrow> Some (cmp a1 b1)) of
        None \<Rightarrow> (None, it\<lparr>mi_a := a, mi_b := b\<rparr>)
      | Some Less \<Rightarrow> intersection_next (it\<lparr>mi_a := snd (items_next a), mi_b := b\<rparr>)
      | Some Equal \<Rightarrow> (fst (items_next a), it\<lparr>mi_a := snd (items_next a), mi_b := snd (items_next b)\<rparr>)
      | Some Greater \<Rightarrow> intersection_next (it\<lparr>mi_a := a, mi_b := snd (items_next b)\<rparr>))"
  by pat_completeness auto
termination
  by (relation "measure merge_pending") (auto intro: merge_decreases split: option.splits)

definition union_next :: "'t::linorder merge_items \<Rightarrow> 't option \<times> 't merge_items" where
  "union_next it =
     (case items_peek (mi_a it) of (x, a) \<Rightarrow>
      case items_peek (mi_b it) of (y, b) \<Rightarrow>
      case cmp_opt x y Greater Less of
        Less \<Rightarrow> (fst (items_next a), it\<lparr>mi_a := snd (items_next a), mi_b := b\<rparr>)
      | Equal \<Rightarrow> (fst (items_next a), it\<lparr>mi_a := snd (items_next a), mi_b := snd (items_next b)\<rparr>)
      | Greater \<Rightarrow> (fst (items_next b), it\<lparr>mi_a := a, mi_b := snd (items_next b)\<rparr>))"

declare difference_next.simps [simp del] symmetric_difference_next.simps [simp del] intersection_next.simps [simp del]

definition ts_difference :: "'t::linorder tree_set \<Rightarrow> 't tree_set \<Rightarrow> 't merge_items" where
  "ts_difference s t = ts_pair s t"

definition ts_symmetric_difference :: "'t::linorder tree_set \<Rightarrow> 't tree_set \<Rightarrow> 't merge_items" where
  "ts_symmetric_difference s t = ts_pair s t"

definition ts_intersection :: "'t::linorder tree_set \<Rightarrow> 't tree_set \<Rightarrow> 't merge_items" where
  "ts_intersection s t = ts_pair s t"

definition ts_union :: "'t::linorder tree_set \<Rightarrow> 't tree_set \<Rightarrow> 't merge_items" where
  "ts_union s t = ts_pair s t"

definition ts_is_disjoint :: "'t::linorder tree_set \<Rightarrow> 't tree_set \<Rightarrow> bool" where
  "ts_is_disjoint s t \<longleftrightarrow> fst (intersection_next (ts_intersection s t)) = None"

text \<open>The loop of \<open>is_superset\<close>, with the elements last taken from the two iterators.\<close>

lemma set_items_next_eq:
  "fst (set_items_next it) = hd_opt (si_pending it)" "si_pending (snd (set_items_next it)) = tl (si_pending it)"
  using set_items.next_ok [of it] by (auto simp: hd_opt_def)

function superset_loop :: "'t::linorder option \<Rightarrow> 't set_items \<Rightarrow> 't option \<Rightarrow> 't set_items \<Rightarrow> bool" where
  "superset_loop a x b y =
     (case b of
        None \<Rightarrow> True
      | Some b1 \<Rightarrow>
          (case a of
             None \<Rightarrow> False
           | Some a1 \<Rightarrow>
               (case cmp a1 b1 of
                  Less \<Rightarrow> superset_loop (fst (set_items_next x)) (snd (set_items_next x)) b y
                | Greater \<Rightarrow> False
                | Equal \<Rightarrow> superset_loop (fst (set_items_next x)) (snd (set_items_next x))
                            (fst (set_items_next y)) (snd (set_items_next y)))))"
  by pat_completeness auto
termination
  by (relation "measure (\<lambda>(a, x, b, y). length (si_pending x) + (if a = None then 0 else 1))")
    (auto simp: set_items_next_eq hd_opt_def split: if_splits)

declare superset_loop.simps [simp del]

definition ts_is_superset :: "'t::linorder tree_set \<Rightarrow> 't tree_set \<Rightarrow> bool" where
  "ts_is_superset s t =
     (let (a, x) = set_items_next (ts_iter s); (b, y) = set_items_next (ts_iter t) in superset_loop a x b y)"

definition ts_is_subset :: "'t::linorder tree_set \<Rightarrow> 't tree_set \<Rightarrow> bool" where
  "ts_is_subset s t = ts_is_superset t s"

section \<open>What they compute\<close>

abbreviation strict_sorted :: "'t::linorder list \<Rightarrow> bool" where
  "strict_sorted xs \<equiv> sorted_wrt (<) xs"

definition merge_invar :: "'t::linorder merge_items \<Rightarrow> bool" where
  "merge_invar it \<longleftrightarrow> strict_sorted (items_pending (mi_a it)) \<and> strict_sorted (items_pending (mi_b it))"

definition merge_result :: "('t set \<Rightarrow> 't set \<Rightarrow> 't set) \<Rightarrow> 't::linorder merge_items \<Rightarrow> 't list" where
  "merge_result oper it = sorted_list_of_set (oper (set (items_pending (mi_a it))) (set (items_pending (mi_b it))))"

lemma sorted_list_of_set_Cons:
  "finite A \<Longrightarrow> (\<And>y. y \<in> A \<Longrightarrow> x < y) \<Longrightarrow> sorted_list_of_set (insert x A) = x # sorted_list_of_set A"
  by (subst sorted_list_of_set_insert) (auto intro!: insort_is_Cons less_imp_le)

lemma sorted_list_of_set_ConsI:
  "finite A \<Longrightarrow> (\<And>y. y \<in> A \<Longrightarrow> x < y) \<Longrightarrow> R = insert x A \<Longrightarrow> sorted_list_of_set R = x # sorted_list_of_set A"
  using sorted_list_of_set_Cons by blast

declare sorted_list_of_set.sorted_key_list_of_set_insert_remove [simp del] sorted_list_of_set.sorted_key_list_of_set_insert [simp del]

text \<open>Both iterators after peeking, and the case on the first elements.\<close>

lemma merge_peeked:
  assumes "merge_invar it"
  obtains x a y b where "items_peek (mi_a it) = (x, a)" "items_peek (mi_b it) = (y, b)"
    "x = hd_opt (items_pending (mi_a it))" "y = hd_opt (items_pending (mi_b it))"
    "items_pending a = items_pending (mi_a it)" "items_pending b = items_pending (mi_b it)"
  by (metis items_peekD prod.exhaust_sel)

lemma merge_cases:
  assumes "strict_sorted xs" "strict_sorted ys"
  obtains (empty) "xs = []" | (left) x xs' where "xs = x # xs'" "ys = []" "\<forall>z \<in> set xs'. x < z"
  | (less) x xs' y ys' where "xs = x # xs'" "ys = y # ys'" "x < y" "\<forall>z \<in> set xs'. x < z" "\<forall>z \<in> set ys. x < z"
  | (equal) x xs' ys' where "xs = x # xs'" "ys = x # ys'" "\<forall>z \<in> set xs'. x < z" "\<forall>z \<in> set ys'. x < z"
  | (greater) x xs' y ys' where "xs = x # xs'" "ys = y # ys'" "y < x" "\<not> x < y" "x \<noteq> y" "\<forall>z \<in> set xs. y < z" "\<forall>z \<in> set ys'. y < z"
proof (cases xs; cases ys)
  fix x xs' y ys' assume eqs: "xs = x # xs'" "ys = y # ys'"
  consider "x < y" | "x = y" | "y < x" by fastforce
  then show thesis
  proof cases
    case 1
    then show thesis using eqs assms by (intro less [of x xs' y ys']) auto
  next
    case 2
    then show thesis using eqs assms by (intro equal [of x xs' ys']) auto
  next
    case 3
    then show thesis using eqs assms by (intro greater [of x xs' y ys']) auto
  qed
qed (use assms in \<open>auto intro: empty left\<close>)

text \<open>A call that returns an element, and one that goes on.\<close>

lemma merge_return:
  assumes "nxt it = (Some x, it')" "merge_invar it'" "merge_result oper it = x # merge_result oper it'"
  shows "\<exists>it'. merge_invar it' \<and> merge_result oper it' = tl (merge_result oper it) \<and>
     nxt it = (if merge_result oper it = [] then None else Some (hd (merge_result oper it)), it')"
  using assms by simp

lemma merge_stop:
  assumes "nxt it = (None, it')" "merge_invar it'" "merge_result oper it' = []" "merge_result oper it = []"
  shows "\<exists>it'. merge_invar it' \<and> merge_result oper it' = tl (merge_result oper it) \<and>
     nxt it = (if merge_result oper it = [] then None else Some (hd (merge_result oper it)), it')"
  using assms by simp

lemma merge_continue:
  assumes "nxt it = nxt it1" "merge_result oper it1 = merge_result oper it" "merge_invar it1"
    "merge_invar it1 \<Longrightarrow> \<exists>it'. merge_invar it' \<and> merge_result oper it' = tl (merge_result oper it1) \<and>
       nxt it1 = (if merge_result oper it1 = [] then None else Some (hd (merge_result oper it1)), it')"
  shows "\<exists>it'. merge_invar it' \<and> merge_result oper it' = tl (merge_result oper it) \<and>
     nxt it = (if merge_result oper it = [] then None else Some (hd (merge_result oper it)), it')"
  using assms(4) [OF assms(3)] unfolding assms(1,2) .

lemma Diff_insert_absent: "x \<notin> A \<Longrightarrow> A - insert x B = A - B"
  by auto

lemma difference_next_ok:
  "merge_invar it \<Longrightarrow> \<exists>it'. merge_invar it' \<and> merge_result (-) it' = tl (merge_result (-) it) \<and>
     difference_next it = (if merge_result (-) it = [] then None else Some (hd (merge_result (-) it)), it')"
proof (induction it rule: difference_next.induct)
  case (1 it)
  obtain x a y b where peek: "items_peek (mi_a it) = (x, a)" "items_peek (mi_b it) = (y, b)"
    "x = hd_opt (items_pending (mi_a it))" "y = hd_opt (items_pending (mi_b it))"
    "items_pending a = items_pending (mi_a it)" "items_pending b = items_pending (mi_b it)"
    by (rule merge_peeked [OF "1.prems"])
  note IH = "1.IH" [OF peek(1) [symmetric] peek(2) [symmetric]]
  note eqs = difference_next.simps [of it] merge_result_def merge_invar_def items_peek_next peek hd_opt_def case_cmp
  from "1.prems" have sorted: "strict_sorted (items_pending (mi_a it))" "strict_sorted (items_pending (mi_b it))"
    by (simp_all add: merge_invar_def)
  from sorted show ?case
  proof (cases rule: merge_cases)
    case empty
    then show ?thesis using sorted by (intro merge_stop [where nxt = difference_next], simp add: eqs cmp_def) (auto simp: eqs)
  next
    case (left x xs')
    then show ?thesis using sorted
      by (intro merge_return [where nxt = difference_next], simp add: eqs cmp_def) (auto simp: eqs intro!: sorted_list_of_set_ConsI)
  next
    case (less x xs' y ys')
    then show ?thesis using sorted
      by (intro merge_return [where nxt = difference_next], simp add: eqs cmp_def)
        (auto simp: eqs insert_Diff_if intro!: sorted_list_of_set_ConsI)
  next
    case (equal x xs' ys')
    then show ?thesis using sorted
      by (intro merge_continue [where nxt = difference_next, OF _ _ _ IH(1)])
        (auto simp: eqs insert_Diff_if Diff_insert_absent)
  next
    case (greater x xs' y ys')
    then show ?thesis using sorted
      by (intro merge_continue [where nxt = difference_next, OF _ _ _ IH(2)])
        (auto simp: eqs insert_Diff_if Diff_insert_absent)
  qed
qed

lemma symmetric_difference_next_ok:
  "merge_invar it \<Longrightarrow> \<exists>it'. merge_invar it' \<and> merge_result sym_diff it' = tl (merge_result sym_diff it) \<and>
     symmetric_difference_next it =
       (if merge_result sym_diff it = [] then None else Some (hd (merge_result sym_diff it)), it')"
proof (induction it rule: symmetric_difference_next.induct)
  case (1 it)
  obtain x a y b where peek: "items_peek (mi_a it) = (x, a)" "items_peek (mi_b it) = (y, b)"
    "x = hd_opt (items_pending (mi_a it))" "y = hd_opt (items_pending (mi_b it))"
    "items_pending a = items_pending (mi_a it)" "items_pending b = items_pending (mi_b it)"
    by (rule merge_peeked [OF "1.prems"])
  note IH = "1.IH" [OF peek(1) [symmetric] peek(2) [symmetric]]
  note eqs = symmetric_difference_next.simps [of it] merge_result_def merge_invar_def items_peek_next peek
    hd_opt_def case_cmp
  from "1.prems" have sorted: "strict_sorted (items_pending (mi_a it))" "strict_sorted (items_pending (mi_b it))"
    by (simp_all add: merge_invar_def)
  from sorted show ?case
  proof (cases rule: merge_cases)
    case empty
    then show ?thesis
    proof (cases "items_pending (mi_b it)")
      case Nil
      with empty show ?thesis
        by (intro merge_stop [where nxt = symmetric_difference_next], simp add: eqs cmp_def) (auto simp: eqs)
    next
      case (Cons y ys')
      with empty sorted show ?thesis
        by (intro merge_return [where nxt = symmetric_difference_next], simp add: eqs cmp_def) (auto simp: eqs intro!: sorted_list_of_set_ConsI)
    qed
  next
    case (left x xs')
    then show ?thesis using sorted
      by (intro merge_return [where nxt = symmetric_difference_next], simp add: eqs cmp_def) (auto simp: eqs intro!: sorted_list_of_set_ConsI)
  next
    case (less x xs' y ys')
    then show ?thesis using sorted
      by (intro merge_return [where nxt = symmetric_difference_next], simp add: eqs cmp_def)
        (auto simp: eqs insert_Diff_if intro!: sorted_list_of_set_ConsI)
  next
    case (equal x xs' ys')
    then show ?thesis using sorted
      by (intro merge_continue [where nxt = symmetric_difference_next, OF _ _ _ IH])
        (auto simp: eqs insert_Diff_if intro!: arg_cong [of _ _ sorted_list_of_set])
  next
    case (greater x xs' y ys')
    then show ?thesis using sorted
      by (intro merge_return [where nxt = symmetric_difference_next], simp add: eqs cmp_def)
        (auto simp: eqs insert_Diff_if intro!: sorted_list_of_set_ConsI)
  qed
qed

lemma intersection_next_ok:
  "merge_invar it \<Longrightarrow> \<exists>it'. merge_invar it' \<and> merge_result (\<inter>) it' = tl (merge_result (\<inter>) it) \<and>
     intersection_next it = (if merge_result (\<inter>) it = [] then None else Some (hd (merge_result (\<inter>) it)), it')"
proof (induction it rule: intersection_next.induct)
  case (1 it)
  obtain x a y b where peek: "items_peek (mi_a it) = (x, a)" "items_peek (mi_b it) = (y, b)"
    "x = hd_opt (items_pending (mi_a it))" "y = hd_opt (items_pending (mi_b it))"
    "items_pending a = items_pending (mi_a it)" "items_pending b = items_pending (mi_b it)"
    by (rule merge_peeked [OF "1.prems"])
  note IH = "1.IH" [OF peek(1) [symmetric] peek(2) [symmetric]]
  note eqs = intersection_next.simps [of it] merge_result_def merge_invar_def items_peek_next peek hd_opt_def case_cmp
  from "1.prems" have sorted: "strict_sorted (items_pending (mi_a it))" "strict_sorted (items_pending (mi_b it))"
    by (simp_all add: merge_invar_def)
  from sorted show ?case
  proof (cases rule: merge_cases)
    case empty
    then show ?thesis using sorted by (intro merge_stop [where nxt = intersection_next], simp add: eqs cmp_def) (auto simp: eqs)
  next
    case (left x xs')
    then show ?thesis using sorted by (intro merge_stop [where nxt = intersection_next], simp add: eqs cmp_def) (auto simp: eqs)
  next
    case (less x xs' y ys')
    then show ?thesis using sorted
      by (intro merge_continue [where nxt = intersection_next, OF _ _ _ IH(1)])
        (auto simp: eqs cmp_def)
  next
    case (equal x xs' ys')
    then have "set xs' \<inter> insert x (set ys') = set xs' \<inter> set ys'" by auto
    with equal show ?thesis using sorted
      by (intro merge_return [where nxt = intersection_next], simp add: eqs cmp_def) (auto simp: eqs cmp_def intro!: sorted_list_of_set_ConsI)
  next
    case (greater x xs' y ys')
    then show ?thesis using sorted
      by (intro merge_continue [where nxt = intersection_next, OF _ _ _ IH(2)])
        (auto simp: eqs cmp_def)
  qed
qed

lemma union_next_ok:
  assumes "merge_invar it"
  shows "\<exists>it'. merge_invar it' \<and> merge_result (\<union>) it' = tl (merge_result (\<union>) it) \<and>
     union_next it = (if merge_result (\<union>) it = [] then None else Some (hd (merge_result (\<union>) it)), it')"
proof -
  obtain x a y b where peek: "items_peek (mi_a it) = (x, a)" "items_peek (mi_b it) = (y, b)"
    "x = hd_opt (items_pending (mi_a it))" "y = hd_opt (items_pending (mi_b it))"
    "items_pending a = items_pending (mi_a it)" "items_pending b = items_pending (mi_b it)"
    by (rule merge_peeked [OF assms])
  note eqs = union_next_def merge_result_def merge_invar_def items_peek_next peek hd_opt_def case_cmp
  from assms have sorted: "strict_sorted (items_pending (mi_a it))" "strict_sorted (items_pending (mi_b it))"
    by (simp_all add: merge_invar_def)
  from sorted show ?thesis
  proof (cases rule: merge_cases)
    case empty
    then show ?thesis
    proof (cases "items_pending (mi_b it)")
      case Nil
      with empty show ?thesis by (intro merge_stop [where nxt = union_next], simp add: eqs cmp_def) (auto simp: eqs)
    next
      case (Cons y ys')
      with empty sorted show ?thesis
        by (intro merge_return [where nxt = union_next], simp add: eqs cmp_def) (auto simp: eqs intro!: sorted_list_of_set_ConsI)
    qed
  next
    case (left x xs')
    then show ?thesis using sorted
      by (intro merge_return [where nxt = union_next], simp add: eqs cmp_def) (auto simp: eqs intro!: sorted_list_of_set_ConsI)
  next
    case (less x xs' y ys')
    then show ?thesis using sorted
      by (intro merge_return [where nxt = union_next], simp add: eqs cmp_def) (auto simp: eqs intro!: sorted_list_of_set_ConsI)
  next
    case (equal x xs' ys')
    then show ?thesis using sorted
      by (intro merge_return [where nxt = union_next], simp add: eqs cmp_def) (auto simp: eqs intro!: sorted_list_of_set_ConsI)
  next
    case (greater x xs' y ys')
    then have "set (x # xs') \<union> set (y # ys') = insert y (set (x # xs') \<union> set ys')" by auto
    with greater show ?thesis using sorted
      by (intro merge_return [where nxt = union_next], simp add: eqs cmp_def)
        (auto simp: eqs intro!: sorted_list_of_set_ConsI )
  qed
qed

interpretation difference_items: forward_iterator merge_invar "merge_result (-)" difference_next
  by unfold_locales (rule difference_next_ok)

interpretation symmetric_difference_items: forward_iterator merge_invar "merge_result sym_diff" symmetric_difference_next
  by unfold_locales (rule symmetric_difference_next_ok)

interpretation intersection_items: forward_iterator merge_invar "merge_result (\<inter>)" intersection_next
  by unfold_locales (rule intersection_next_ok)

interpretation union_items: forward_iterator merge_invar "merge_result (\<union>)" union_next
  by unfold_locales (rule union_next_ok)

text \<open>An iterator with the element last taken from it.\<close>

definition with_taken :: "'t option \<Rightarrow> 't list \<Rightarrow> 't list" where
  "with_taken a xs = (case a of None \<Rightarrow> [] | Some x \<Rightarrow> x # xs)"

lemma with_taken_simps [simp]:
  "with_taken None xs = []" "with_taken (Some x) xs = x # xs" "with_taken (hd_opt xs) (tl xs) = xs"
  by (auto simp: with_taken_def hd_opt_def)

lemma superset_loop_ok:
  "strict_sorted (with_taken a (si_pending x)) \<Longrightarrow> strict_sorted (with_taken b (si_pending y)) \<Longrightarrow>
   superset_loop a x b y \<longleftrightarrow> set (with_taken b (si_pending y)) \<subseteq> set (with_taken a (si_pending x))"
proof (induction a x b y rule: superset_loop.induct)
  case (1 a x b y)
  show ?case
  proof (cases b)
    case None
    then show ?thesis by (simp add: superset_loop.simps)
  next
    case b: (Some b1)
    show ?thesis
    proof (cases a)
      case None
      with b show ?thesis by (simp add: superset_loop.simps)
    next
      case a: (Some a1)
      note eqs = a b case_cmp set_items_next_eq
      show ?thesis
      proof (cases a1 b1 rule: linorder_cases)
        case less
        then have "a1 \<notin> set (b1 # si_pending y)" using "1.prems"(2) b by auto
        with less "1.IH"(1) [OF b a] "1.prems" show ?thesis
          by (subst superset_loop.simps) (auto simp: eqs)
      next
        case equal
        with "1.IH"(2) [OF b a] "1.prems" show ?thesis
          by (subst superset_loop.simps) (auto simp: eqs)
      next
        case greater
        with "1.prems" show ?thesis
          by (subst superset_loop.simps) (auto simp: eqs)
      qed
    qed
  qed
qed

definition ts_invar :: "'t::linorder tree_set \<Rightarrow> bool" where
  "ts_invar s \<longleftrightarrow> tm_invar (ts_map s)"

definition ts_abs :: "'t tree_set \<Rightarrow> 't set" where
  "ts_abs s = dom (tm_abs (ts_map s))"

lemma ts_iter_pending:
  "set (si_pending (ts_iter s)) = ts_abs s" "ts_invar s \<Longrightarrow> strict_sorted (si_pending (ts_iter s))"
  by (auto simp: si_pending_def ts_iter_def tm_iter_ok ts_abs_def tm_abs_def dom_map_of_conv_image_fst
      ts_invar_def tm_invar_def ordered_def)

lemma ts_pair_ok:
  assumes "ts_invar s" "ts_invar t"
  shows "merge_invar (ts_pair s t)" "merge_result oper (ts_pair s t) = sorted_list_of_set (oper (ts_abs s) (ts_abs t))"
  using assms
  by (simp_all add: merge_invar_def merge_result_def ts_pair_def peekable_new_def peekable_pending_def ts_iter_pending)

lemma ts_is_superset_ok:
  assumes "ts_invar s" "ts_invar t"
  shows "ts_is_superset s t \<longleftrightarrow> ts_abs t \<subseteq> ts_abs s"
proof -
  show ?thesis
    using superset_loop_ok [of "fst (set_items_next (ts_iter s))" "snd (set_items_next (ts_iter s))"
        "fst (set_items_next (ts_iter t))" "snd (set_items_next (ts_iter t))"] assms
    by (simp add: ts_is_superset_def split_beta set_items_next_eq ts_iter_pending)
qed

lemma ts_insert_remove_ok:
  assumes "ts_invar s"
  shows "\<exists>s'. ts_insert s x = Some (x \<notin> ts_abs s, s') \<and> ts_invar s' \<and> ts_abs s' = insert x (ts_abs s)"
    "\<exists>s'. ts_remove s x = Some (x \<in> ts_abs s, s') \<and> ts_invar s' \<and> ts_abs s' = ts_abs s - {x}"
proof -
  have inv: "tm_invar (ts_map s)" using assms by (simp add: ts_invar_def)
  from tm.insert_ok [OF inv, of x "()"] obtain m' where
    "insert_default tm_swap (ts_map s) x () = Some (x \<notin> dom (tm_abs (ts_map s)), m')" "tm_invar m'"
    "tm_abs m' = (tm_abs (ts_map s))(x \<mapsto> ())" by blast
  then show "\<exists>s'. ts_insert s x = Some (x \<notin> ts_abs s, s') \<and> ts_invar s' \<and> ts_abs s' = insert x (ts_abs s)"
    by (intro exI [of _ "s\<lparr>ts_map := m'\<rparr>"]) (simp add: ts_insert_def tm_insert_def ts_abs_def ts_invar_def)
  from tm.remove_ok [OF inv, of x] obtain m'' where
    "remove_default tm_pop (ts_map s) x = Some (x \<in> dom (tm_abs (ts_map s)), m'')" "tm_invar m''"
    "tm_abs m'' = (tm_abs (ts_map s))(x := None)" by blast
  then show "\<exists>s'. ts_remove s x = Some (x \<in> ts_abs s, s') \<and> ts_invar s' \<and> ts_abs s' = ts_abs s - {x}"
    by (intro exI [of _ "s\<lparr>ts_map := m''\<rparr>"]) (simp add: ts_remove_def tm_remove_def ts_abs_def ts_invar_def)
qed

text \<open>
  C19. A \<open>TreeSet\<close> is a finite set.  Insertion and removal are those of the set and say
  whether they changed it; the four lazy set operations end, and deliver the difference, the
  symmetric difference, the intersection and the union of two sets in ascending order and
  without duplicates; and the subset, superset and disjointness tests decide these relations.
\<close>

theorem treeset_operations:
  assumes "ts_invar s" "ts_invar t"
  shows "(ts_contains s x \<longleftrightarrow> x \<in> ts_abs s) \<and> ts_len s = card (ts_abs s) \<and>
    (\<exists>s'. ts_insert s x = Some (x \<notin> ts_abs s, s') \<and> ts_invar s' \<and> ts_abs s' = insert x (ts_abs s)) \<and>
    (\<exists>s'. ts_remove s x = Some (x \<in> ts_abs s, s') \<and> ts_invar s' \<and> ts_abs s' = ts_abs s - {x}) \<and>
    collect difference_next (ts_difference s t) = Some (sorted_list_of_set (ts_abs s - ts_abs t)) \<and>
    collect symmetric_difference_next (ts_symmetric_difference s t) =
      Some (sorted_list_of_set ((ts_abs s - ts_abs t) \<union> (ts_abs t - ts_abs s))) \<and>
    collect intersection_next (ts_intersection s t) = Some (sorted_list_of_set (ts_abs s \<inter> ts_abs t)) \<and>
    collect union_next (ts_union s t) = Some (sorted_list_of_set (ts_abs s \<union> ts_abs t)) \<and>
    (ts_is_superset s t \<longleftrightarrow> ts_abs t \<subseteq> ts_abs s) \<and> (ts_is_subset s t \<longleftrightarrow> ts_abs s \<subseteq> ts_abs t) \<and>
    (ts_is_disjoint s t \<longleftrightarrow> ts_abs s \<inter> ts_abs t = {})"
proof -
  note pair = ts_pair_ok [OF assms]
  have fin: "finite (ts_abs u)" if "ts_invar u" for u :: "'a tree_set"
    using tm.finite_abs that by (simp add: ts_abs_def ts_invar_def)
  have "ts_contains s x \<longleftrightarrow> x \<in> ts_abs s" "ts_len s = card (ts_abs s)"
    using assms(1) tm.contains_key_ok [of "ts_map s" x] tm.len_ok [of "ts_map s"]
    by (simp_all add: ts_contains_def ts_len_def ts_abs_def ts_invar_def)
  moreover have "ts_is_disjoint s t \<longleftrightarrow> ts_abs s \<inter> ts_abs t = {}"
    using intersection_next_ok [OF pair(1)] fin assms by (auto simp: ts_is_disjoint_def ts_intersection_def pair(2) split: if_splits)
  ultimately show ?thesis
    using ts_insert_remove_ok [OF assms(1), of x] ts_is_superset_ok [OF assms] ts_is_superset_ok [OF assms(2,1)]
      difference_items.collect_ok [OF pair(1)] symmetric_difference_items.collect_ok [OF pair(1)]
      intersection_items.collect_ok [OF pair(1)] union_items.collect_ok [OF pair(1)]
    by (simp add: pair(2) ts_difference_def ts_symmetric_difference_def ts_intersection_def ts_union_def
        ts_is_subset_def)
qed

theorem treeset_operations_witness:
  "collect union_next (ts_union
     \<lparr>ts_map = \<lparr>tm_root = TreeNode (1::nat) () NoNode (TreeNode 5 () NoNode NoNode 1) 1, tm_length = 2\<rparr>\<rparr>
     \<lparr>ts_map = \<lparr>tm_root = TreeNode (3::nat) () NoNode (TreeNode 5 () NoNode NoNode 1) 1, tm_length = 2\<rparr>\<rparr>)
   = Some [1, 3, 5]"
proof -
  let ?s = "\<lambda>x. \<lparr>ts_map = \<lparr>tm_root = TreeNode (x::nat) () NoNode (TreeNode 5 () NoNode NoNode 1) 1, tm_length = 2\<rparr>\<rparr>"
  have inv: "ts_invar (?s 1)" "ts_invar (?s 3)" by (simp_all add: ts_invar_def tm_invar_def)
  have "collect union_next (ts_union (?s 1) (?s 3)) = Some (sorted_list_of_set (ts_abs (?s 1) \<union> ts_abs (?s 3)))"
    using treeset_operations [OF inv] by blast
  moreover have "ts_abs (?s 1) \<union> ts_abs (?s 3) = set [1, 3, 5]" by (auto simp: ts_abs_def tm_abs_def)
  moreover have "sorted_list_of_set (set [1, 3, 5 :: nat]) = [1, 3, 5]"
    by (rule sorted_list_of_set.idem_if_sorted_distinct) auto
  ultimately show ?thesis by simp
qed

end
