(* ===== verification/Deques.thy ===== *)
theory Deques
  imports Containers
begin

text \<open>
  The contract of the \<open>Deque\<close> trait of \<open>libcollections/deque.rs\<close>, with the \<open>Container\<close> and
  \<open>Mutable\<close> traits it extends: a double-ended queue is a list.  Implementations may fail the
  task when they would have to allocate more than \<open>limit\<close> slots.
\<close>

datatype 'a deque_op = PushFront 'a | PushBack 'a | PopFront | PopBack | Front | Back | Len | Clear

datatype 'a deque_result = Nothing | Element "'a option" | Size uint

text \<open>What an operation does to a list.\<close>

fun list_op :: "'a deque_op \<Rightarrow> 'a list \<Rightarrow> 'a deque_result \<times> 'a list" where
  "list_op (PushFront x) xs = (Nothing, x # xs)"
| "list_op (PushBack x) xs = (Nothing, xs @ [x])"
| "list_op PopFront xs = (Element (if xs = [] then None else Some (hd xs)), tl xs)"
| "list_op PopBack xs = (Element (if xs = [] then None else Some (last xs)), butlast xs)"
| "list_op Front xs = (Element (if xs = [] then None else Some (hd xs)), xs)"
| "list_op Back xs = (Element (if xs = [] then None else Some (last xs)), xs)"
| "list_op Len xs = (Size (length xs), xs)"
| "list_op Clear xs = (Nothing, [])"

fun list_run :: "'a deque_op list \<Rightarrow> 'a list \<Rightarrow> 'a deque_result list \<times> 'a list" where
  "list_run [] xs = ([], xs)"
| "list_run (op # ops) xs =
     (case list_op op xs of (r, ys) \<Rightarrow> case list_run ops ys of (rs, zs) \<Rightarrow> (r # rs, zs))"

text \<open>A sequence of operations on an implementation, given how it does one.\<close>

fun run_ops :: "('a deque_op \<Rightarrow> 'd \<Rightarrow> ('a deque_result \<times> 'd) option) \<Rightarrow> 'a deque_op list \<Rightarrow> 'd \<Rightarrow>
    ('a deque_result list \<times> 'd) option" where
  "run_ops step [] d = Some ([], d)"
| "run_ops step (op # ops) d =
     do { (r, d1) \<leftarrow> step op d; (rs, d2) \<leftarrow> run_ops step ops d1; Some (r # rs, d2) }"

text \<open>
  \<open>slots d\<close> is the allocated room: pushing keeps it or at most doubles it, and only when it is
  used up.
\<close>

locale deque =
  fixes invar :: "'d \<Rightarrow> bool"
    and abs :: "'d \<Rightarrow> 'a list"
    and slots :: "'d \<Rightarrow> nat"
    and limit :: nat
    and push_front push_back :: "'d \<Rightarrow> 'a \<Rightarrow> 'd option"
    and pop_front pop_back :: "'d \<Rightarrow> ('a option \<times> 'd) option"
    and first_item last_item :: "'d \<Rightarrow> 'a option option"
    and len :: "'d \<Rightarrow> uint"
    and clear :: "'d \<Rightarrow> 'd"
  assumes push_front_ok: "invar d \<Longrightarrow> length (abs d) < slots d \<or> 2 * slots d \<le> limit \<Longrightarrow>
      \<exists>d'. push_front d x = Some d' \<and> invar d' \<and> abs d' = x # abs d \<and>
        slots d' = (if length (abs d) < slots d then slots d else 2 * slots d)"
    and push_back_ok: "invar d \<Longrightarrow> length (abs d) < slots d \<or> 2 * slots d \<le> limit \<Longrightarrow>
      \<exists>d'. push_back d x = Some d' \<and> invar d' \<and> abs d' = abs d @ [x] \<and>
        slots d' = (if length (abs d) < slots d then slots d else 2 * slots d)"
    and pop_front_ok: "invar d \<Longrightarrow>
      \<exists>d'. pop_front d = Some (if abs d = [] then None else Some (hd (abs d)), d') \<and>
        invar d' \<and> abs d' = tl (abs d) \<and> slots d' = slots d"
    and pop_back_ok: "invar d \<Longrightarrow>
      \<exists>d'. pop_back d = Some (if abs d = [] then None else Some (last (abs d)), d') \<and>
        invar d' \<and> abs d' = butlast (abs d) \<and> slots d' = slots d"
    and first_ok: "invar d \<Longrightarrow> first_item d = Some (if abs d = [] then None else Some (hd (abs d)))"
    and last_ok: "invar d \<Longrightarrow> last_item d = Some (if abs d = [] then None else Some (last (abs d)))"
    and len_ok: "invar d \<Longrightarrow> len d = length (abs d)"
    and clear_ok: "invar d \<Longrightarrow> invar (clear d) \<and> abs (clear d) = [] \<and> slots (clear d) = slots d"
    and slots_ok: "invar d \<Longrightarrow> length (abs d) \<le> slots d"

text \<open>One operation through the trait.\<close>

definition deque_step where
  "deque_step push_front push_back pop_front pop_back first_item last_item len clear op d =
     (case op of
        PushFront x \<Rightarrow> map_option (\<lambda>d'. (Nothing, d')) (push_front d x)
      | PushBack x \<Rightarrow> map_option (\<lambda>d'. (Nothing, d')) (push_back d x)
      | PopFront \<Rightarrow> map_option (map_prod Element id) (pop_front d)
      | PopBack \<Rightarrow> map_option (map_prod Element id) (pop_back d)
      | Front \<Rightarrow> map_option (\<lambda>r. (Element r, d)) (first_item d)
      | Back \<Rightarrow> map_option (\<lambda>r. (Element r, d)) (last_item d)
      | Len \<Rightarrow> Some (Size (len d), d)
      | Clear \<Rightarrow> Some (Nothing, clear d))"

context deque
begin

lemma step_ok:
  assumes "invar d" "length (abs d) < slots d \<or> 2 * slots d \<le> limit"
  shows "\<exists>d'. deque_step push_front push_back pop_front pop_back first_item last_item len clear op d =
      Some (fst (list_op op (abs d)), d') \<and> invar d' \<and> abs d' = snd (list_op op (abs d)) \<and>
      slots d' \<le> max (slots d) (2 * length (abs d))"
proof (cases op)
  case (PushFront x)
  then show ?thesis using push_front_ok [OF assms, of x] slots_ok [OF assms(1)]
    by (auto simp: deque_step_def)
next
  case (PushBack x)
  then show ?thesis using push_back_ok [OF assms, of x] slots_ok [OF assms(1)]
    by (auto simp: deque_step_def)
next
  case PopFront
  then show ?thesis using pop_front_ok [OF assms(1)] by (auto simp: deque_step_def)
next
  case PopBack
  then show ?thesis using pop_back_ok [OF assms(1)] by (auto simp: deque_step_def)
qed (use assms(1) first_ok last_ok len_ok clear_ok in \<open>auto simp: deque_step_def\<close>)

lemma list_op_length: "length (snd (list_op op xs)) \<le> Suc (length xs)"
  by (cases op) auto

lemma run_ops_ok:
  assumes "invar d" "slots d \<le> limit" "2 * (length (abs d) + length ops) \<le> limit"
  shows "\<exists>d'. run_ops (deque_step push_front push_back pop_front pop_back first_item last_item len clear) ops d =
      Some (fst (list_run ops (abs d)), d') \<and> invar d' \<and> abs d' = snd (list_run ops (abs d))"
  using assms
proof (induction ops arbitrary: d)
  case (Cons op ops)
  have "length (abs d) < slots d \<or> 2 * slots d \<le> limit"
    using Cons.prems slots_ok [of d] by (cases "length (abs d) < slots d") auto
  from step_ok [OF Cons.prems(1) this, of op] obtain d1 where
    d1: "deque_step push_front push_back pop_front pop_back first_item last_item len clear op d =
      Some (fst (list_op op (abs d)), d1)" "invar d1" "abs d1 = snd (list_op op (abs d))"
      "slots d1 \<le> max (slots d) (2 * length (abs d))" by blast
  have "slots d1 \<le> limit" using d1(4) Cons.prems by auto
  moreover have "2 * (length (abs d1) + length ops) \<le> limit"
    using d1(3) list_op_length [of op "abs d"] Cons.prems(3) by simp
  ultimately obtain d2 where
    "run_ops (deque_step push_front push_back pop_front pop_back first_item last_item len clear) ops d1 =
      Some (fst (list_run ops (abs d1)), d2)" "invar d2" "abs d2 = snd (list_run ops (abs d1))"
    using Cons.IH [OF d1(2)] by blast
  with d1 show ?case by (auto simp: case_prod_beta)
qed simp

end

section \<open>Iterators that may fail the task\<close>

text \<open>
  An iterator over slots that may be empty fails when it meets an empty one; its contract is that
  this does not happen.
\<close>

fun try_drain :: "('i \<Rightarrow> ('a option \<times> 'i) option) \<Rightarrow> ('i \<Rightarrow> ('a option \<times> 'i) option) \<Rightarrow>
    bool list \<Rightarrow> 'i \<Rightarrow> 'a option list option" where
  "try_drain nxt bck [] i = Some []"
| "try_drain nxt bck (b # bs) i =
     do { (x, i') \<leftarrow> if b then nxt i else bck i; xs \<leftarrow> try_drain nxt bck bs i'; Some (x # xs) }"

text \<open>\<open>a.zip(b).all(f)\<close>.\<close>

partial_function (option) try_zip_all ::
  "('a \<Rightarrow> 'b \<Rightarrow> bool) \<Rightarrow> ('i \<Rightarrow> ('a option \<times> 'i) option) \<Rightarrow> ('j \<Rightarrow> ('b option \<times> 'j) option) \<Rightarrow> 'i \<Rightarrow> 'j \<Rightarrow> bool option" where
  "try_zip_all f nxt nxt' i j =
     do { (x, i') \<leftarrow> nxt i;
          case x of
            None \<Rightarrow> Some True
          | Some a \<Rightarrow>
              do { (y, j') \<leftarrow> nxt' j;
                   case y of
                     None \<Rightarrow> Some True
                   | Some b \<Rightarrow> if f a b then try_zip_all f nxt nxt' i' j' else Some False } }"

locale fallible_iterator =
  fixes invar :: "'i \<Rightarrow> bool"
    and pending :: "'i \<Rightarrow> 'a list"
    and try_next try_back :: "'i \<Rightarrow> ('a option \<times> 'i) option"
  assumes try_next_ok: "invar i \<Longrightarrow> \<exists>i'. invar i' \<and> pending i' = tl (pending i) \<and>
      try_next i = Some (if pending i = [] then None else Some (hd (pending i)), i')"
    and try_back_ok: "invar i \<Longrightarrow> \<exists>i'. invar i' \<and> pending i' = butlast (pending i) \<and>
      try_back i = Some (if pending i = [] then None else Some (last (pending i)), i')"

sublocale fallible_iterator \<subseteq> total: double_ended_iterator invar pending "\<lambda>i. the (try_next i)" "\<lambda>i. the (try_back i)"
proof
  show "\<exists>i'. invar i' \<and> pending i' = tl (pending i) \<and>
      the (try_next i) = (if pending i = [] then None else Some (hd (pending i)), i')" if "invar i" for i
    using try_next_ok [OF that] by auto
  show "\<exists>i'. invar i' \<and> pending i' = butlast (pending i) \<and>
      the (try_back i) = (if pending i = [] then None else Some (last (pending i)), i')" if "invar i" for i
    using try_back_ok [OF that] by auto
qed

context fallible_iterator
begin

lemma try_drain_ok: "invar i \<Longrightarrow> try_drain try_next try_back bs i = Some (drain_list bs (pending i))"
proof -
  assume "invar i"
  then have "try_drain try_next try_back bs i = Some (drain (\<lambda>i. the (try_next i)) (\<lambda>i. the (try_back i)) bs i)"
  proof (induction bs arbitrary: i)
    case (Cons b bs)
    show ?case
    proof (cases b)
      case True
      with try_next_ok [OF Cons.prems] Cons.IH show ?thesis by auto
    next
      case False
      with try_back_ok [OF Cons.prems] Cons.IH show ?thesis by auto
    qed
  qed simp
  with total.drain_ok [OF \<open>invar i\<close>] show ?thesis by simp
qed

lemma try_next_cases:
  assumes "invar i"
  obtains (stop) i' where "pending i = []" "try_next i = Some (None, i')" "invar i'" "pending i' = []"
  | (item) x xs i' where "pending i = x # xs" "try_next i = Some (Some x, i')" "invar i'" "pending i' = xs"
  using try_next_ok [OF assms] by (cases "pending i") auto

lemma try_zip_all_ok:
  "invar i \<Longrightarrow> invar j \<Longrightarrow>
     try_zip_all f try_next try_next i j = Some (list_all (\<lambda>(x, y). f x y) (zip (pending i) (pending j)))"
proof (induction "pending i" arbitrary: i j)
  case Nil
  from Nil.prems(1) Nil.hyps show ?case
    by (cases rule: try_next_cases) (auto simp: try_zip_all.simps [of f try_next try_next i j])
next
  case (Cons x xs)
  from Cons.prems(1) Cons.hyps obtain i' where i': "try_next i = Some (Some x, i')" "invar i'" "pending i' = xs"
    by (cases rule: try_next_cases) auto
  from Cons.prems(2) show ?case
  proof (cases rule: try_next_cases)
    case (stop j')
    then show ?thesis by (simp add: try_zip_all.simps [of f try_next try_next i j] i')
  next
    case (item y ys j')
    then show ?thesis using Cons.hyps(1) [of i' j'] i'
      by (simp add: try_zip_all.simps [of f try_next try_next i j] flip: Cons.hyps(2))
  qed
qed

end

end
