(* ===== verification/PowerOfTwo.thy ===== *)
theory PowerOfTwo
  imports Prelude "HOL-Library.Word"
begin

text \<open>
  \<open>next_power_of_two\<close> of \<open>libstd/num/mod.rs\<close>, which \<open>Vec::reserve\<close> rounds capacities with,
  on 64-bit unsigned integers: every set bit is smeared over all lower positions by shifting
  and or-ing, with the wrap-around of the decrement and the increment.
\<close>

unbundle bit_operations_syntax

partial_function (option) smear_loop :: "64 word \<Rightarrow> 64 word \<Rightarrow> 64 word \<Rightarrow> 64 word option" where
  "smear_loop halfbits tmp shift =
     (if shift \<le> halfbits
      then smear_loop halfbits (tmp OR drop_bit (unat shift) tmp) (push_bit 1 shift)
      else Some tmp)"

definition next_power_of_two :: "64 word \<Rightarrow> 64 word option" where
  "next_power_of_two n = do { tmp \<leftarrow> smear_loop (8 * 4) (n - 1) 1; Some (tmp + 1) }"

text \<open>The checked variant; \<open>checked_add\<close> is \<open>None\<close> when the sum wraps.\<close>

definition checked_next_power_of_two :: "64 word \<Rightarrow> 64 word option option" where
  "checked_next_power_of_two n =
     do { tmp \<leftarrow> smear_loop (8 * 4) (n - 1) 1;
          Some (if tmp + 1 < tmp then None else Some (tmp + 1)) }"

text \<open>\<open>x\<close> has bit \<open>i\<close> when \<open>t\<close> has one of the \<open>w\<close> bits from \<open>i\<close> on.\<close>

definition smeared :: "nat \<Rightarrow> 64 word \<Rightarrow> 64 word \<Rightarrow> bool" where
  "smeared w t x \<longleftrightarrow> (\<forall>i. bit x i \<longleftrightarrow> (\<exists>j < w. bit t (i + j)))"

lemma smeared_step:
  assumes "smeared w t x"
  shows "smeared (2 * w) t (x OR drop_bit w x)"
  unfolding smeared_def
proof
  fix i
  have "bit (x OR drop_bit w x) i \<longleftrightarrow> (\<exists>j < w. bit t (i + j)) \<or> (\<exists>j < w. bit t (i + w + j))"
    using assms by (auto simp: bit_or_iff bit_drop_bit_eq smeared_def ac_simps)
  also have "\<dots> \<longleftrightarrow> (\<exists>j < 2 * w. bit t (i + j))"
  proof
    assume "(\<exists>j < w. bit t (i + j)) \<or> (\<exists>j < w. bit t (i + w + j))"
    then show "\<exists>j < 2 * w. bit t (i + j)"
    proof
      assume "\<exists>j < w. bit t (i + w + j)"
      then obtain j where "j < w" "bit t (i + (w + j))" by (auto simp: ac_simps)
      then show ?thesis by (intro exI [of _ "w + j"]) simp
    next
      assume "\<exists>j < w. bit t (i + j)"
      then obtain j where "j < w" "bit t (i + j)" by blast
      then show ?thesis by (intro exI [of _ j]) simp
    qed
  next
    assume "\<exists>j < 2 * w. bit t (i + j)"
    then obtain j where j: "j < 2 * w" "bit t (i + j)" by blast
    show "(\<exists>j < w. bit t (i + j)) \<or> (\<exists>j < w. bit t (i + w + j))"
    proof (cases "j < w")
      case False
      with j have "j - w < w" "bit t (i + w + (j - w))" by simp_all
      then show ?thesis by blast
    qed (use j in blast)
  qed
  finally show "bit (x OR drop_bit w x) i \<longleftrightarrow> (\<exists>j < 2 * w. bit t (i + j))" .
qed

lemma smear_loop_smeared: "\<exists>x. smear_loop 32 t 1 = Some x \<and> smeared 64 t x"
proof -
  have 1: "smeared 1 t t" by (simp add: smeared_def)
  note step = smeared_step [OF 1] smeared_step [OF smeared_step [OF 1]]
    smeared_step [OF smeared_step [OF smeared_step [OF 1]]]
    smeared_step [OF smeared_step [OF smeared_step [OF smeared_step [OF 1]]]]
    smeared_step [OF smeared_step [OF smeared_step [OF smeared_step [OF smeared_step [OF 1]]]]]
    smeared_step [OF smeared_step [OF smeared_step [OF smeared_step [OF smeared_step [OF smeared_step [OF 1]]]]]]
  show ?thesis using step(6) by (simp add: smear_loop.simps)
qed

lemma highest_bit:
  fixes t :: "64 word"
  assumes "t \<noteq> 0"
  obtains m where "m < 64" "bit t m" "\<forall>i. bit t i \<longrightarrow> i \<le> m"
proof -
  let ?B = "{i. bit t i}"
  have sub: "?B \<subseteq> {..<64}" using bit_imp_le_length [of t] by auto
  then have fin: "finite ?B" by (rule finite_subset) simp
  have "?B \<noteq> {}" using assms by (auto simp: bit_eq_iff)
  with Max_in [OF fin] have "Max ?B \<in> ?B" by blast
  moreover have "\<forall>i. bit t i \<longrightarrow> i \<le> Max ?B" using fin by simp
  ultimately show thesis using sub by (intro that [of "Max ?B"]) auto
qed

lemma highest_bit_bounds:
  fixes t :: "64 word"
  assumes "bit t m" "\<forall>i. bit t i \<longrightarrow> i \<le> m"
  shows "2 ^ m \<le> unat t" "unat t < 2 ^ Suc m"
proof -
  have "odd (unat t div 2 ^ m)" using assms(1) by (simp add: bit_unsigned_iff flip: bit_iff_odd)
  then have "unat t div 2 ^ m \<noteq> 0" by (metis even_zero)
  then show "2 ^ m \<le> unat t" by (simp add: div_eq_0_iff)
  have "take_bit (Suc m) t = t"
    by (rule bit_eqI) (use assms(2) in \<open>auto simp: bit_take_bit_iff less_Suc_eq_le\<close>)
  then have "unat t = take_bit (Suc m) (unat t)" by (metis unsigned_take_bit_eq)
  then show "unat t < 2 ^ Suc m" by (metis take_bit_nat_less_exp)
qed

lemma unat_two_power: "k < 64 \<Longrightarrow> unat (2 ^ k :: 64 word) = 2 ^ k"
proof -
  assume k: "k < 64"
  then have "(2::nat) ^ k < 2 ^ 64" by (rule power_strict_increasing) simp
  then have "unat (of_nat (2 ^ k) :: 64 word) = 2 ^ k"
    using k by (simp only: unsigned_of_nat) (simp add: take_bit_nat_eq_self)
  then show ?thesis by simp
qed

lemma smeared_mask:
  assumes "smeared 64 t x" "m < 64" "bit t m" "\<forall>i. bit t i \<longrightarrow> i \<le> m"
  shows "x = mask (Suc m)"
proof (rule bit_eqI)
  fix i assume "possible_bit TYPE(64 word) i"
  then have "i < 64" by (simp add: possible_bit_word)
  have "(\<exists>j < 64. bit t (i + j)) \<longleftrightarrow> i \<le> m"
  proof
    assume "i \<le> m"
    then show "\<exists>j < 64. bit t (i + j)" using assms(2,3) by (intro exI [of _ "m - i"]) auto
  qed (use assms(4) in fastforce)
  then show "bit x i \<longleftrightarrow> bit (mask (Suc m) :: 64 word) i"
    using assms(1) \<open>i < 64\<close> by (simp add: smeared_def bit_mask_iff possible_bit_word less_Suc_eq_le)
qed

text \<open>What the loop leaves: the low bits up to the highest bit of the decremented number.\<close>

lemma smear_cases:
  fixes n :: "64 word"
  obtains (one) "n = 1" "smear_loop 32 (n - 1) 1 = Some 0"
  | (mask) m where "m < 64" "smear_loop 32 (n - 1) 1 = Some (mask (Suc m))"
      "2 ^ m \<le> unat (n - 1)" "unat (n - 1) < 2 ^ Suc m"
proof (cases "n = 1")
  case True
  obtain x where x: "smear_loop 32 (n - 1) 1 = Some x" "smeared 64 (n - 1) x"
    using smear_loop_smeared by blast
  then have "x = 0" using True by (simp add: smeared_def bit_eq_iff)
  with x True one show ?thesis by simp
next
  case False
  then have "n - 1 \<noteq> 0" by simp
  then obtain m where m: "m < 64" "bit (n - 1) m" "\<forall>i. bit (n - 1) i \<longrightarrow> i \<le> m" by (rule highest_bit)
  obtain x where x: "smear_loop 32 (n - 1) 1 = Some x" "smeared 64 (n - 1) x"
    using smear_loop_smeared by blast
  from smeared_mask [OF x(2) m] x(1) have "smear_loop 32 (n - 1) 1 = Some (mask (Suc m))" by simp
  from mask [OF m(1) this highest_bit_bounds [OF m(2,3)]] show ?thesis .
qed

lemma next_power_of_two_result:
  "if n = 0 \<or> 2 ^ 63 < n
   then next_power_of_two n = Some 0 \<and> checked_next_power_of_two n = Some None
   else \<exists>k < 64. next_power_of_two n = Some (2 ^ k) \<and> checked_next_power_of_two n = Some (Some (2 ^ k)) \<and>
          unat n \<le> 2 ^ k \<and> 2 ^ k < 2 * unat n"
proof (cases rule: smear_cases [of n])
  case one
  then show ?thesis
    by (auto simp: next_power_of_two_def checked_next_power_of_two_def intro!: exI [of _ 0])
next
  case (mask m)
  have "8 * 4 = (32 :: 64 word)" by simp
  note result = next_power_of_two_def checked_next_power_of_two_def this mask(2)
  show ?thesis
  proof (cases "m = 63")
    case True
    then have "mask (Suc m) = (- 1 :: 64 word)"
      by (intro bit_eqI) (simp add: bit_mask_iff possible_bit_word bit_minus_1_iff)
    moreover have "n = 0 \<or> 2 ^ 63 < n"
    proof (rule disjCI)
      assume "\<not> 2 ^ 63 < n"
      then have "unat n \<le> 2 ^ 63" by (simp add: word_less_nat_alt)
      with mask(3) True show "n = 0" by (cases "n = 0") (auto simp: unat_minus_one)
    qed
    moreover have "0 < (- 1 :: 64 word)" by (simp add: word_gt_0)
    ultimately show ?thesis by (auto simp: result)
  next
    case False
    with mask(1) have m: "m < 63" by simp
    then have pow: "(2::nat) ^ Suc m \<le> 2 ^ 63" by (intro power_increasing) auto
    have "unat (- 1 :: 64 word) = 2 ^ 64 - 1" by (simp add: unsigned_minus_1_eq_mask mask_eq_exp_minus_1)
    then have n: "n \<noteq> 0" using mask(4) pow by auto
    then have un: "unat (n - 1) = unat n - 1" "0 < unat n" by (simp_all add: unat_minus_one unat_gt_0)
    have k: "unat (2 ^ Suc m :: 64 word) = 2 ^ Suc m" using m by (intro unat_two_power) simp
    have "mask (Suc m) + 1 = (2 ^ Suc m :: 64 word)" by (simp add: mask_eq_exp_minus_1)
    moreover have "\<not> (2 ^ Suc m :: 64 word) < mask (Suc m)"
    proof -
      have "(2 ^ Suc m :: 64 word) \<noteq> 0" using k by (metis power_not_zero unsigned_0 zero_neq_numeral)
      then have "unat (mask (Suc m) :: 64 word) = 2 ^ Suc m - 1"
        unfolding mask_eq_exp_minus_1 by (metis k unat_minus_one)
      then show ?thesis unfolding word_less_nat_alt k by simp
    qed
    moreover have "\<not> 2 ^ 63 < n" using mask(4) un pow by (simp add: word_less_nat_alt)
    moreover have "unat n \<le> 2 ^ Suc m" "2 ^ Suc m < 2 * unat n" using mask(3,4) un by auto
    ultimately show ?thesis using m n by (auto simp: result intro!: exI [of _ "Suc m"])
  qed
qed

lemma next_power_of_two_power:
  assumes "k \<le> 63"
  shows "next_power_of_two (of_nat (2 ^ k)) = Some (of_nat (2 ^ k))"
proof -
  let ?n = "2 ^ k :: 64 word"
  have n: "unat ?n = 2 ^ k" using assms by (intro unat_two_power) simp
  then have "?n \<noteq> 0" by (metis power_not_zero unsigned_0 zero_neq_numeral)
  moreover have "(2::nat) ^ k \<le> 2 ^ 63" using assms by (intro power_increasing) auto
  then have "\<not> 2 ^ 63 < ?n" by (simp add: word_less_nat_alt n)
  ultimately obtain j where j: "next_power_of_two ?n = Some (2 ^ j)" "2 ^ k \<le> (2::nat) ^ j" "(2::nat) ^ j < 2 ^ Suc k"
    using next_power_of_two_result [of ?n] n by auto
  then have "k \<le> j" "j < Suc k" by (simp_all only: power_increasing_iff power_strict_increasing_iff)
  with j(1) show ?thesis by (simp add: le_less_Suc_eq)
qed

text \<open>
  C33. For every 64-bit number the loop of \<open>next_power_of_two\<close> ends.  Between \<open>1\<close> and
  \<open>2 ^ 63\<close> the result is the least power of two that is not smaller; for \<open>0\<close> and above
  \<open>2 ^ 63\<close> it is \<open>0\<close>, which the checked variant reports as \<open>None\<close>.
\<close>

theorem next_power_of_two_correct:
  "if n = 0 \<or> 2 ^ 63 < n
   then next_power_of_two n = Some 0 \<and> checked_next_power_of_two n = Some None
   else \<exists>k < 64. next_power_of_two n = Some (2 ^ k) \<and> checked_next_power_of_two n = Some (Some (2 ^ k)) \<and>
          unat n \<le> 2 ^ k \<and> 2 ^ k < 2 * unat n"
  by (rule next_power_of_two_result)

end
