(* ===== verification/RingBuf.thy ===== *)
theory RingBuf
  imports Deques PowerOfTwo
begin

text \<open>
  \<open>libcollections/ringbuf.rs\<close>: double-ended queues as circular buffers.  The vector of slots has
  a capacity beside its length, because \<open>grow\<close> fills it up to its capacity, which
  \<open>Vec::reserve\<close> (\<open>libstd/vec.rs\<close>) rounds up to a power of two.

  \<open>size_of\<close> is the size of a slot in bytes; a failed bounds check, \<open>fail!\<close>,
  \<open>assert!\<close> and an overflowing capacity are \<^const>\<open>None\<close>.
\<close>

section \<open>Operations\<close>

record 'a ring_buf =
  nelts :: uint
  lo :: uint
  elts :: "'a option list"
  elts_cap :: uint

text \<open>The new capacity after \<open>Vec::reserve_exact\<close> and \<open>Vec::reserve\<close>.\<close>

definition reserve_exact_cap :: "uint \<Rightarrow> uint \<Rightarrow> uint \<Rightarrow> uint option" where
  "reserve_exact_cap size_of cap capacity =
     (if capacity > cap then (if capacity * size_of \<le> uint_max then Some capacity else None) else Some cap)"

definition reserve_cap :: "uint \<Rightarrow> uint \<Rightarrow> uint \<Rightarrow> uint \<Rightarrow> uint option" where
  "reserve_cap size_of len cap capacity =
     (if capacity \<ge> len
      then do { c \<leftarrow> next_power_of_two (of_nat capacity); reserve_exact_cap size_of cap (unat c) }
      else Some cap)"

definition raw_index :: "uint \<Rightarrow> uint \<Rightarrow> uint \<Rightarrow> uint" where
  "raw_index l len index =
     (if l \<ge> wsub len index then wsub (wadd l index) len else wadd l index)"

text \<open>Swapping the slots \<open>i\<close> and \<open>d + i\<close> for all \<open>i\<close> of a range.\<close>

fun swap_range :: "uint \<Rightarrow> uint list \<Rightarrow> 'a list \<Rightarrow> 'a list option" where
  "swap_range d [] xs = Some xs"
| "swap_range d (i # is) xs = do { xs' \<leftarrow> vec_swap xs i (d + i); swap_range d is xs' }"

definition grow :: "uint \<Rightarrow> 'a ring_buf \<Rightarrow> 'a ring_buf option" where
  "grow size_of rb =
     (if nelts rb \<noteq> length (elts rb) then None
      else let n = nelts rb; newlen = wmul n 2
           in do { cap \<leftarrow> reserve_cap size_of (length (elts rb)) (elts_cap rb) newlen;
                   let es = elts rb @ replicate (cap - length (elts rb)) None;
                   if wsub newlen (n div 2) < n then None
                   else if lo rb \<le> n - lo rb
                   then do { es' \<leftarrow> swap_range n [0 ..< lo rb] es;
                             Some (rb\<lparr>elts := es', elts_cap := cap\<rparr>) }
                   else do { es' \<leftarrow> swap_range (wsub newlen n) [lo rb ..< n] es;
                             Some (rb\<lparr>lo := wadd (lo rb) (wsub newlen n), elts := es', elts_cap := cap\<rparr>) } })"

definition rb_len :: "'a ring_buf \<Rightarrow> uint" where
  "rb_len rb = nelts rb"

definition rb_clear :: "'a ring_buf \<Rightarrow> 'a ring_buf" where
  "rb_clear rb = rb\<lparr>elts := map (\<lambda>_. None) (elts rb), nelts := 0, lo := 0\<rparr>"

definition rb_raw_index :: "'a ring_buf \<Rightarrow> uint \<Rightarrow> uint" where
  "rb_raw_index rb idx = raw_index (lo rb) (length (elts rb)) idx"

definition rb_get :: "'a ring_buf \<Rightarrow> uint \<Rightarrow> 'a option" where
  "rb_get rb i = do { slot \<leftarrow> vec_get (elts rb) (rb_raw_index rb i); slot }"

text \<open>The value behind a mutable reference, and writing through it.\<close>

definition rb_get_mut :: "'a ring_buf \<Rightarrow> uint \<Rightarrow> ('a \<times> ('a \<Rightarrow> 'a ring_buf)) option" where
  "rb_get_mut rb i =
     do { x \<leftarrow> rb_get rb i; Some (x, \<lambda>y. rb\<lparr>elts := (elts rb)[rb_raw_index rb i := Some y]\<rparr>) }"

text \<open>In the results of the following the outer option is task failure.\<close>

definition rb_front :: "'a ring_buf \<Rightarrow> 'a option option" where
  "rb_front rb = (if nelts rb > 0 then map_option Some (rb_get rb 0) else Some None)"

definition rb_back :: "'a ring_buf \<Rightarrow> 'a option option" where
  "rb_back rb = (if nelts rb > 0 then map_option Some (rb_get rb (nelts rb - 1)) else Some None)"

definition rb_front_mut :: "'a ring_buf \<Rightarrow> ('a \<times> ('a \<Rightarrow> 'a ring_buf)) option option" where
  "rb_front_mut rb = (if nelts rb > 0 then map_option Some (rb_get_mut rb 0) else Some None)"

definition rb_back_mut :: "'a ring_buf \<Rightarrow> ('a \<times> ('a \<Rightarrow> 'a ring_buf)) option option" where
  "rb_back_mut rb = (if nelts rb > 0 then map_option Some (rb_get_mut rb (nelts rb - 1)) else Some None)"

definition rb_pop_front :: "'a ring_buf \<Rightarrow> ('a option \<times> 'a ring_buf) option" where
  "rb_pop_front rb =
     do { result \<leftarrow> vec_get (elts rb) (lo rb);
          let rb1 = rb\<lparr>elts := (elts rb)[lo rb := None]\<rparr>;
          Some (result, if result \<noteq> None
            then rb1\<lparr>lo := (lo rb + 1) mod length (elts rb), nelts := nelts rb - 1\<rparr> else rb1) }"

definition rb_pop_back :: "'a ring_buf \<Rightarrow> ('a option \<times> 'a ring_buf) option" where
  "rb_pop_back rb =
     (if nelts rb > 0
      then do { let rb1 = rb\<lparr>nelts := nelts rb - 1\<rparr>;
                let hi = rb_raw_index rb1 (nelts rb1);
                result \<leftarrow> vec_get (elts rb) hi;
                Some (result, rb1\<lparr>elts := (elts rb)[hi := None]\<rparr>) }
      else Some (None, rb))"

definition rb_push_front :: "uint \<Rightarrow> 'a ring_buf \<Rightarrow> 'a \<Rightarrow> 'a ring_buf option" where
  "rb_push_front size_of rb t =
     do { rb1 \<leftarrow> (if nelts rb = length (elts rb) then grow size_of rb else Some rb);
          let lo' = (if lo rb1 = 0 then length (elts rb1) - 1 else lo rb1 - 1);
          es \<leftarrow> vec_set (elts rb1) lo' (Some t);
          Some (rb1\<lparr>lo := lo', elts := es, nelts := nelts rb1 + 1\<rparr>) }"

definition rb_push_back :: "uint \<Rightarrow> 'a ring_buf \<Rightarrow> 'a \<Rightarrow> 'a ring_buf option" where
  "rb_push_back size_of rb t =
     do { rb1 \<leftarrow> (if nelts rb = length (elts rb) then grow size_of rb else Some rb);
          let hi = rb_raw_index rb1 (nelts rb1);
          es \<leftarrow> vec_set (elts rb1) hi (Some t);
          Some (rb1\<lparr>elts := es, nelts := nelts rb1 + 1\<rparr>) }"

definition INITIAL_CAPACITY :: uint where
  "INITIAL_CAPACITY = 8"

definition MINIMUM_CAPACITY :: uint where
  "MINIMUM_CAPACITY = 2"

definition rb_with_capacity :: "uint \<Rightarrow> uint \<Rightarrow> 'a ring_buf option" where
  "rb_with_capacity size_of n =
     (let c = max MINIMUM_CAPACITY n
      in if c * size_of \<le> uint_max
         then Some \<lparr>nelts = 0, lo = 0, elts = replicate c None, elts_cap = c\<rparr> else None)"

definition rb_new :: "uint \<Rightarrow> 'a ring_buf option" where
  "rb_new size_of = rb_with_capacity size_of INITIAL_CAPACITY"

definition rb_swap :: "'a ring_buf \<Rightarrow> uint \<Rightarrow> uint \<Rightarrow> 'a ring_buf option" where
  "rb_swap rb i j =
     (if i < rb_len rb \<and> j < rb_len rb
      then do { es \<leftarrow> vec_swap (elts rb) (rb_raw_index rb i) (rb_raw_index rb j); Some (rb\<lparr>elts := es\<rparr>) }
      else None)"

definition rb_reserve_exact :: "uint \<Rightarrow> 'a ring_buf \<Rightarrow> uint \<Rightarrow> 'a ring_buf option" where
  "rb_reserve_exact size_of rb n =
     do { cap \<leftarrow> reserve_exact_cap size_of (elts_cap rb) n; Some (rb\<lparr>elts_cap := cap\<rparr>) }"

definition rb_reserve :: "uint \<Rightarrow> 'a ring_buf \<Rightarrow> uint \<Rightarrow> 'a ring_buf option" where
  "rb_reserve size_of rb n =
     do { cap \<leftarrow> reserve_cap size_of (length (elts rb)) (elts_cap rb) n; Some (rb\<lparr>elts_cap := cap\<rparr>) }"

fun rb_extend :: "uint \<Rightarrow> 'a ring_buf \<Rightarrow> 'a list \<Rightarrow> 'a ring_buf option" where
  "rb_extend size_of rb [] = Some rb"
| "rb_extend size_of rb (x # xs) = do { rb' \<leftarrow> rb_push_back size_of rb x; rb_extend size_of rb' xs }"

text \<open>\<open>lower\<close> is the lower size hint of the iterator.\<close>

definition rb_from_iter :: "uint \<Rightarrow> uint \<Rightarrow> 'a list \<Rightarrow> 'a ring_buf option" where
  "rb_from_iter size_of lower xs = do { rb \<leftarrow> rb_with_capacity size_of lower; rb_extend size_of rb xs }"

text \<open>The iterator over references.\<close>

record 'a rb_items =
  it_lo :: uint
  it_index :: uint
  it_rindex :: uint
  it_elts :: "'a option list"

definition rb_iter :: "'a ring_buf \<Rightarrow> 'a rb_items" where
  "rb_iter rb = \<lparr>it_lo = lo rb, it_index = 0, it_rindex = nelts rb, it_elts = elts rb\<rparr>"

definition items_next :: "'a rb_items \<Rightarrow> ('a option \<times> 'a rb_items) option" where
  "items_next it =
     (if it_index it = it_rindex it then Some (None, it)
      else do { slot \<leftarrow> vec_get (it_elts it) (raw_index (it_lo it) (length (it_elts it)) (it_index it));
                x \<leftarrow> slot;
                Some (Some x, it\<lparr>it_index := it_index it + 1\<rparr>) })"

definition items_next_back :: "'a rb_items \<Rightarrow> ('a option \<times> 'a rb_items) option" where
  "items_next_back it =
     (if it_index it = it_rindex it then Some (None, it)
      else do { let r = wsub (it_rindex it) 1;
                slot \<leftarrow> vec_get (it_elts it) (raw_index (it_lo it) (length (it_elts it)) r);
                x \<leftarrow> slot;
                Some (Some x, it\<lparr>it_rindex := r\<rparr>) })"

definition items_size_hint :: "'a rb_items \<Rightarrow> uint \<times> uint option" where
  "items_size_hint it = (let len = wsub (it_rindex it) (it_index it) in (len, Some len))"

definition items_indexable :: "'a rb_items \<Rightarrow> uint" where
  "items_indexable it = wsub (it_rindex it) (it_index it)"

definition items_idx :: "'a rb_items \<Rightarrow> uint \<Rightarrow> 'a option option" where
  "items_idx it j =
     (if j \<ge> items_indexable it then Some None
      else do { slot \<leftarrow> vec_get (it_elts it) (raw_index (it_lo it) (length (it_elts it)) (wadd (it_index it) j));
                x \<leftarrow> slot;
                Some (Some x) })"

text \<open>
  The iterator over mutable references.  A reference into the vector is the index of its slot, and
  a slice is the list of the indices of its slots; the iterator delivers references to full slots.
\<close>

record mut_items =
  remaining1 :: "uint list"
  remaining2 :: "uint list"
  mi_nelts :: uint

definition rb_mut_iter :: "'a ring_buf \<Rightarrow> mut_items option" where
  "rb_mut_iter rb =
     (let len = length (elts rb); start_index = raw_index (lo rb) len 0; end_index = raw_index (lo rb) len (nelts rb)
      in if end_index \<le> start_index
         then if start_index \<le> len
              then Some \<lparr>remaining1 = [start_index ..< len], remaining2 = [0 ..< end_index], mi_nelts = nelts rb\<rparr>
              else None
         else if end_index \<le> len
              then Some \<lparr>remaining1 = [start_index ..< end_index], remaining2 = [], mi_nelts = nelts rb\<rparr>
              else None)"

definition mut_items_next :: "'a ring_buf \<Rightarrow> mut_items \<Rightarrow> (uint option \<times> mut_items) option" where
  "mut_items_next rb it =
     (if mi_nelts it = 0 then Some (None, it)
      else case remaining1 it of
        j # js \<Rightarrow> do { slot \<leftarrow> vec_get (elts rb) j; _ \<leftarrow> slot;
                       Some (Some j, it\<lparr>remaining1 := js, mi_nelts := mi_nelts it - 1\<rparr>) }
      | [] \<Rightarrow> (case remaining2 it of
          j # js \<Rightarrow> do { slot \<leftarrow> vec_get (elts rb) j; _ \<leftarrow> slot;
                         Some (Some j, it\<lparr>remaining2 := js, mi_nelts := mi_nelts it - 1\<rparr>) }
        | [] \<Rightarrow> None))"

definition mut_items_next_back :: "'a ring_buf \<Rightarrow> mut_items \<Rightarrow> (uint option \<times> mut_items) option" where
  "mut_items_next_back rb it =
     (if mi_nelts it = 0 then Some (None, it)
      else if remaining2 it \<noteq> []
      then do { slot \<leftarrow> vec_get (elts rb) (last (remaining2 it)); _ \<leftarrow> slot;
                Some (Some (last (remaining2 it)),
                  it\<lparr>remaining2 := butlast (remaining2 it), mi_nelts := mi_nelts it - 1\<rparr>) }
      else if remaining1 it \<noteq> []
      then do { slot \<leftarrow> vec_get (elts rb) (last (remaining1 it)); _ \<leftarrow> slot;
                Some (Some (last (remaining1 it)),
                  it\<lparr>remaining1 := butlast (remaining1 it), mi_nelts := mi_nelts it - 1\<rparr>) }
      else None)"

definition mut_items_size_hint :: "mut_items \<Rightarrow> uint \<times> uint option" where
  "mut_items_size_hint it = (mi_nelts it, Some (mi_nelts it))"

definition rb_eq :: "('a \<Rightarrow> 'a \<Rightarrow> bool) \<Rightarrow> 'a ring_buf \<Rightarrow> 'a ring_buf \<Rightarrow> bool option" where
  "rb_eq eq rb other =
     (if nelts rb = nelts other then try_zip_all eq items_next items_next (rb_iter rb) (rb_iter other)
      else Some False)"

definition rb_ne :: "('a \<Rightarrow> 'a \<Rightarrow> bool) \<Rightarrow> 'a ring_buf \<Rightarrow> 'a ring_buf \<Rightarrow> bool option" where
  "rb_ne eq rb other = map_option Not (rb_eq eq rb other)"

section \<open>The slots in order\<close>

lemma rotate_update:
  assumes "i < length xs"
  shows "rotate m (xs[(m + i) mod length xs := v]) = (rotate m xs)[i := v]"
proof (rule nth_equalityI)
  fix j assume "j < length (rotate m (xs[(m + i) mod length xs := v]))"
  then have j: "j < length xs" by simp
  then have pos: "0 < length xs" by linarith
  show "rotate m (xs[(m + i) mod length xs := v]) ! j = (rotate m xs)[i := v] ! j"
  proof (cases "i = j")
    case True
    then show ?thesis using j pos by (simp add: nth_rotate)
  next
    case False
    then have "(m + i) mod length xs \<noteq> (m + j) mod length xs" using mod_add_inj assms j by blast
    with False j pos show ?thesis by (simp add: nth_rotate)
  qed
qed simp

definition rb_repr :: "'a ring_buf \<Rightarrow> 'a list \<Rightarrow> bool" where
  "rb_repr rb xs \<longleftrightarrow> lo rb < length (elts rb) \<and> length (elts rb) \<le> 2 ^ 63 \<and> nelts rb = length xs \<and>
     length xs \<le> length (elts rb) \<and>
     rotate (lo rb) (elts rb) = map Some xs @ replicate (length (elts rb) - length xs) None"

text \<open>The vector has no spare capacity and its length is a power of two.\<close>

definition rb_tight :: "'a ring_buf \<Rightarrow> bool" where
  "rb_tight rb \<longleftrightarrow> elts_cap rb = length (elts rb) \<and> (\<exists>k. length (elts rb) = 2 ^ k) \<and> 2 \<le> length (elts rb)"

lemma raw_index_mod:
  assumes "l < len" "index \<le> len" "len \<le> 2 ^ 63"
  shows "raw_index l len index = (l + index) mod len"
proof -
  have [simp]: "wsub len index = len - index" "wadd l index = l + index"
    using assms by (simp_all add: wsub_exact wadd_exact)
  show ?thesis
  proof (cases "len - index \<le> l")
    case True
    then have "(l + index) mod len = l + index - len"
      using assms by (simp add: le_mod_geq)
    moreover have "wsub (l + index) len = l + index - len" using True assms by (intro wsub_exact) auto
    ultimately show ?thesis using True by (simp add: raw_index_def)
  next
    case False
    then show ?thesis using assms by (simp add: raw_index_def)
  qed
qed

lemma rb_slot:
  assumes "rb_repr rb xs" "i < length (elts rb)"
  shows "elts rb ! ((lo rb + i) mod length (elts rb)) = (if i < length xs then Some (xs ! i) else None)"
proof -
  have "elts rb ! ((lo rb + i) mod length (elts rb)) = rotate (lo rb) (elts rb) ! i"
    using assms(2) by (simp add: nth_rotate)
  also have "\<dots> = (if i < length xs then Some (xs ! i) else None)"
    using assms by (simp add: rb_repr_def nth_append)
  finally show ?thesis .
qed

lemma rb_raw_index_mod:
  "rb_repr rb xs \<Longrightarrow> i \<le> length (elts rb) \<Longrightarrow> rb_raw_index rb i = (lo rb + i) mod length (elts rb)"
  by (simp add: rb_raw_index_def rb_repr_def raw_index_mod)

lemma rb_get_ok:
  assumes "rb_repr rb xs" "i < length (elts rb)"
  shows "rb_get rb i = (if i < length xs then Some (xs ! i) else None)"
proof -
  have "(lo rb + i) mod length (elts rb) < length (elts rb)" using assms(2) by (intro mod_less_divisor) linarith
  with rb_raw_index_mod [OF assms(1), of i] rb_slot [OF assms] assms(2) show ?thesis
    by (simp add: rb_get_def vec_get_Some)
qed

text \<open>The index just behind the last slot wraps around to the first element.\<close>

lemma rb_get_any:
  assumes rb: "rb_repr rb xs" and i: "i < 2 ^ 63"
  shows "rb_get rb i = (if i < length xs then Some (xs ! i)
    else if i = length (elts rb) \<and> xs \<noteq> [] then Some (hd xs) else None)"
proof -
  let ?len = "length (elts rb)"
  have b: "lo rb < ?len" "length xs \<le> ?len" "?len \<le> 2 ^ 63" using rb by (auto simp: rb_repr_def)
  consider "i < ?len" | "i = ?len" | "?len < i" by linarith
  then show ?thesis
  proof cases
    case 1
    then show ?thesis using rb_get_ok [OF rb 1] by auto
  next
    case 2
    then have "rb_raw_index rb i = rb_raw_index rb 0"
      using rb_raw_index_mod [OF rb, of i] rb_raw_index_mod [OF rb, of 0] by simp
    then have "rb_get rb i = rb_get rb 0" by (simp add: rb_get_def)
    also have "\<dots> = (if 0 < length xs then Some (xs ! 0) else None)" using b by (intro rb_get_ok [OF rb]) linarith
    finally show ?thesis using 2 b by (auto simp: hd_conv_nth)
  next
    case 3
    then have w: "wsub ?len i = ?len + 2 ^ 64 - i" using b i by (simp add: wsub_def)
    then have "lo rb < wsub ?len i" "wadd (lo rb) i = lo rb + i" using 3 b i by (simp_all add: wadd_exact)
    then show ?thesis using 3 b by (simp add: rb_get_def rb_raw_index_def raw_index_def vec_get_None)
  qed
qed

lemma rb_front_ok: "rb_repr rb xs \<Longrightarrow> rb_front rb = Some (if xs = [] then None else Some (hd xs))"
proof -
  assume rb: "rb_repr rb xs"
  then have "0 < length (elts rb)" by (auto simp: rb_repr_def)
  from rb_get_ok [OF rb this] rb show ?thesis by (auto simp: rb_front_def rb_repr_def hd_conv_nth)
qed

lemma rb_back_ok: "rb_repr rb xs \<Longrightarrow> rb_back rb = Some (if xs = [] then None else Some (last xs))"
proof -
  assume rb: "rb_repr rb xs"
  show ?thesis
  proof (cases xs rule: rev_cases)
    case Nil
    with rb show ?thesis by (simp add: rb_back_def rb_repr_def)
  next
    case (snoc ys y)
    with rb have "length ys < length (elts rb)" by (simp add: rb_repr_def)
    from rb_get_ok [OF rb this] rb snoc show ?thesis by (simp add: rb_back_def rb_repr_def)
  qed
qed

text \<open>Writing a slot of the buffer is writing the list of slots in order.\<close>

lemma rb_write:
  assumes "rb_repr rb xs" "i < length (elts rb)"
  shows "rotate (lo rb) ((elts rb)[(lo rb + i) mod length (elts rb) := v]) =
    (map Some xs @ replicate (length (elts rb) - length xs) None)[i := v]"
  using rotate_update [OF assms(2)] assms(1) by (simp add: rb_repr_def)

lemma rb_pop_back_ok:
  assumes rb: "rb_repr rb xs"
  shows "\<exists>rb'. rb_pop_back rb = Some (if xs = [] then None else Some (last xs), rb') \<and> rb_repr rb' (butlast xs) \<and>
    elts_cap rb' = elts_cap rb \<and> length (elts rb') = length (elts rb)"
proof (cases xs rule: rev_cases)
  case Nil
  with rb show ?thesis by (simp add: rb_pop_back_def rb_repr_def)
next
  case (snoc ys y)
  let ?i = "length ys" and ?len = "length (elts rb)"
  have i: "?i < ?len" using rb snoc by (simp add: rb_repr_def)
  have hi: "raw_index (lo rb) ?len ?i = (lo rb + ?i) mod ?len" using rb i by (intro raw_index_mod) (auto simp: rb_repr_def)
  let ?es = "(elts rb)[(lo rb + ?i) mod ?len := None]"
  have "?len - ?i = Suc (?len - length xs)" using i snoc by simp
  then have rot: "rotate (lo rb) ?es = map Some ys @ replicate (?len - ?i) None"
    using rb_write [OF rb i, of None] snoc by (simp add: list_update_append)
  have "(lo rb + ?i) mod ?len < ?len" using i by (intro mod_less_divisor) linarith
  then have "rb_pop_back rb = Some (Some y, rb\<lparr>nelts := ?i, elts := ?es\<rparr>)"
    using rb i rb_slot [OF rb i] snoc
    by (simp add: rb_pop_back_def rb_repr_def rb_raw_index_def hi vec_get_def Let_def)
  with rot rb snoc i show ?thesis by (simp add: rb_repr_def)
qed

lemma rotate_step: "rotate (Suc l mod length xs) xs = rotate1 (rotate l xs)"
  by (metis rotate_Suc rotate_conv_mod)

lemma rb_pop_front_ok:
  assumes rb: "rb_repr rb xs"
  shows "\<exists>rb'. rb_pop_front rb = Some (if xs = [] then None else Some (hd xs), rb') \<and> rb_repr rb' (tl xs) \<and>
    elts_cap rb' = elts_cap rb \<and> length (elts rb') = length (elts rb)"
proof -
  let ?len = "length (elts rb)"
  have lo: "lo rb < ?len" "0 < ?len" using rb by (auto simp: rb_repr_def)
  then have slot: "elts rb ! lo rb = (if xs = [] then None else Some (hd xs))"
    using rb_slot [OF rb lo(2)] by (simp add: hd_conv_nth)
  have wrote: "rotate (lo rb) ((elts rb)[lo rb := None]) = (map Some xs @ replicate (?len - length xs) None)[0 := None]"
    using rb_write [OF rb lo(2), of None] lo(1) by simp
  show ?thesis
  proof (cases xs)
    case Nil
    then have "(elts rb)[lo rb := None] = elts rb" using slot by (metis list_update_id)
    with Nil rb lo slot show ?thesis by (simp add: rb_pop_front_def vec_get_def)
  next
    case (Cons x ys)
    then have len: "?len - length ys = Suc (?len - length xs)"
      using rb unfolding rb_repr_def by (simp, linarith)
    let ?rb = "rb\<lparr>elts := (elts rb)[lo rb := None], lo := Suc (lo rb) mod ?len, nelts := length ys\<rparr>"
    have "rotate (Suc (lo rb) mod ?len) ((elts rb)[lo rb := None]) = map Some ys @ replicate (?len - length ys) None"
      using rotate_step [of "lo rb" "(elts rb)[lo rb := None]"] wrote Cons len
      by (simp add: replicate_append_same)
    moreover have "Suc (lo rb) mod ?len < ?len" using lo(2) by (rule mod_less_divisor)
    ultimately have "rb_repr ?rb ys" using rb Cons by (simp add: rb_repr_def)
    moreover have "rb_pop_front rb = Some (Some x, ?rb)"
      using rb lo slot Cons by (simp add: rb_pop_front_def vec_get_def rb_repr_def)
    ultimately show ?thesis using Cons by simp
  qed
qed

text \<open>Pushing into a buffer with a free slot.\<close>

lemma rb_push_back_room:
  assumes rb: "rb_repr rb xs" and room: "length xs < length (elts rb)"
  shows "\<exists>rb'. rb_push_back size_of rb x = Some rb' \<and> rb_repr rb' (xs @ [x]) \<and>
    elts_cap rb' = elts_cap rb \<and> length (elts rb') = length (elts rb)"
proof -
  let ?len = "length (elts rb)" and ?i = "length xs"
  have hi: "rb_raw_index rb ?i = (lo rb + ?i) mod ?len" using room by (intro rb_raw_index_mod [OF rb]) simp
  have pos: "(lo rb + ?i) mod ?len < ?len" using room by (intro mod_less_divisor) linarith
  let ?es = "(elts rb)[(lo rb + ?i) mod ?len := Some x]"
  obtain m where m: "?len - ?i = Suc m" using room by (metis Suc_diff_Suc)
  then have "rotate (lo rb) ?es = map Some (xs @ [x]) @ replicate (?len - Suc ?i) None"
    using rb_write [OF rb room, of "Some x"] by (simp add: list_update_append)
  with rb room have "rb_repr (rb\<lparr>elts := ?es, nelts := nelts rb + 1\<rparr>) (xs @ [x])" by (simp add: rb_repr_def)
  moreover have "rb_push_back size_of rb x = Some (rb\<lparr>elts := ?es, nelts := nelts rb + 1\<rparr>)"
    using rb room hi pos by (simp add: rb_push_back_def rb_repr_def vec_set_Some)
  ultimately show ?thesis by simp
qed

lemma rotate_back: "l < length xs \<Longrightarrow> xs \<noteq> [] \<Longrightarrow>
    rotate1 (rotate (if l = 0 then length xs - 1 else l - 1) xs) = rotate l xs"
  using rotate_step [of "length xs - 1" xs] by (cases l) (auto simp flip: rotate_Suc)

lemma rb_push_front_room:
  assumes rb: "rb_repr rb xs" and room: "length xs < length (elts rb)"
  shows "\<exists>rb'. rb_push_front size_of rb x = Some rb' \<and> rb_repr rb' (x # xs) \<and>
    elts_cap rb' = elts_cap rb \<and> length (elts rb') = length (elts rb)"
proof -
  let ?len = "length (elts rb)"
  define l where "l = (if lo rb = 0 then length (elts rb) - 1 else lo rb - 1)"
  have l: "l < ?len" "elts rb \<noteq> []" using rb by (auto simp: rb_repr_def l_def)
  obtain m where m: "?len - length xs = Suc m" using room by (metis Suc_diff_Suc)
  have "rotate1 (rotate l (elts rb)) = (map Some xs @ replicate m None) @ [None]"
    using rotate_back [of "lo rb" "elts rb", folded l_def] rb l(2) m by (simp add: rb_repr_def replicate_append_same)
  then have rot: "rotate l (elts rb) = None # map Some xs @ replicate m None"
    by (cases "rotate l (elts rb)") auto
  let ?es = "(elts rb)[l := Some x]"
  have "rotate l ?es = (rotate l (elts rb))[0 := Some x]"
    using rotate_update [of 0 "elts rb" l "Some x"] l by simp
  then have "rotate l ?es = map Some (x # xs) @ replicate (?len - Suc (length xs)) None"
    using rot m by simp
  with rb room l have "rb_repr (rb\<lparr>lo := l, elts := ?es, nelts := nelts rb + 1\<rparr>) (x # xs)" by (simp add: rb_repr_def)
  moreover have "rb_push_front size_of rb x = Some (rb\<lparr>lo := l, elts := ?es, nelts := nelts rb + 1\<rparr>)"
    using rb room l(1) by (simp add: rb_push_front_def rb_repr_def vec_set_Some flip: l_def)
  ultimately show ?thesis by simp
qed

section \<open>Growing a full buffer\<close>

lemma swap_range_ok:
  assumes "distinct is" "\<forall>i \<in> set is. d + i < length xs \<and> d + i \<notin> set is"
  shows "\<exists>ys. swap_range d is xs = Some ys \<and> length ys = length xs \<and>
    (\<forall>j < length xs. ys ! j = (if j \<in> set is then xs ! (d + j)
       else if d \<le> j \<and> j - d \<in> set is then xs ! (j - d) else xs ! j))"
  using assms
proof (induction "is" arbitrary: xs)
  case (Cons i "is")
  let ?xs = "xs[i := xs ! (d + i), d + i := xs ! i]"
  have sw: "vec_swap xs i (d + i) = Some ?xs" using Cons.prems by (simp add: vec_swap_def)
  obtain ys where ys: "swap_range d is ?xs = Some ys" "length ys = length ?xs"
    "\<forall>j < length ?xs. ys ! j = (if j \<in> set is then ?xs ! (d + j)
       else if d \<le> j \<and> j - d \<in> set is then ?xs ! (j - d) else ?xs ! j)"
    using Cons.IH [of ?xs] Cons.prems by auto
  have "ys ! j = (if j \<in> set (i # is) then xs ! (d + j)
       else if d \<le> j \<and> j - d \<in> set (i # is) then xs ! (j - d) else xs ! j)" if j: "j < length xs" for j
  proof -
    consider "j = i" | "j \<noteq> i" "j \<in> set is" | "j = d + i" "j \<noteq> i" "j \<notin> set is"
      | "j \<noteq> i" "j \<notin> set is" "j \<noteq> d + i" by blast
    then show ?thesis
    proof cases
      case 1
      have "j - d \<noteq> i \<or> \<not> d \<le> j" "\<not> (d \<le> j \<and> j - d \<in> set is)"
        using 1 Cons.prems by (metis le_add_diff_inverse list.set_intros)+
      with 1 ys(3) j Cons.prems show ?thesis by (auto simp: nth_list_update)
    next
      case 2
      then have "d + j \<noteq> i" "j \<noteq> d + i" "d + j \<noteq> d + i" using Cons.prems by auto
      with 2 ys(3) j show ?thesis by simp
    next
      case 3
      then show ?thesis using ys(3) j Cons.prems by simp
    next
      case 4
      then have "j - d \<noteq> i \<or> \<not> d \<le> j" by auto
      moreover have "j - d \<noteq> d + i" if "d \<le> j" "j - d \<in> set is" using that Cons.prems by auto
      ultimately show ?thesis using 4 ys(3) j by auto
    qed
  qed
  with ys(1,2) sw show ?case by auto
qed auto

lemma rotate_split: "l < length es \<Longrightarrow> rotate l es = drop l es @ take l es"
  by (simp add: rotate_drop_take)

lemma grow_A:
  assumes "length es = n" "l \<le> n - l" "l < n"
  shows "\<exists>es'. swap_range n [0 ..< l] (es @ replicate n None) = Some es' \<and> length es' = 2 * n \<and>
    rotate l es' = rotate l es @ replicate n None"
proof -
  from swap_range_ok [of "[0 ..< l]" n "es @ replicate n None"] assms
  obtain es' where es': "swap_range n [0 ..< l] (es @ replicate n None) = Some es'" "length es' = 2 * n"
    "\<And>j. j < 2 * n \<Longrightarrow> es' ! j = (if j < l then (es @ replicate n None) ! (n + j)
       else if n \<le> j \<and> j - n < l then (es @ replicate n None) ! (j - n) else (es @ replicate n None) ! j)"
    by auto
  have eq: "es' = replicate l None @ drop l es @ take l es @ replicate (n - l) None"
    by (rule nth_equalityI) (use assms es' in \<open>auto simp: nth_append min_def\<close>)
  have "rotate l es' = drop l es @ take l es @ replicate (n - l) None @ replicate l None"
    using rotate_append [of "replicate l None" "drop l es @ take l es @ replicate (n - l) None"] eq by simp
  also have "replicate (n - l) None @ replicate l None = replicate n None"
    using assms(3) by (simp flip: replicate_add)
  finally show ?thesis using es'(1,2) assms rotate_split [of l es] by simp
qed

lemma grow_B:
  assumes "length es = n" "l < n"
  shows "\<exists>es'. swap_range n [l ..< n] (es @ replicate n None) = Some es' \<and> length es' = 2 * n \<and>
    rotate (l + n) es' = rotate l es @ replicate n None"
proof -
  from swap_range_ok [of "[l ..< n]" n "es @ replicate n None"] assms
  obtain es' where es': "swap_range n [l ..< n] (es @ replicate n None) = Some es'" "length es' = 2 * n"
    "\<And>j. j < 2 * n \<Longrightarrow> es' ! j = (if l \<le> j \<and> j < n then (es @ replicate n None) ! (n + j)
       else if n \<le> j \<and> l \<le> j - n \<and> j - n < n then (es @ replicate n None) ! (j - n) else (es @ replicate n None) ! j)"
    by auto
  have eq: "es' = (take l es @ replicate n None) @ drop l es"
    by (rule nth_equalityI) (use assms es' in \<open>auto simp: nth_append min_def\<close>)
  have "rotate (l + n) es' = drop l es @ take l es @ replicate n None"
    using rotate_append [of "take l es @ replicate n None" "drop l es"] eq assms by simp
  then show ?thesis using es'(1,2) assms rotate_split [of l es] by simp
qed

lemma reserve_cap_double:
  assumes "n = 2 ^ k" "2 * n \<le> 2 ^ 63"
  shows "reserve_cap size_of n n (2 * n) = (if 2 * n * size_of \<le> uint_max then Some (2 * n) else None)"
proof -
  have "(2::nat) ^ Suc k \<le> 2 ^ 63" using assms by simp
  then have k: "Suc k \<le> 63" by (simp only: power_increasing_iff)
  then have "unat (2 ^ Suc k :: 64 word) = 2 ^ Suc k" by (intro unat_two_power) simp
  then have "unat (of_nat (2 ^ Suc k) :: 64 word) = 2 ^ Suc k" by simp
  with next_power_of_two_power [OF k] show ?thesis
    using assms(1) by (simp add: reserve_cap_def reserve_exact_cap_def)
qed

text \<open>A full tight buffer grows to twice its size, without touching the order of its elements.\<close>

lemma grow_ok:
  assumes rb: "rb_repr rb xs" "rb_tight rb" "length xs = length (elts rb)"
    and room: "2 * length (elts rb) * size_of \<le> uint_max" "0 < size_of"
  shows "\<exists>rb'. grow size_of rb = Some rb' \<and> rb_repr rb' xs \<and> rb_tight rb' \<and> length (elts rb') = 2 * length (elts rb)"
proof -
  let ?n = "length (elts rb)"
  obtain k where k: "?n = 2 ^ k" "2 \<le> ?n" "elts_cap rb = ?n" using rb(2) by (auto simp: rb_tight_def)
  have lo: "lo rb < ?n" and rot: "rotate (lo rb) (elts rb) = map Some xs" using rb(1,3) by (auto simp: rb_repr_def)
  have "2 * ?n \<le> 2 * ?n * size_of" using room(2) by simp
  then have "2 * ?n \<le> uint_max" using room(1) by linarith
  then have "2 * ?n < 2 ^ 64" by (simp add: uint_max_def)
  moreover from this have "(2::nat) ^ Suc k < 2 ^ 64" using k(1) by simp
  then have "Suc k \<le> 63" by (simp only: power_strict_increasing_iff)
  then have "(2::nat) ^ Suc k \<le> 2 ^ 63" by (intro power_increasing) auto
  then have small: "2 * ?n \<le> 2 ^ 63" using k(1) by simp
  ultimately have w: "wmul ?n 2 = 2 * ?n" "wsub (2 * ?n) ?n = ?n" "wsub (2 * ?n) (?n div 2) = 2 * ?n - ?n div 2"
    "wadd (lo rb) ?n = lo rb + ?n"
    using lo by (simp_all add: wmul_exact wsub_exact wadd_exact mult.commute)
  have cap: "reserve_cap size_of ?n ?n (2 * ?n) = Some (2 * ?n)"
    using reserve_cap_double [OF k(1) small] room(1) by simp
  have tight: "rb_tight (rb\<lparr>lo := l, elts := es, elts_cap := 2 * ?n\<rparr>)" if "length es = 2 * ?n" for l es
    using that k by (auto simp: rb_tight_def intro: exI [of _ "Suc k"])
  have repr: "rb_repr (rb\<lparr>lo := l, elts := es, elts_cap := 2 * ?n\<rparr>) xs"
    if "length es = 2 * ?n" "l < 2 * ?n" "rotate l es = map Some xs @ replicate ?n None" for l es
    using that rb small by (simp add: rb_repr_def)
  have nelts: "nelts rb = ?n" using rb by (simp add: rb_repr_def)
  note unfold = grow_def nelts k(3) w cap Let_def
  show ?thesis
  proof (cases "lo rb \<le> ?n - lo rb")
    case True
    obtain es where "swap_range ?n [0 ..< lo rb] (elts rb @ replicate ?n None) = Some es" "length es = 2 * ?n"
      "rotate (lo rb) es = map Some xs @ replicate ?n None" using grow_A [OF refl True lo] rot by auto
    with True tight [of es "lo rb"] repr [of es "lo rb"] lo show ?thesis by (simp add: unfold)
  next
    case False
    obtain es where "swap_range ?n [lo rb ..< ?n] (elts rb @ replicate ?n None) = Some es" "length es = 2 * ?n"
      "rotate (lo rb + ?n) es = map Some xs @ replicate ?n None" using grow_B [OF refl lo] rot by auto
    with False tight [of es "lo rb + ?n"] repr [of es "lo rb + ?n"] lo show ?thesis by (simp add: unfold)
  qed
qed

lemma rb_push_back_ok:
  assumes rb: "rb_repr rb xs" "rb_tight rb"
    and room: "length xs < length (elts rb) \<or> 2 * length (elts rb) * size_of \<le> uint_max \<and> 0 < size_of"
  shows "\<exists>rb'. rb_push_back size_of rb x = Some rb' \<and> rb_repr rb' (xs @ [x]) \<and> rb_tight rb' \<and>
    length (elts rb') = (if length xs < length (elts rb) then length (elts rb) else 2 * length (elts rb))"
proof (cases "length xs < length (elts rb)")
  case True
  with rb_push_back_room [OF rb(1)] rb(2) show ?thesis by (fastforce simp: rb_tight_def)
next
  case False
  with rb(1) have full: "length xs = length (elts rb)" "nelts rb = length (elts rb)" by (auto simp: rb_repr_def)
  obtain rb1 where rb1: "grow size_of rb = Some rb1" "rb_repr rb1 xs" "rb_tight rb1"
    "length (elts rb1) = 2 * length (elts rb)" using grow_ok [OF rb full(1)] room full by auto
  have r: "length xs < length (elts rb1)" using rb1(4) rb(2) full by (auto simp: rb_tight_def)
  then have "rb_push_back size_of rb x = rb_push_back size_of rb1 x"
    using rb1 full by (simp add: rb_push_back_def rb_repr_def)
  with rb_push_back_room [OF rb1(2) r, of size_of x] rb1(3,4) False show ?thesis
    by (auto simp: rb_tight_def)
qed

lemma rb_push_front_ok:
  assumes rb: "rb_repr rb xs" "rb_tight rb"
    and room: "length xs < length (elts rb) \<or> 2 * length (elts rb) * size_of \<le> uint_max \<and> 0 < size_of"
  shows "\<exists>rb'. rb_push_front size_of rb x = Some rb' \<and> rb_repr rb' (x # xs) \<and> rb_tight rb' \<and>
    length (elts rb') = (if length xs < length (elts rb) then length (elts rb) else 2 * length (elts rb))"
proof (cases "length xs < length (elts rb)")
  case True
  with rb_push_front_room [OF rb(1)] rb(2) show ?thesis by (fastforce simp: rb_tight_def)
next
  case False
  with rb(1) have full: "length xs = length (elts rb)" "nelts rb = length (elts rb)" by (auto simp: rb_repr_def)
  obtain rb1 where rb1: "grow size_of rb = Some rb1" "rb_repr rb1 xs" "rb_tight rb1"
    "length (elts rb1) = 2 * length (elts rb)" using grow_ok [OF rb full(1)] room full by auto
  have r: "length xs < length (elts rb1)" using rb1(4) rb(2) full by (auto simp: rb_tight_def)
  then have "rb_push_front size_of rb x = rb_push_front size_of rb1 x"
    using rb1 full by (simp add: rb_push_front_def rb_repr_def)
  with rb_push_front_room [OF rb1(2) r, of size_of x] rb1(3,4) False show ?thesis
    by (auto simp: rb_tight_def)
qed

section \<open>The contract of a deque\<close>

definition rb_abs :: "'a ring_buf \<Rightarrow> 'a list" where
  "rb_abs rb = map the (take (nelts rb) (rotate (lo rb) (elts rb)))"

definition rb_ok :: "'a ring_buf \<Rightarrow> bool" where
  "rb_ok rb \<longleftrightarrow> rb_repr rb (rb_abs rb) \<and> rb_tight rb"

lemma rb_repr_abs: "rb_repr rb xs \<Longrightarrow> rb_abs rb = xs"
  by (simp add: rb_repr_def rb_abs_def comp_def)

lemma rb_ok_iff: "rb_ok rb \<and> rb_abs rb = xs \<longleftrightarrow> rb_repr rb xs \<and> rb_tight rb"
  by (auto simp: rb_ok_def rb_repr_abs)

lemma rb_okI: "rb_repr rb xs \<Longrightarrow> rb_tight rb \<Longrightarrow> rb_ok rb \<and> rb_abs rb = xs"
  by (simp add: rb_ok_iff)

lemma rb_okI_same:
  "rb_repr rb' xs \<Longrightarrow> elts_cap rb' = elts_cap rb \<Longrightarrow> length (elts rb') = length (elts rb) \<Longrightarrow> rb_tight rb \<Longrightarrow>
     rb_ok rb' \<and> rb_abs rb' = xs"
  by (rule rb_okI) (simp_all add: rb_tight_def)

lemma rb_limit: "2 * n \<le> uint_max div size_of \<Longrightarrow> 0 < n \<Longrightarrow> 2 * n * size_of \<le> uint_max \<and> 0 < size_of"
  by (cases "size_of = 0") (simp_all add: less_eq_div_iff_mult_less_eq)

lemma rb_clear_ok: "rb_repr rb xs \<Longrightarrow> rb_repr (rb_clear rb) []"
  by (auto simp: rb_repr_def rb_clear_def map_replicate_const)

interpretation rb_deque: deque rb_ok rb_abs "\<lambda>rb. length (elts rb)" "uint_max div size_of"
  "rb_push_front size_of" "rb_push_back size_of" rb_pop_front rb_pop_back rb_front rb_back rb_len rb_clear
  for size_of
proof
  fix d :: "'a ring_buf" and x
  assume d: "rb_ok d"
  then have repr: "rb_repr d (rb_abs d)" "rb_tight d" by (auto simp: rb_ok_def)
  have pos: "0 < length (elts d)" using repr(2) by (auto simp: rb_tight_def)
  show "\<exists>d'. rb_push_front size_of d x = Some d' \<and> rb_ok d' \<and> rb_abs d' = x # rb_abs d \<and>
      length (elts d') = (if length (rb_abs d) < length (elts d) then length (elts d) else 2 * length (elts d))"
    if "length (rb_abs d) < length (elts d) \<or> 2 * length (elts d) \<le> uint_max div size_of"
    using rb_push_front_ok [OF repr, of size_of x] that rb_limit [of "length (elts d)" size_of] pos by (fastforce dest: rb_okI split: if_splits)
  show "\<exists>d'. rb_push_back size_of d x = Some d' \<and> rb_ok d' \<and> rb_abs d' = rb_abs d @ [x] \<and>
      length (elts d') = (if length (rb_abs d) < length (elts d) then length (elts d) else 2 * length (elts d))"
    if "length (rb_abs d) < length (elts d) \<or> 2 * length (elts d) \<le> uint_max div size_of"
    using rb_push_back_ok [OF repr, of size_of x] that rb_limit [of "length (elts d)" size_of] pos by (fastforce dest: rb_okI split: if_splits)
  show "\<exists>d'. rb_pop_front d = Some (if rb_abs d = [] then None else Some (hd (rb_abs d)), d') \<and>
      rb_ok d' \<and> rb_abs d' = tl (rb_abs d) \<and> length (elts d') = length (elts d)"
    using rb_pop_front_ok [OF repr(1)] repr(2) by (blast dest: rb_okI_same)
  show "\<exists>d'. rb_pop_back d = Some (if rb_abs d = [] then None else Some (last (rb_abs d)), d') \<and>
      rb_ok d' \<and> rb_abs d' = butlast (rb_abs d) \<and> length (elts d') = length (elts d)"
    using rb_pop_back_ok [OF repr(1)] repr(2) by (blast dest: rb_okI_same)
  show "rb_front d = Some (if rb_abs d = [] then None else Some (hd (rb_abs d)))" using repr(1) by (rule rb_front_ok)
  show "rb_back d = Some (if rb_abs d = [] then None else Some (last (rb_abs d)))" using repr(1) by (rule rb_back_ok)
  show "rb_len d = length (rb_abs d)" "length (rb_abs d) \<le> length (elts d)"
    using repr(1) by (simp_all add: rb_len_def rb_repr_def)
  have "rb_tight (rb_clear d)" using repr(2) by (simp add: rb_tight_def rb_clear_def)
  with rb_clear_ok [OF repr(1)] rb_ok_iff [of "rb_clear d" "[]"]
  show "rb_ok (rb_clear d) \<and> rb_abs (rb_clear d) = [] \<and> length (elts (rb_clear d)) = length (elts d)"
    by (simp add: rb_clear_def)
qed

section \<open>Iterators\<close>

definition items_pending :: "'a rb_items \<Rightarrow> 'a list" where
  "items_pending it = map (\<lambda>i. the (it_elts it ! ((it_lo it + i) mod length (it_elts it)))) [it_index it ..< it_rindex it]"

definition items_ok :: "'a rb_items \<Rightarrow> bool" where
  "items_ok it \<longleftrightarrow> it_lo it < length (it_elts it) \<and> length (it_elts it) \<le> 2 ^ 63 \<and> it_index it \<le> it_rindex it \<and>
     it_rindex it \<le> length (it_elts it) \<and>
     (\<forall>i. it_index it \<le> i \<and> i < it_rindex it \<longrightarrow> it_elts it ! ((it_lo it + i) mod length (it_elts it)) \<noteq> None)"

lemma items_slot:
  assumes "items_ok it" "it_index it \<le> i" "i < it_rindex it"
  shows "vec_get (it_elts it) (raw_index (it_lo it) (length (it_elts it)) i) =
    Some (Some (the (it_elts it ! ((it_lo it + i) mod length (it_elts it)))))"
proof -
  have "raw_index (it_lo it) (length (it_elts it)) i = (it_lo it + i) mod length (it_elts it)"
    using assms by (intro raw_index_mod) (auto simp: items_ok_def)
  moreover have "(it_lo it + i) mod length (it_elts it) < length (it_elts it)"
    using assms by (intro mod_less_divisor) (auto simp: items_ok_def)
  moreover have "it_elts it ! ((it_lo it + i) mod length (it_elts it)) \<noteq> None"
    using assms by (auto simp: items_ok_def)
  ultimately show ?thesis by (auto simp: vec_get_Some)
qed

interpretation rb_items_iter: fallible_iterator items_ok items_pending items_next items_next_back
proof
  fix it :: "'a rb_items"
  assume it: "items_ok it"
  let ?x = "\<lambda>i. the (it_elts it ! ((it_lo it + i) mod length (it_elts it)))"
  have bounds: "it_index it \<le> it_rindex it" "it_rindex it < 2 ^ 64" using it by (auto simp: items_ok_def)
  show "\<exists>it'. items_ok it' \<and> items_pending it' = tl (items_pending it) \<and>
      items_next it = Some (if items_pending it = [] then None else Some (hd (items_pending it)), it')"
  proof (cases "it_index it = it_rindex it")
    case False
    then have i: "it_index it < it_rindex it" using bounds by simp
    let ?it = "it\<lparr>it_index := it_index it + 1\<rparr>"
    have "items_pending it = ?x (it_index it) # items_pending ?it"
      using i by (simp add: items_pending_def upt_conv_Cons)
    moreover have "items_ok ?it" using it i by (auto simp: items_ok_def)
    moreover have "items_next it = Some (Some (?x (it_index it)), ?it)"
      using False items_slot [OF it order.refl i] by (simp add: items_next_def)
    ultimately show ?thesis by simp
  qed (use it in \<open>simp add: items_next_def items_pending_def\<close>)
  show "\<exists>it'. items_ok it' \<and> items_pending it' = butlast (items_pending it) \<and>
      items_next_back it = Some (if items_pending it = [] then None else Some (last (items_pending it)), it')"
  proof (cases "it_index it = it_rindex it")
    case False
    then have i: "it_index it \<le> it_rindex it - 1" "it_rindex it - 1 < it_rindex it" using bounds by simp_all
    have w: "wsub (it_rindex it) (Suc 0) = it_rindex it - 1" using False bounds by (subst wsub_exact) auto
    let ?it = "it\<lparr>it_rindex := it_rindex it - 1\<rparr>"
    have "[it_index it ..< it_rindex it] = [it_index it ..< it_rindex it - 1] @ [it_rindex it - 1]"
      using i by (metis Suc_pred' gr_implies_not0 not_gr0 upt_Suc_append)
    then have "items_pending it = items_pending ?it @ [?x (it_rindex it - 1)]" by (simp add: items_pending_def)
    moreover have "items_ok ?it" using it i by (auto simp: items_ok_def)
    moreover have "items_next_back it = Some (Some (?x (it_rindex it - 1)), ?it)"
      using False items_slot [OF it i] by (simp add: items_next_back_def w Let_def)
    ultimately show ?thesis by simp
  qed (use it in \<open>simp add: items_next_back_def items_pending_def\<close>)
qed

lemma rb_iter_ok:
  assumes "rb_repr rb xs"
  shows "items_ok (rb_iter rb)" "items_pending (rb_iter rb) = xs"
proof -
  have slot: "elts rb ! ((lo rb + i) mod length (elts rb)) = Some (xs ! i)" if "i < length xs" for i
    using rb_slot [OF assms, of i] that assms by (simp add: rb_repr_def)
  then show "items_ok (rb_iter rb)" using assms by (auto simp: items_ok_def rb_iter_def rb_repr_def)
  have "items_pending (rb_iter rb) = map ((!) xs) [0 ..< length xs]"
    using assms slot by (auto simp: items_pending_def rb_iter_def rb_repr_def)
  then show "items_pending (rb_iter rb) = xs" by (simp add: map_nth)
qed

definition mut_items_pending :: "mut_items \<Rightarrow> uint list" where
  "mut_items_pending it = (if mi_nelts it = 0 then [] else remaining1 it @ remaining2 it)"

definition mut_items_ok :: "'a ring_buf \<Rightarrow> mut_items \<Rightarrow> bool" where
  "mut_items_ok rb it \<longleftrightarrow> (mi_nelts it = 0 \<or> mi_nelts it = length (remaining1 it) + length (remaining2 it)) \<and>
     (\<forall>j \<in> set (mut_items_pending it). \<exists>x. vec_get (elts rb) j = Some (Some x))"

interpretation rb_mut_items: fallible_iterator "mut_items_ok rb" mut_items_pending "mut_items_next rb" "mut_items_next_back rb"
  for rb :: "'a ring_buf"
proof
  fix it
  assume it: "mut_items_ok rb it"
  note defs = mut_items_ok_def mut_items_pending_def
  let ?r1 = "remaining1 it" and ?r2 = "remaining2 it" and ?n = "mi_nelts it - 1"
  show "\<exists>it'. mut_items_ok rb it' \<and> mut_items_pending it' = tl (mut_items_pending it) \<and>
      mut_items_next rb it = Some (if mut_items_pending it = [] then None else Some (hd (mut_items_pending it)), it')"
    using it by (intro exI [of _ "if mi_nelts it = 0 then it
        else if ?r1 = [] then it\<lparr>remaining2 := tl ?r2, mi_nelts := ?n\<rparr> else it\<lparr>remaining1 := tl ?r1, mi_nelts := ?n\<rparr>"],
      cases ?r1; cases ?r2) (auto simp: defs mut_items_next_def)
  show "\<exists>it'. mut_items_ok rb it' \<and> mut_items_pending it' = butlast (mut_items_pending it) \<and>
      mut_items_next_back rb it = Some (if mut_items_pending it = [] then None else Some (last (mut_items_pending it)), it')"
    using it by (intro exI [of _ "if mi_nelts it = 0 then it
        else if ?r2 = [] then it\<lparr>remaining1 := butlast ?r1, mi_nelts := ?n\<rparr>
        else it\<lparr>remaining2 := butlast ?r2, mi_nelts := ?n\<rparr>"],
      cases ?r1 rule: rev_cases; cases ?r2 rule: rev_cases) (auto simp: defs mut_items_next_back_def butlast_append)
qed

text \<open>The slots of the elements, in order.\<close>

lemma wrapped_range:
  assumes "l < len" "n \<le> len"
  shows "map (\<lambda>i. (l + i) mod len) [0 ..< n] =
    (if l + n < len then [l ..< l + n] else [l ..< len] @ [0 ..< l + n - len])"
  by (rule nth_equalityI) (use assms in \<open>auto simp: nth_append mod_if\<close>)

lemma rb_mut_iter_ok:
  assumes rb: "rb_repr rb xs"
  shows "\<exists>it. rb_mut_iter rb = Some it \<and> mut_items_ok rb it \<and>
    mut_items_pending it = map (rb_raw_index rb) [0 ..< length xs] \<and> mi_nelts it = length xs"
proof -
  let ?len = "length (elts rb)" and ?n = "length xs"
  have b: "lo rb < ?len" "?n \<le> ?len" "nelts rb = ?n" using rb by (auto simp: rb_repr_def)
  have "map (rb_raw_index rb) [0 ..< ?n] = map (\<lambda>i. (lo rb + i) mod ?len) [0 ..< ?n]"
    using b(2) rb_raw_index_mod [OF rb] by simp
  note slots = this [unfolded wrapped_range [OF b(1,2)]]
  have idx: "raw_index (lo rb) ?len 0 = lo rb" "raw_index (lo rb) ?len ?n = (lo rb + ?n) mod ?len"
    using rb_raw_index_mod [OF rb, of 0] rb_raw_index_mod [OF rb, of ?n] b by (simp_all add: rb_raw_index_def)
  have full: "\<exists>x. vec_get (elts rb) j = Some (Some x)" if j: "j \<in> set (map (rb_raw_index rb) [0 ..< ?n])" for j
  proof -
    obtain i where "i < ?n" "j = rb_raw_index rb i" using j by auto
    then show ?thesis using rb_get_ok [OF rb, of i] b by (auto simp: rb_get_def bind_eq_Some_conv)
  qed
  consider "xs = []" | "xs \<noteq> []" "lo rb + ?n < ?len" | "xs \<noteq> []" "?len \<le> lo rb + ?n" by linarith
  then show ?thesis
  proof cases
    case 1
    then have "rb_mut_iter rb = Some \<lparr>remaining1 = [lo rb ..< ?len], remaining2 = [0 ..< lo rb], mi_nelts = 0\<rparr>"
      using b idx by (simp add: rb_mut_iter_def Let_def)
    then show ?thesis using 1 by (simp add: mut_items_ok_def mut_items_pending_def)
  next
    case 2
    then show ?thesis using b idx slots full
      by (simp add: rb_mut_iter_def mut_items_ok_def mut_items_pending_def Let_def)
  next
    case 3
    then have "(lo rb + ?n) mod ?len = lo rb + ?n - ?len" "lo rb + ?n - ?len \<le> lo rb" using b by (simp_all add: mod_if)
    then show ?thesis using 3 b idx slots full
      by (simp add: rb_mut_iter_def mut_items_ok_def mut_items_pending_def Let_def)
  qed
qed

lemma rb_eq_ok:
  assumes "rb_repr rb xs" "rb_repr rb' ys"
  shows "rb_eq (=) rb rb' = Some (xs = ys)"
proof -
  have "length xs = length ys \<Longrightarrow> list_all (\<lambda>(x, y). x = y) (zip xs ys) \<longleftrightarrow> xs = ys"
    by (induction xs ys rule: list_induct2) auto
  moreover have "nelts rb = length xs" "nelts rb' = length ys" using assms by (simp_all add: rb_repr_def)
  ultimately show ?thesis
    using rb_items_iter.try_zip_all_ok [of "rb_iter rb" "rb_iter rb'" "(=)"] rb_iter_ok [OF assms(1)] rb_iter_ok [OF assms(2)]
    by (auto simp: rb_eq_def)
qed

lemma rb_swap_ok:
  assumes rb: "rb_repr rb xs" and ij: "i < length xs" "j < length xs"
  shows "\<exists>rb'. rb_swap rb i j = Some rb' \<and> rb_repr rb' (xs[i := xs ! j, j := xs ! i]) \<and>
    elts_cap rb' = elts_cap rb \<and> length (elts rb') = length (elts rb)"
proof -
  let ?len = "length (elts rb)" and ?r = "\<lambda>i. (lo rb + i) mod length (elts rb)"
  have b: "i < ?len" "j < ?len" "nelts rb = length xs" using rb ij by (auto simp: rb_repr_def)
  then have "0 < ?len" by linarith
  then have r: "?r i < ?len" "?r j < ?len" by simp_all
  let ?es = "(elts rb)[?r i := elts rb ! ?r j, ?r j := elts rb ! ?r i]"
  have "rotate (lo rb) ?es = (rotate (lo rb) (elts rb))[i := elts rb ! ?r j, j := elts rb ! ?r i]"
    using rotate_update [of j "(elts rb)[?r i := elts rb ! ?r j]" "lo rb"] rotate_update [of i "elts rb" "lo rb"] b by simp
  also have "\<dots> = map Some (xs[i := xs ! j, j := xs ! i]) @ replicate (?len - length xs) None"
    using rb rb_slot [OF rb b(1)] rb_slot [OF rb b(2)] ij by (simp add: rb_repr_def list_update_append map_update)
  finally have "rb_repr (rb\<lparr>elts := ?es\<rparr>) (xs[i := xs ! j, j := xs ! i])" using rb by (simp add: rb_repr_def)
  moreover have "rb_swap rb i j = Some (rb\<lparr>elts := ?es\<rparr>)"
    using ij b r rb_raw_index_mod [OF rb, of i] rb_raw_index_mod [OF rb, of j]
    by (simp add: rb_swap_def rb_len_def vec_swap_def)
  ultimately show ?thesis by simp
qed

section \<open>Properties\<close>

definition rb_step :: "uint \<Rightarrow> 'a deque_op \<Rightarrow> 'a ring_buf \<Rightarrow> ('a deque_result \<times> 'a ring_buf) option" where
  "rb_step size_of =
     deque_step (rb_push_front size_of) (rb_push_back size_of) rb_pop_front rb_pop_back rb_front rb_back rb_len rb_clear"

lemma rb_with_capacity_ok:
  assumes "max 2 (2 ^ k) * size_of \<le> uint_max" "0 < size_of"
  shows "\<exists>rb. rb_with_capacity size_of (2 ^ k) = Some rb \<and> rb_ok rb \<and> rb_abs rb = [] \<and>
    length (elts rb) = max 2 (2 ^ k)"
proof -
  define j where "j = max 1 k"
  have j: "max 2 (2 ^ k) = (2::nat) ^ j" by (cases k) (auto simp: max_def j_def)
  have "2 ^ j * 1 \<le> 2 ^ j * size_of" using assms(2) by (intro mult_left_mono) auto
  then have "(2::nat) ^ j \<le> uint_max" using assms(1) unfolding j by linarith
  then have "(2::nat) ^ j < 2 ^ 64" by (simp add: uint_max_def)
  then have "j \<le> 63" by (simp only: power_strict_increasing_iff)
  then have le: "(2::nat) ^ j \<le> 2 ^ 63" by (intro power_increasing) auto
  let ?rb = "\<lparr>nelts = 0, lo = 0, elts = replicate (2 ^ j) None, elts_cap = 2 ^ j\<rparr>"
  have "2 \<le> (2::nat) ^ j" using j by (metis max.cobounded1)
  then have "rb_repr ?rb []" "rb_tight ?rb" using le by (auto simp: rb_repr_def rb_tight_def)
  from rb_okI [OF this] show ?thesis using assms(1) j
    by (intro exI [of _ ?rb]) (simp add: rb_with_capacity_def MINIMUM_CAPACITY_def Let_def)
qed

text \<open>
  C29.  A ring buffer created with a capacity that is a power of two is a double-ended queue: whatever
  sequence of pushes, pops, looks at the ends, length queries and clearings is performed, as long as
  the memory for twice as many slots as there are operations can be addressed, nothing fails, every
  result is the one a list gives, and the buffer holds exactly the elements of the list, in order.
\<close>

theorem ring_buffer_refines:
  fixes ops :: "'a deque_op list"
  assumes "0 < size_of" "max 2 (2 ^ k) * size_of \<le> uint_max" "2 * length ops * size_of \<le> uint_max"
  shows "\<exists>rb rb'. rb_with_capacity size_of (2 ^ k) = Some rb \<and>
    run_ops (rb_step size_of) ops rb = Some (fst (list_run ops []), rb') \<and> rb_repr rb' (snd (list_run ops []))"
proof -
  obtain rb :: "'a ring_buf" where rb: "rb_with_capacity size_of (2 ^ k) = Some rb" "rb_ok rb" "rb_abs rb = []"
    "length (elts rb) = max 2 (2 ^ k)" using rb_with_capacity_ok [OF assms(2,1)] by blast
  have "length (elts rb) \<le> uint_max div size_of" "2 * (length (rb_abs rb) + length ops) \<le> uint_max div size_of"
    using rb assms by (simp_all add: less_eq_div_iff_mult_less_eq del: max.bounded_iff)
  from rb_deque.run_ops_ok [OF rb(2) this] rb show ?thesis
    by (auto simp: rb_step_def rb_ok_def)
qed

theorem ring_buffer_refines_witness:
  "\<exists>rb rb'. rb_with_capacity 8 (2 ^ 1) = Some rb \<and>
    run_ops (rb_step 8) [PushBack 1, PushFront 2, PushBack (3 :: nat), PopBack] rb =
      Some (fst (list_run [PushBack 1, PushFront 2, PushBack (3 :: nat), PopBack] []), rb') \<and>
    rb_repr rb' (snd (list_run [PushBack 1, PushFront 2, PushBack (3 :: nat), PopBack] []))"
  by (rule ring_buffer_refines) (simp_all add: uint_max_def)

text \<open>
  C30.  On a ring buffer that holds the elements \<open>xs\<close> wherever it starts, \<open>get\<close> and
  \<open>swap\<close> address the elements of the list and fail beyond its end, except that \<open>get\<close> of the
  number of slots wraps around to the first element; the iterators over references and over mutable
  references deliver the elements and their slots in order when they are taken from either end in any
  interleaving, and equality is equality of the lists.
\<close>

theorem ring_buffer_access:
  assumes rb: "rb_repr rb xs" "rb_repr rb' ys" and i: "i < 2 ^ 63"
  shows "rb_get rb i = (if i < length xs then Some (xs ! i)
      else if i = length (elts rb) \<and> xs \<noteq> [] then Some (hd xs) else None) \<and>
    (if i < length xs \<and> j < length xs
     then \<exists>rb1. rb_swap rb i j = Some rb1 \<and> rb_repr rb1 (xs[i := xs ! j, j := xs ! i])
     else rb_swap rb i j = None) \<and>
    try_drain items_next items_next_back bs (rb_iter rb) = Some (drain_list bs xs) \<and>
    items_size_hint (rb_iter rb) = (length xs, Some (length xs)) \<and>
    items_idx (rb_iter rb) i = Some (if i < length xs then Some (xs ! i) else None) \<and>
    (\<exists>it. rb_mut_iter rb = Some it \<and> mut_items_size_hint it = (length xs, Some (length xs)) \<and>
       try_drain (mut_items_next rb) (mut_items_next_back rb) bs it =
         Some (drain_list bs (map (rb_raw_index rb) [0 ..< length xs]))) \<and>
    rb_eq (=) rb rb' = Some (xs = ys) \<and> rb_ne (=) rb rb' = Some (xs \<noteq> ys)"
proof (intro conjI)
  note it = rb_iter_ok [OF rb(1)]
  have len: "nelts rb = length xs" "length xs < 2 ^ 64" "length xs \<le> length (elts rb)"
    using rb(1) by (auto simp: rb_repr_def)
  show "if i < length xs \<and> j < length xs
     then \<exists>rb1. rb_swap rb i j = Some rb1 \<and> rb_repr rb1 (xs[i := xs ! j, j := xs ! i])
     else rb_swap rb i j = None"
    using rb_swap_ok [OF rb(1), of i j] len by (auto simp: rb_swap_def rb_len_def)
  show "try_drain items_next items_next_back bs (rb_iter rb) = Some (drain_list bs xs)"
    using rb_items_iter.try_drain_ok [OF it(1)] it(2) by simp
  show "items_size_hint (rb_iter rb) = (length xs, Some (length xs))"
    using len by (simp add: items_size_hint_def rb_iter_def wsub_exact Let_def)
  show "items_idx (rb_iter rb) i = Some (if i < length xs then Some (xs ! i) else None)"
    using len rb_get_ok [OF rb(1), of i]
    by (auto simp: items_idx_def items_indexable_def rb_iter_def wsub_exact wadd_exact rb_get_def
        rb_raw_index_def bind_eq_Some_conv)
  show "\<exists>it. rb_mut_iter rb = Some it \<and> mut_items_size_hint it = (length xs, Some (length xs)) \<and>
       try_drain (mut_items_next rb) (mut_items_next_back rb) bs it =
         Some (drain_list bs (map (rb_raw_index rb) [0 ..< length xs]))"
  proof -
    from rb_mut_iter_ok [OF rb(1)] obtain it where it: "rb_mut_iter rb = Some it" "mut_items_ok rb it"
      "mut_items_pending it = map (rb_raw_index rb) [0 ..< length xs]" "mi_nelts it = length xs" by blast
    with rb_mut_items.try_drain_ok [OF it(2), of bs] show ?thesis by (simp add: mut_items_size_hint_def)
  qed
  show "rb_eq (=) rb rb' = Some (xs = ys)" using rb by (rule rb_eq_ok)
  then show "rb_ne (=) rb rb' = Some (xs \<noteq> ys)" by (simp add: rb_ne_def)
qed (rule rb_get_any [OF rb(1) i])

theorem ring_buffer_access_witness:
  "try_drain items_next items_next_back [True, False, True, True]
     (rb_iter \<lparr>nelts = 3, lo = 3, elts = [Some 6, Some (7 :: nat), None, Some 5], elts_cap = 4\<rparr>) =
   Some (drain_list [True, False, True, True] [5, 6, 7])"
  by (rule ring_buffer_access [THEN conjunct2, THEN conjunct2, THEN conjunct1,
      of _ _ "\<lparr>nelts = 0, lo = 0, elts = [None], elts_cap = 1\<rparr>" "[]" 0])
    (simp_all add: rb_repr_def rotate_drop_take)

lemmas rb_run_defs = rb_with_capacity_def MINIMUM_CAPACITY_def uint_max_def rb_step_def deque_step_def
  rb_push_back_def rb_pop_front_def rb_raw_index_def raw_index_def wsub_def wadd_def wmul_def vec_get_def vec_set_def
  grow_def reserve_cap_def reserve_exact_cap_def next_power_of_two_def smear_loop.simps vec_swap_def rb_get_def
  rb_len_def items_next_def rb_iter_def Let_def vec_numeral


end
