(* ===== verification/RawMem.thy ===== *)
theory RawMem
  imports Prelude
begin

text \<open>
  Raw memory as \<open>libstd/ptr.rs\<close> and the intrinsics give it: an allocation is a list of cells
  that hold a value or are uninitialised, a pointer is an offset into it.  Reading outside of an
  allocation or from an uninitialised cell, writing outside of it, and copying between ranges that
  must not overlap but do are undefined behaviour, which is \<^const>\<open>None\<close>.
\<close>

type_synonym 'a mem = "'a option list"

definition mem_read :: "'a mem \<Rightarrow> uint \<Rightarrow> 'a option" where
  "mem_read m p = (if p < length m then m ! p else None)"

definition mem_write :: "'a mem \<Rightarrow> uint \<Rightarrow> 'a \<Rightarrow> 'a mem option" where
  "mem_write m p x = (if p < length m then Some (m[p := Some x]) else None)"

text \<open>Replacing a range of cells.\<close>

definition overwrite :: "uint \<Rightarrow> 'a list \<Rightarrow> 'a list \<Rightarrow> 'a list" where
  "overwrite p ys xs = take p xs @ ys @ drop (p + length ys) xs"

text \<open>\<open>ptr::copy_memory\<close>: the ranges may overlap.\<close>

definition copy_memory :: "'a mem \<Rightarrow> uint \<Rightarrow> uint \<Rightarrow> uint \<Rightarrow> 'a mem option" where
  "copy_memory m dst src count =
     (if dst + count \<le> length m \<and> src + count \<le> length m
      then Some (overwrite dst (take count (drop src m)) m) else None)"

text \<open>\<open>ptr::copy_nonoverlapping_memory\<close> within one allocation, and from another one.\<close>

definition copy_nonoverlapping :: "'a mem \<Rightarrow> uint \<Rightarrow> uint \<Rightarrow> uint \<Rightarrow> 'a mem option" where
  "copy_nonoverlapping m dst src count =
     (if dst + count \<le> src \<or> src + count \<le> dst then copy_memory m dst src count else None)"

definition copy_from :: "'a mem \<Rightarrow> uint \<Rightarrow> 'a mem \<Rightarrow> uint \<Rightarrow> uint \<Rightarrow> 'a mem option" where
  "copy_from m dst m' src count =
     (if dst + count \<le> length m \<and> src + count \<le> length m'
      then Some (overwrite dst (take count (drop src m')) m) else None)"

lemma length_overwrite [simp]: "p + length ys \<le> length xs \<Longrightarrow> length (overwrite p ys xs) = length xs"
  by (simp add: overwrite_def)

lemma nth_overwrite:
  "p + length ys \<le> length xs \<Longrightarrow> i < length xs \<Longrightarrow>
     overwrite p ys xs ! i = (if p \<le> i \<and> i < p + length ys then ys ! (i - p) else xs ! i)"
  by (auto simp: overwrite_def nth_append min_def)

lemma overwrite_append:
  "overwrite (length xs) ys (xs @ zs @ ws) = xs @ ys @ ws" if "length ys = length zs"
  using that by (simp add: overwrite_def)

lemma overwrite_one: "p < length xs \<Longrightarrow> overwrite p [x] xs = xs[p := x]"
  by (simp add: overwrite_def upd_conv_take_nth_drop)

lemma overwrite_left: "p + length ys \<le> length xs \<Longrightarrow> overwrite p ys (xs @ zs) = overwrite p ys xs @ zs"
  by (simp add: overwrite_def)

lemma overwrite_right: "overwrite (length xs + p) ys (xs @ zs) = xs @ overwrite p ys zs"
  by (simp add: overwrite_def)

lemma mem_read_Some [simp]: "p < length xs \<Longrightarrow> mem_read (map Some xs) p = Some (xs ! p)"
  by (simp add: mem_read_def)

lemma overwrite_Nil [simp]: "overwrite p [] xs = xs"
  by (simp add: overwrite_def)

lemma overwrite_overwrite:
  "p + length ys + length zs \<le> length xs \<Longrightarrow> overwrite (p + length ys) zs (overwrite p ys xs) = overwrite p (ys @ zs) xs"
  by (simp add: overwrite_def ac_simps)

lemma take_drop_overwrite:
  assumes "p + length ys \<le> length xs" "q + n \<le> p \<or> p + length ys \<le> q" "q + n \<le> length xs"
  shows "take n (drop q (overwrite p ys xs)) = take n (drop q xs)"
  by (rule nth_equalityI) (use assms in \<open>auto simp: nth_overwrite\<close>)

lemma take_drop_overwrite_same:
  "p + length ys \<le> length xs \<Longrightarrow> take (length ys) (drop p (overwrite p ys xs)) = ys"
  by (simp add: overwrite_def)

lemma mem_read_slice: "take (length xs) (drop p m) = map Some xs \<Longrightarrow> i < length xs \<Longrightarrow> mem_read m (p + i) = Some (xs ! i)"
proof -
  assume eq: "take (length xs) (drop p m) = map Some xs" and i: "i < length xs"
  then have "length (take (length xs) (drop p m)) = length xs" by simp
  then have "p + i < length m" using i by auto
  moreover have "m ! (p + i) = take (length xs) (drop p m) ! i" using i calculation by simp
  ultimately show ?thesis using i by (simp add: mem_read_def eq)
qed

lemma copy_one:
  assumes "q < length m'" "p = length xs"
  shows "copy_from (xs @ d # ys) p m' q 1 = Some (xs @ m' ! q # ys)"
proof -
  have "take 1 (drop q m') = [m' ! q]" using assms(1) by (simp add: take_Suc_conv_app_nth)
  then show ?thesis using assms overwrite_append [of "[m' ! q]" "[d]" xs ys] by (simp add: copy_from_def)
qed

section \<open>Loops over ranges\<close>

text \<open>A \<open>for\<close> loop over a range, and one over \<open>range_step\<close>, which stops at an overflow.\<close>

fun for_range :: "(uint \<Rightarrow> 's \<Rightarrow> 's option) \<Rightarrow> uint list \<Rightarrow> 's \<Rightarrow> 's option" where
  "for_range body [] s = Some s"
| "for_range body (i # is) s = do { s' \<leftarrow> body i s; for_range body is s' }"

partial_function (option) for_range_step ::
  "(uint \<Rightarrow> 's \<Rightarrow> 's option) \<Rightarrow> uint \<Rightarrow> uint \<Rightarrow> uint \<Rightarrow> 's \<Rightarrow> 's option" where
  "for_range_step body start stop step s =
     (if start < stop
      then do { s' \<leftarrow> body start s;
                for_range_step body (if start + step \<le> uint_max then start + step else stop) stop step s' }
      else Some s)"

lemma for_range_append: "for_range body (is @ js) s = do { s' \<leftarrow> for_range body is s; for_range body js s' }"
  by (induction "is" arbitrary: s) (auto split: Option.bind_splits)

end
