(* ===== verification/SliceSort.thy ===== *)
theory SliceSort
  imports RawMem "HOL-Library.Multiset"
begin

text \<open>
  Sorting of slices, \<open>libstd/slice.rs\<close>: \<open>insertion_sort\<close> and \<open>merge_sort\<close> over raw memory.
  The comparison is a pure function; the working space of \<open>merge_sort\<close> is one allocation whose
  halves \<open>buf_dat\<close> and \<open>buf_tmp\<close> are given by their offsets.
\<close>

section \<open>The code\<close>

text \<open>\<open>while j > start && compare(x, buf[j - 1]) == Less { j -= 1 }\<close>, with \<open>buf\<close> at offset \<open>b\<close>.\<close>

fun insert_pos :: "('a \<Rightarrow> 'a \<Rightarrow> ordering) \<Rightarrow> 'a \<Rightarrow> 'a mem \<Rightarrow> uint \<Rightarrow> uint \<Rightarrow> uint \<Rightarrow> uint option" where
  "insert_pos compare x m b start j =
     (if j > start
      then do { y \<leftarrow> mem_read m (b + (j - 1));
                if compare x y = Less then insert_pos compare x m b start (j - 1) else Some j }
      else Some j)"

declare insert_pos.simps [simp del]

definition insertion_step :: "('a \<Rightarrow> 'a \<Rightarrow> ordering) \<Rightarrow> uint \<Rightarrow> 'a mem \<Rightarrow> 'a mem option" where
  "insertion_step compare i v =
     do { x \<leftarrow> mem_read v i;
          j \<leftarrow> insert_pos compare x v 0 0 i;
          if i \<noteq> j
          then do { v' \<leftarrow> copy_memory v (j + 1) j (i - j); mem_write v' j x }
          else Some v }"

definition insertion_sort :: "('a \<Rightarrow> 'a \<Rightarrow> ordering) \<Rightarrow> 'a mem \<Rightarrow> 'a mem option" where
  "insertion_sort compare v = for_range (insertion_step compare) [1 ..< length v] v"

definition BASE_INSERTION :: uint where
  "BASE_INSERTION = 32"

definition LARGE_INSERTION :: uint where
  "LARGE_INSERTION = 16"

text \<open>\<open>slice::with_capacity\<close>; the header of a vector takes 16 bytes.\<close>

definition slice_with_capacity :: "uint \<Rightarrow> uint \<Rightarrow> 'a mem option" where
  "slice_with_capacity size_of capacity =
     (let s = max 1 size_of; alloc = wmul capacity s; size = wadd alloc 16
      in if alloc div s \<noteq> capacity \<or> size < alloc then None else Some (replicate capacity None))"

definition run_step :: "('a \<Rightarrow> 'a \<Rightarrow> ordering) \<Rightarrow> 'a mem \<Rightarrow> uint \<Rightarrow> uint \<Rightarrow> uint \<Rightarrow> 'a mem \<Rightarrow> 'a mem option" where
  "run_step compare v buf_dat start i ws =
     do { x \<leftarrow> mem_read v i;
          j \<leftarrow> insert_pos compare x ws buf_dat start i;
          ws' \<leftarrow> copy_memory ws (buf_dat + (j + 1)) (buf_dat + j) (i - j);
          copy_from ws' (buf_dat + j) v i 1 }"

definition sort_runs :: "('a \<Rightarrow> 'a \<Rightarrow> ordering) \<Rightarrow> 'a mem \<Rightarrow> uint \<Rightarrow> uint \<Rightarrow> uint \<Rightarrow> 'a mem \<Rightarrow> 'a mem option" where
  "sort_runs compare v buf_dat insertion start ws =
     for_range (run_step compare v buf_dat start) [start ..< min (start + insertion) (length v)] ws"

text \<open>The loop that merges two runs; \<open>out\<close>, \<open>left\<close> and \<open>right\<close> are pointers into the working space.\<close>

function merge_loop ::
  "('a \<Rightarrow> 'a \<Rightarrow> ordering) \<Rightarrow> uint \<Rightarrow> uint \<Rightarrow> uint \<Rightarrow> uint \<Rightarrow> uint \<Rightarrow> uint \<Rightarrow> 'a mem \<Rightarrow> 'a mem option" where
  "merge_loop compare right_start right_end out_end left right out ws =
     (if out < out_end
      then if left = right_start then copy_nonoverlapping ws out right (wsub right_end right)
      else if right = right_end then copy_nonoverlapping ws out left (wsub right_start left)
      else do { x \<leftarrow> mem_read ws left;
                y \<leftarrow> mem_read ws right;
                if compare x y = Greater
                then do { ws' \<leftarrow> copy_nonoverlapping ws out right 1;
                          merge_loop compare right_start right_end out_end left (right + 1) (out + 1) ws' }
                else do { ws' \<leftarrow> copy_nonoverlapping ws out left 1;
                          merge_loop compare right_start right_end out_end (left + 1) right (out + 1) ws' } }
      else Some ws)"
  by pat_completeness auto
termination by (relation "measure (\<lambda>(_, _, _, out_end, _, _, out, _). out_end - out)") auto

declare merge_loop.simps [simp del]

definition merge_runs ::
  "('a \<Rightarrow> 'a \<Rightarrow> ordering) \<Rightarrow> uint \<Rightarrow> uint \<Rightarrow> uint \<Rightarrow> uint \<Rightarrow> uint \<Rightarrow> 'a mem \<Rightarrow> 'a mem option" where
  "merge_runs compare len buf_dat buf_tmp width start ws =
     (let right_start = buf_dat + min (start + width) len;
          right_end_idx = min (start + 2 * width) len;
          right_end = buf_dat + right_end_idx
      in merge_loop compare right_start right_end (buf_tmp + right_end_idx)
           (buf_dat + start) right_start (buf_tmp + start) ws)"

text \<open>The passes; the result also says which half holds the data.\<close>

partial_function (option) merge_passes ::
  "('a \<Rightarrow> 'a \<Rightarrow> ordering) \<Rightarrow> uint \<Rightarrow> uint \<Rightarrow> uint \<Rightarrow> uint \<Rightarrow> 'a mem \<Rightarrow> (uint \<times> 'a mem) option" where
  "merge_passes compare len buf_dat buf_tmp width ws =
     (if width < len
      then do { ws' \<leftarrow> for_range_step (merge_runs compare len buf_dat buf_tmp width) 0 len (2 * width) ws;
                merge_passes compare len buf_tmp buf_dat (wmul width 2) ws' }
      else Some (buf_dat, ws))"

definition merge_sort :: "uint \<Rightarrow> ('a \<Rightarrow> 'a \<Rightarrow> ordering) \<Rightarrow> 'a mem \<Rightarrow> 'a mem option" where
  "merge_sort size_of compare v =
     (let insertion = (if size_of \<le> 16 then BASE_INSERTION else LARGE_INSERTION); len = length v
      in if len \<le> insertion then insertion_sort compare v
         else do { ws \<leftarrow> slice_with_capacity size_of (wmul 2 len);
                   ws1 \<leftarrow> for_range_step (sort_runs compare v 0 insertion) 0 len insertion ws;
                   (buf_dat, ws2) \<leftarrow> merge_passes compare len 0 len insertion ws1;
                   copy_from v 0 ws2 buf_dat len })"

text \<open>The public functions, on slices.\<close>

definition slice_sort_by :: "uint \<Rightarrow> 'a list \<Rightarrow> ('a \<Rightarrow> 'a \<Rightarrow> ordering) \<Rightarrow> 'a list option" where
  "slice_sort_by size_of v compare =
     do { v' \<leftarrow> merge_sort size_of compare (map Some v); those v' }"

definition slice_sort :: "uint \<Rightarrow> 'a::linorder list \<Rightarrow> 'a list option" where
  "slice_sort size_of v = slice_sort_by size_of v cmp"

text \<open>Binary search.\<close>

function bsearch_loop :: "'a list \<Rightarrow> ('a \<Rightarrow> ordering) \<Rightarrow> uint \<Rightarrow> uint \<Rightarrow> uint option option" where
  "bsearch_loop v f base lim =
     (if lim \<noteq> 0
      then let ix = base + lim div 2
           in do { x \<leftarrow> vec_get v ix;
                   case f x of
                     Equal \<Rightarrow> Some (Some ix)
                   | Less \<Rightarrow> bsearch_loop v f (ix + 1) ((lim - 1) div 2)
                   | Greater \<Rightarrow> bsearch_loop v f base (lim div 2) }
      else Some None)"
  by pat_completeness auto
termination by (relation "measure (\<lambda>(_, _, _, lim). lim)") auto

declare bsearch_loop.simps [simp del]

definition bsearch :: "'a list \<Rightarrow> ('a \<Rightarrow> ordering) \<Rightarrow> uint option option" where
  "bsearch v f = bsearch_loop v f 0 (length v)"

definition bsearch_elem :: "'a::linorder list \<Rightarrow> 'a \<Rightarrow> uint option option" where
  "bsearch_elem v x = bsearch v (\<lambda>p. cmp p x)"

section \<open>Stable sorting of lists\<close>

fun merge_by :: "('a \<Rightarrow> 'a \<Rightarrow> ordering) \<Rightarrow> 'a list \<Rightarrow> 'a list \<Rightarrow> 'a list" where
  "merge_by compare [] ys = ys"
| "merge_by compare xs [] = xs"
| "merge_by compare (x # xs) (y # ys) =
     (if compare x y = Greater then y # merge_by compare (x # xs) ys else x # merge_by compare xs (y # ys))"

text \<open>The list as sorted runs of \<open>w\<close> elements.\<close>

function runs :: "('a \<Rightarrow> 'a \<Rightarrow> ordering) \<Rightarrow> nat \<Rightarrow> 'a list \<Rightarrow> 'a list" where
  "runs compare w xs = (if w = 0 \<or> xs = [] then [] else sort_by compare (take w xs) @ runs compare w (drop w xs))"
  by pat_completeness auto
termination by (relation "measure (\<lambda>(_, _, xs). length xs)") auto

declare runs.simps [simp del]

text \<open>What \<open>sort_by\<close> relies on: the comparison is a total preorder.\<close>

locale total_compare =
  fixes compare :: "'a \<Rightarrow> 'a \<Rightarrow> ordering"
  assumes swapped: "compare x y = Greater \<longleftrightarrow> compare y x = Less"
    and trans: "compare x y \<noteq> Greater \<Longrightarrow> compare y z \<noteq> Greater \<Longrightarrow> compare x z \<noteq> Greater"
begin

lemma sorted_insert_by: "sorted_wrt (\<lambda>x y. compare x y \<noteq> Greater) xs \<Longrightarrow>
    sorted_wrt (\<lambda>x y. compare x y \<noteq> Greater) (insert_by compare x xs)"
proof (induction xs)
  case (Cons y ys)
  have "compare y x \<noteq> Greater" if "compare x y = Greater" using that swapped by force
  with Cons show ?case using trans by auto
qed simp

lemma sorted_sort_by: "sorted_wrt (\<lambda>x y. compare x y \<noteq> Greater) (sort_by compare xs)"
  by (induction xs) (simp_all add: sort_by_def sorted_insert_by)

lemma filter_insert_by: "filter (\<lambda>y. compare x y = Equal) (insert_by compare a ys) =
    filter (\<lambda>y. compare x y = Equal) (a # ys)"
proof (induction ys)
  case (Cons y ys)
  have "compare a y \<noteq> Greater" if "compare x a = Equal" "compare x y = Equal"
    using trans [of a x y] that by (simp add: swapped [of a x])
  with Cons show ?case by auto
qed simp

lemma filter_sort_by: "filter (\<lambda>y. compare x y = Equal) (sort_by compare xs) = filter (\<lambda>y. compare x y = Equal) xs"
  by (induction xs) (simp_all add: sort_by_def filter_insert_by)

lemma merge_singleton: "merge_by compare [a] ys = insert_by compare a ys"
  by (induction ys) auto

lemma insert_by_merge: "insert_by compare a (merge_by compare xs ys) = merge_by compare (insert_by compare a xs) ys"
proof (induction xs arbitrary: ys)
  case Nil
  show ?case by (simp add: merge_singleton)
next
  case (Cons x xs)
  note outer = Cons.IH
  show ?case
  proof (induction ys)
    case Nil
    then show ?case by simp
  next
    case (Cons y ys)
    have "compare y x \<noteq> Greater" if "compare x y = Greater" using that by (simp add: swapped)
    then have *: "compare a x = Greater \<Longrightarrow> compare x y = Greater \<Longrightarrow> compare a y = Greater"
      "compare a x \<noteq> Greater \<Longrightarrow> compare x y \<noteq> Greater \<Longrightarrow> compare a y \<noteq> Greater"
      using trans [of a y x] trans [of a x y] by blast+
    show ?case
      using Cons.IH outer [of "y # ys"] * by (cases "compare a x = Greater"; cases "compare x y = Greater") auto
  qed
qed

lemma sort_by_append: "sort_by compare (xs @ ys) = merge_by compare (sort_by compare xs) (sort_by compare ys)"
  by (induction xs) (simp_all add: sort_by_def insert_by_merge)

text \<open>Inserting from the right end.\<close>

lemma sort_by_snoc:
  assumes "p \<le> length ys" "\<forall>k. p \<le> k \<and> k < length ys \<longrightarrow> compare x (ys ! k) = Less"
    "0 < p \<longrightarrow> compare x (ys ! (p - 1)) \<noteq> Less" "ys = sort_by compare xs"
  shows "take p ys @ x # drop p ys = sort_by compare (xs @ [x])"
proof -
  have sorted: "sorted_wrt (\<lambda>x y. compare x y \<noteq> Greater) ys" unfolding assms(4) by (rule sorted_sort_by)
  have "compare y x \<noteq> Greater" if y: "y \<in> set (take p ys)" for y
  proof -
    obtain k where k: "k < p" "y = ys ! k" using in_takeD [OF y] by blast
    then have "k < p - 1 \<and> p - 1 < length ys \<or> k = p - 1" using assms(1) by linarith
    then have "compare y (ys ! (p - 1)) \<noteq> Greater \<or> k = p - 1"
      using k sorted_wrt_nth_less [OF sorted, of k "p - 1"] by blast
    moreover have "compare (ys ! (p - 1)) x \<noteq> Greater" using assms(3) k(1) by (simp add: swapped)
    ultimately show ?thesis using trans [of y "ys ! (p - 1)" x] k(2) by metis
  qed
  moreover have "compare y x = Greater" if y: "y \<in> set (drop p ys)" for y
  proof -
    obtain k where "p \<le> k" "k < length ys" "y = ys ! k" using in_dropD [OF y] by blast
    then show ?thesis using assms(2) by (simp add: swapped)
  qed
  moreover have "merge_by compare (as @ bs) [x] = as @ x # bs"
    if "\<forall>y \<in> set as. compare y x \<noteq> Greater" "\<forall>y \<in> set bs. compare y x = Greater" for as bs
    using that by (induction as) (cases bs; simp)+
  ultimately have "merge_by compare (take p ys @ drop p ys) [x] = take p ys @ x # drop p ys" by blast
  then show ?thesis unfolding sort_by_append using assms(4) by (simp add: sort_by_def)
qed

end

lemma length_insert_by [simp]: "length (insert_by compare x xs) = Suc (length xs)"
  by (induction xs) auto

lemma length_sort_by [simp]: "length (sort_by compare xs) = length xs"
  by (induction xs) (simp_all add: sort_by_def)

lemma mset_insert_by [simp]: "mset (insert_by compare x xs) = add_mset x (mset xs)"
  by (induction xs) auto

lemma mset_sort_by [simp]: "mset (sort_by compare xs) = mset xs"
  by (induction xs) (simp_all add: sort_by_def)

section \<open>Inserting into a run\<close>

lemma insert_pos_ok:
  assumes "\<forall>k < length ys. mem_read m (b + start + k) = Some (ys ! k)" "n \<le> length ys"
  shows "\<exists>p \<le> n. insert_pos compare x m b start (start + n) = Some (start + p) \<and>
    (\<forall>k. p \<le> k \<and> k < n \<longrightarrow> compare x (ys ! k) = Less) \<and> (0 < p \<longrightarrow> compare x (ys ! (p - 1)) \<noteq> Less)"
  using assms(2)
proof (induction n)
  case 0
  then show ?case by (simp add: insert_pos.simps)
next
  case (Suc n)
  have rd: "mem_read m (b + (start + n)) = Some (ys ! n)" using assms(1) Suc.prems by (simp add: add.assoc)
  show ?case
  proof (cases "compare x (ys ! n) = Less")
    case True
    with Suc obtain p where p: "p \<le> n" "insert_pos compare x m b start (start + n) = Some (start + p)"
      "\<forall>k. p \<le> k \<and> k < n \<longrightarrow> compare x (ys ! k) = Less" "0 < p \<longrightarrow> compare x (ys ! (p - 1)) \<noteq> Less" by auto
    have "\<forall>k. p \<le> k \<and> k < Suc n \<longrightarrow> compare x (ys ! k) = Less" using p(3) True by (auto simp: less_Suc_eq)
    with p rd True show ?thesis
      by (intro exI [of _ p]) (simp add: insert_pos.simps [of compare x m b start "Suc (start + n)"])
  next
    case False
    with rd show ?thesis
      by (intro exI [of _ "Suc n"]) (auto simp: insert_pos.simps [of compare x m b start "Suc (start + n)"])
  qed
qed

text \<open>Shifting a tail by one cell and writing the freed cell.\<close>

lemma shift_ok:
  assumes "p \<le> length ys"
  shows "copy_memory (pre @ ys @ c # post) (length pre + p + 1) (length pre + p) (length ys - p) =
      Some (pre @ take p ys @ hd (drop p ys @ [c]) # drop p ys @ post)"
proof -
  have "copy_memory (pre @ ys @ c # post) (length pre + p + 1) (length pre + p) (length ys - p) =
    Some (overwrite (length pre + (p + 1)) (drop p ys) (pre @ ys @ c # post))"
    using assms by (simp add: copy_memory_def add.assoc)
  also have "overwrite (length pre + (p + 1)) (drop p ys) (pre @ ys @ c # post) =
    pre @ take p ys @ hd (drop p ys @ [c]) # drop p ys @ post"
    using assms by (cases "p = length ys") (simp_all add: overwrite_right, simp_all add: overwrite_def take_Suc_conv_app_nth hd_drop_conv_nth)
  finally show ?thesis .
qed

context total_compare
begin

lemma insertion_step_ok:
  assumes "i < length xs"
  shows "insertion_step compare i (map Some (sort_by compare (take i xs) @ drop i xs)) =
    Some (map Some (sort_by compare (take (Suc i) xs) @ drop (Suc i) xs))"
proof -
  let ?ys = "sort_by compare (take i xs)" and ?x = "xs ! i" and ?v = "map Some (sort_by compare (take i xs) @ drop i xs)"
  have v: "?v = [] @ map Some ?ys @ Some ?x # map Some (drop (Suc i) xs)"
    using assms by (simp add: Cons_nth_drop_Suc flip: map_append list.simps(9))
  have len: "length ?ys = i" using assms by simp
  have "\<forall>k < length ?ys. mem_read ?v (0 + 0 + k) = Some (?ys ! k)"
    using assms by (auto simp: mem_read_def nth_append)
  from insert_pos_ok [OF this, of i compare ?x] len assms
  obtain p where p: "p \<le> i" "insert_pos compare ?x ?v 0 0 i = Some p"
    "\<forall>k. p \<le> k \<and> k < i \<longrightarrow> compare ?x (?ys ! k) = Less" "0 < p \<longrightarrow> compare ?x (?ys ! (p - 1)) \<noteq> Less" by auto
  have sorted: "take p ?ys @ ?x # drop p ?ys = sort_by compare (take (Suc i) xs)"
    using sort_by_snoc [of p ?ys ?x "take i xs"] p len assms by (simp add: take_Suc_conv_app_nth)
  have rd: "mem_read ?v i = Some ?x" using assms len by (simp add: v mem_read_def nth_append)
  show ?thesis
  proof (cases "i = p")
    case True
    then show ?thesis using rd p(2) len Cons_nth_drop_Suc [OF assms] unfolding sorted [symmetric]
      by (simp add: insertion_step_def flip: list.map(2))
  next
    case False
    have "copy_memory ?v (p + 1) p (i - p) =
      Some (map Some (take p ?ys) @ hd (drop p (map Some ?ys) @ [Some ?x]) # map Some (drop p ?ys @ drop (Suc i) xs))"
      unfolding v using shift_ok [of p "map Some ?ys" "[]" "Some ?x"] p(1) len
      by (simp add: take_map drop_map)
    then show ?thesis using False rd p(1,2) len unfolding sorted [symmetric]
      by (simp add: insertion_step_def mem_write_def list_update_append)
  qed
qed

lemma insertion_sort_ok: "insertion_sort compare (map Some xs) = Some (map Some (sort_by compare xs))"
proof -
  have "for_range (insertion_step compare) [1 ..< Suc n] (map Some xs) =
      Some (map Some (sort_by compare (take (Suc n) xs) @ drop (Suc n) xs))" if "Suc n \<le> length xs" for n
    using that
  proof (induction n)
    case 0
    then show ?case by (cases xs) (simp_all add: sort_by_def)
  next
    case (Suc n)
    then show ?case using insertion_step_ok [of "Suc n" xs]
      by (simp add: for_range_append del: upt_Suc, simp add: for_range_append)
  qed
  from this [of "length xs - 1"] show ?thesis by (cases xs) (simp_all add: insertion_sort_def sort_by_def)
qed

text \<open>The runs of step 1.\<close>

lemma run_step_ok:
  assumes "length pre = b + start" "start + k < length xs"
  shows "run_step compare (map Some xs) b start (start + k)
      (pre @ map Some (sort_by compare (take k (drop start xs))) @ c # post) =
    Some (pre @ map Some (sort_by compare (take (Suc k) (drop start xs))) @ post)"
proof -
  let ?ys = "sort_by compare (take k (drop start xs))" and ?x = "xs ! (start + k)"
  let ?m = "pre @ map Some (sort_by compare (take k (drop start xs))) @ c # post"
  have len: "length ?ys = k" using assms by simp
  have "\<forall>j < length ?ys. mem_read ?m (b + start + j) = Some (?ys ! j)"
    using len assms(1) by (simp add: mem_read_def nth_append flip: assms(1))
  from insert_pos_ok [OF this, of k compare ?x] len assms
  obtain p where p: "p \<le> k" "insert_pos compare ?x ?m b start (start + k) = Some (start + p)"
    "\<forall>j. p \<le> j \<and> j < k \<longrightarrow> compare ?x (?ys ! j) = Less" "0 < p \<longrightarrow> compare ?x (?ys ! (p - 1)) \<noteq> Less" by auto
  have sorted: "take p ?ys @ ?x # drop p ?ys = sort_by compare (take (Suc k) (drop start xs))"
    using sort_by_snoc [of p ?ys ?x "take k (drop start xs)"] p len assms by (simp add: take_Suc_conv_app_nth)
  have shift: "copy_memory ?m (b + (start + p + 1)) (b + (start + p)) (start + k - (start + p)) =
      Some (pre @ take p (map Some ?ys) @ hd (drop p (map Some ?ys) @ [c]) # drop p (map Some ?ys) @ post)"
    using shift_ok [of p "map Some ?ys" pre c post] p(1) len assms(1) by (simp add: add.assoc)
  have "copy_from (pre @ take p (map Some ?ys) @ d # drop p (map Some ?ys) @ post) (b + (start + p)) (map Some xs) (start + k) 1 =
      Some (pre @ map Some (take p ?ys @ ?x # drop p ?ys) @ post)" for d
    using copy_one [of "start + k" "map Some xs" "b + (start + p)" "pre @ take p (map Some ?ys)" d "drop p (map Some ?ys) @ post"]
      p(1) len assms by (simp add: take_map drop_map min.absorb2)
  with p(2) shift assms(2) show ?thesis by (simp add: run_step_def flip: sorted)
qed

lemma run_steps_ok:
  assumes "length pre = b + start" "start + k \<le> length xs" "k \<le> length cells"
  shows "for_range (run_step compare (map Some xs) b start) [start ..< start + k] (pre @ cells @ post) =
    Some (pre @ map Some (sort_by compare (take k (drop start xs))) @ drop k cells @ post)"
  using assms(2,3)
proof (induction k)
  case 0
  then show ?case by (simp add: sort_by_def)
next
  case (Suc k)
  then have "drop k cells = cells ! k # drop (Suc k) cells" by (simp add: Cons_nth_drop_Suc)
  with Suc run_step_ok [OF assms(1), of k xs "cells ! k" "drop (Suc k) cells @ post"] show ?case
    by (simp add: for_range_append)
qed

lemma runs_drop: "runs compare w (drop (j * w) xs) = drop (j * w) (runs compare w xs)"
proof (induction j arbitrary: xs)
  case (Suc j)
  show ?case
  proof (cases "w = 0 \<or> xs = []")
    case False
    then have "drop (Suc j * w) (runs compare w xs) = drop (Suc j * w - length (take w xs)) (runs compare w (drop w xs))"
      by (simp add: runs.simps [of compare w xs])
    also have "\<dots> = drop (j * w) (runs compare w (drop w xs))"
      by (cases "length xs < w") (simp_all add: runs.simps [of compare w "[]"])
    finally show ?thesis using Suc.IH [of "drop w xs"] by (simp add: add.commute)
  qed (auto simp: runs.simps [of compare w "[]"] runs.simps [of compare 0])
qed simp

lemma length_runs [simp]: "0 < w \<Longrightarrow> length (runs compare w xs) = length xs"
proof (induction "length xs" arbitrary: xs rule: less_induct)
  case less
  show ?case
  proof (cases "xs = []")
    case False
    with less show ?thesis by (subst runs.simps) simp
  qed (simp add: runs.simps)
qed

lemma runs_all: "0 < w \<Longrightarrow> length xs \<le> w \<Longrightarrow> runs compare w xs = sort_by compare xs"
  by (cases "xs = []") (simp_all add: runs.simps [of compare w xs] runs.simps [of compare w "[]"] sort_by_def)

lemma sort_runs_ok:
  assumes "0 < w" "length xs + w \<le> uint_max" "length pre = b + start" "length cells = length xs - start"
  shows "for_range_step (sort_runs compare (map Some xs) b w) start (length xs) w (pre @ cells @ post) =
    Some (pre @ map Some (runs compare w (drop start xs)) @ post)"
  using assms(3,4)
proof (induction "length xs - start" arbitrary: start pre cells rule: less_induct)
  case less
  show ?case
  proof (cases "start < length xs")
    case False
    with less.prems show ?thesis by (subst for_range_step.simps) (simp add: runs.simps)
  next
    case True
    define k where "k = min w (length xs - start)"
    have k: "start + k = min (start + w) (length xs)" "0 < k" "k \<le> length cells" "start + k \<le> length xs"
      using True less.prems(2) assms(1) by (auto simp: k_def)
    let ?pre = "pre @ map Some (sort_by compare (take w (drop start xs)))"
    have eq: "take w (drop start xs) = take k (drop start xs)" by (simp add: k_def min_def)
    have step: "sort_runs compare (map Some xs) b w start (pre @ cells @ post) = Some (?pre @ drop k cells @ post)"
      using run_steps_ok [OF less.prems(1) k(4,3)] k(1) by (simp add: sort_runs_def eq)
    show ?thesis
    proof (cases "start + w \<le> length xs")
      case w: True
      then have "k = w" by (simp add: k_def)
      with True less.prems w assms(1) less.hyps [of "start + w" ?pre "drop k cells"] step show ?thesis
        using assms(2) by (subst for_range_step.simps)
          (simp add: runs.simps [of compare w "drop start xs"] add.commute [of w start])
    next
      case w: False
      then have "drop k cells = []" "drop (start + w) xs = []" using less.prems(2) by (simp_all add: k_def)
      with w True step assms show ?thesis
        by (simp add: for_range_step.simps [of _ start] for_range_step.simps [of _ "start + w"]
          runs.simps [of compare w "drop start xs"] runs.simps [of compare w "[]"] add.commute [of w start])
    qed
  qed
qed

text \<open>Merging two runs into a range that overlaps neither.\<close>

lemma length_merge_by [simp]: "length (merge_by compare xs ys) = length xs + length ys"
  by (induction compare xs ys rule: merge_by.induct) auto

lemma slice_Cons:
  assumes "take (length (x # xs)) (drop p m) = map Some (x # xs)"
  shows "take (length xs) (drop (p + 1) m) = map Some xs" "mem_read m p = Some x" "p + 1 + length xs \<le> length m"
proof -
  have "length (take (length (x # xs)) (drop p m)) = length (x # xs)" unfolding assms by simp
  then show b: "p + 1 + length xs \<le> length m" by simp
  then have "drop p m = m ! p # drop (p + 1) m" by (simp add: Cons_nth_drop_Suc)
  with assms show "take (length xs) (drop (p + 1) m) = map Some xs" by simp
  show "mem_read m p = Some x" using mem_read_slice [OF assms, of 0] by simp
qed

lemma slice_bound: "take (length xs) (drop p m) = map Some xs \<Longrightarrow> p + length xs \<le> length m \<or> xs = []"
  using slice_Cons(3) [of _ _ p m] by (cases xs) auto

lemma copy_cell:
  assumes "mem_read m src = Some x" "dst < length m" "dst \<noteq> src"
  shows "copy_nonoverlapping m dst src 1 = Some (m[dst := Some x])"
proof -
  have "src < length m" "m ! src = Some x" using assms(1) by (auto simp: mem_read_def split: if_splits)
  then have "take 1 (drop src m) = [Some x]" by (simp add: take_Suc_conv_app_nth)
  with assms \<open>src < length m\<close> show ?thesis
    by (auto simp: copy_nonoverlapping_def copy_memory_def overwrite_one)
qed

lemma slice_update:
  assumes "take n (drop q m) = zs" "i < q \<or> q + n \<le> i"
  shows "take n (drop q (m[i := c])) = zs"
  using assms by (auto simp: drop_update_swap take_update_cancel)

lemma merge_loop_ok:
  assumes "take (length xs) (drop left ws) = map Some xs" "right_start = left + length xs"
    "take (length ys) (drop right ws) = map Some ys" "right_end = right + length ys"
    "out_end = out + length xs + length ys" "out_end \<le> length ws" "right_start \<le> right"
    "out_end \<le> left \<or> right_end \<le> out" "length ws < 2 ^ 64"
  shows "merge_loop compare right_start right_end out_end left right out ws =
    Some (overwrite out (map Some (merge_by compare xs ys)) ws)"
  using assms
proof (induction "length xs + length ys" arbitrary: xs ys left right out ws)
  case 0
  then show ?case by (simp add: merge_loop.simps)
next
  case (Suc n)
  have slices: "left + length xs \<le> length ws \<or> xs = []" "right + length ys \<le> length ws \<or> ys = []"
    using slice_bound Suc.prems(1,3) by blast+
  consider "xs = []" "ys \<noteq> []" | "xs \<noteq> []" "ys = []" | x xs' y ys' where "xs = x # xs'" "ys = y # ys'"
    using Suc.hyps(2) by (cases xs; cases ys) auto
  then show ?case
  proof cases
    case 1
    then have "wsub right_end right = length ys" using Suc.prems slices by (simp add: wsub_exact)
    with 1 Suc.prems slices show ?thesis
      by (subst merge_loop.simps) (auto simp: copy_nonoverlapping_def copy_memory_def)
  next
    case 2
    then have "wsub right_start left = length xs" using Suc.prems slices by (simp add: wsub_exact)
    moreover have "merge_by compare xs ys = xs" using 2 by (cases xs) auto
    ultimately show ?thesis using 2 Suc.prems slices
      by (subst merge_loop.simps) (auto simp: copy_nonoverlapping_def copy_memory_def)
  next
    case 3
    note l = slice_Cons [OF Suc.prems(1) [unfolded 3]] and r = slice_Cons [OF Suc.prems(3) [unfolded 3]]
    have out: "out < length ws" "out < out_end" "left \<noteq> right_start" "right \<noteq> right_end" "out \<noteq> left" "out \<noteq> right"
      using Suc.prems 3 by auto
    show ?thesis
    proof (cases "compare x y = Greater")
      case True
      let ?ws = "ws[out := Some y]"
      have "merge_loop compare right_start right_end out_end left (right + 1) (out + 1) ?ws =
          Some (overwrite (out + 1) (map Some (merge_by compare xs ys')) ?ws)"
        by (rule Suc.hyps(1)) (use Suc.prems Suc.hyps(2) 3 r in \<open>auto intro!: slice_update\<close>)
      moreover have "overwrite (out + 1) zs ?ws = overwrite out (Some y # zs) ws" for zs
        using out(1) by (simp add: overwrite_def take_Suc_conv_app_nth)
      ultimately show ?thesis using True out l(2) r(2) 3 copy_cell [OF r(2) out(1,6)]
        by (simp add: merge_loop.simps [of compare right_start right_end out_end left right])
    next
      case False
      let ?ws = "ws[out := Some x]"
      have "merge_loop compare right_start right_end out_end (left + 1) right (out + 1) ?ws =
          Some (overwrite (out + 1) (map Some (merge_by compare xs' ys)) ?ws)"
        by (rule Suc.hyps(1)) (use Suc.prems Suc.hyps(2) 3 l in \<open>auto intro!: slice_update\<close>)
      moreover have "overwrite (out + 1) zs ?ws = overwrite out (Some x # zs) ws" for zs
        using out(1) by (simp add: overwrite_def take_Suc_conv_app_nth)
      ultimately show ?thesis using False out l(2) r(2) 3 copy_cell [OF l(2) out(1,5)]
        by (simp add: merge_loop.simps [of compare right_start right_end out_end left right])
    qed
  qed
qed

text \<open>One pass from the half at \<open>b\<close> to the half at \<open>t\<close>, and all passes.\<close>

lemma runs_take_drop:
  assumes "0 < w" "start = j * w" "start < length xs"
  shows "drop start (runs compare w xs) = sort_by compare (take w (drop start xs)) @ drop (start + w) (runs compare w xs)"
proof -
  have "drop start (runs compare w xs) = runs compare w (drop start xs)" using runs_drop assms(2) by simp
  also have "\<dots> = sort_by compare (take w (drop start xs)) @ runs compare w (drop (Suc j * w) xs)"
    using assms by (subst runs.simps) (simp add: add.commute)
  finally show ?thesis unfolding runs_drop using assms(2) by (simp add: add.commute)
qed

lemma merge_runs_ok:
  assumes w: "0 < w" "start = j * (2 * w)" "start < length xs"
    and dat: "take (length xs) (drop b ws) = map Some (runs compare w xs)"
    and halves: "b + length xs \<le> t \<or> t + length xs \<le> b" "b + length xs \<le> length ws" "t + length xs \<le> length ws"
      "length ws < 2 ^ 64"
  shows "merge_runs compare (length xs) b t w start ws =
    Some (overwrite (t + start) (map Some (sort_by compare (take (2 * w) (drop start xs)))) ws)"
proof -
  let ?n = "length xs"
  define A where "A = take w (drop start xs)"
  define B where "B = take w (drop (start + w) xs)"
  have AB: "take (2 * w) (drop start xs) = A @ B" by (simp add: A_def B_def mult_2 take_add add.commute)
  have len: "min (start + w) ?n = start + length A" "min (start + 2 * w) ?n = start + length A + length B"
    using w by (auto simp: A_def B_def)
  have start: "start = (2 * j) * w" "start + w = Suc (2 * j) * w" using w(2) by simp_all
  have "drop start (runs compare w xs) = sort_by compare A @ drop (start + w) (runs compare w xs)"
    using runs_take_drop [OF w(1) start(1) w(3)] by (simp add: A_def)
  moreover have "drop (start + w) (runs compare w xs) = sort_by compare B @ drop (start + w + w) (runs compare w xs)"
  proof (cases "start + w < ?n")
    case True
    from runs_take_drop [OF w(1) start(2) True] show ?thesis by (simp add: B_def)
  qed (use w in \<open>simp add: B_def sort_by_def\<close>)
  ultimately have run: "drop start (runs compare w xs) = sort_by compare A @ sort_by compare B @ drop (start + w + w) (runs compare w xs)"
    by simp
  have sl: "take k (drop (b + s) ws) = map Some (take k (drop s (runs compare w xs)))" if "s + k \<le> ?n" for s k
  proof -
    have "take k (drop (b + s) ws) = take k (drop s (take ?n (drop b ws)))"
      using that by (simp add: drop_take add.commute min_def)
    then show ?thesis by (simp add: dat take_map drop_map)
  qed
  have bounds: "start + length A + length B \<le> ?n" using len(2) by linarith
  have "take (length A) (drop (b + start) ws) = map Some (sort_by compare A)"
    using sl [of start "length A"] bounds run by simp
  moreover have "take (length B) (drop (b + (start + length A)) ws) = map Some (sort_by compare B)"
  proof -
    have "drop (start + length A) (runs compare w xs) = drop (length A) (drop start (runs compare w xs))"
      by (simp add: add.commute)
    then show ?thesis using sl [of "start + length A" "length B"] bounds run by simp
  qed
  ultimately have "merge_loop compare (b + (start + length A)) (b + (start + length A + length B)) (t + (start + length A + length B))
      (b + start) (b + (start + length A)) (t + start) ws =
    Some (overwrite (t + start) (map Some (merge_by compare (sort_by compare A) (sort_by compare B))) ws)"
    using halves bounds by (intro merge_loop_ok) auto
  then show ?thesis using len by (simp add: merge_runs_def AB sort_by_append Let_def)
qed

lemma merge_pass_ok:
  assumes w: "0 < w" "start = j * (2 * w)" "length xs + 2 * w \<le> uint_max"
    and dat: "take (length xs) (drop b ws) = map Some (runs compare w xs)"
    and halves: "b + length xs \<le> t \<or> t + length xs \<le> b" "b + length xs \<le> length ws" "t + length xs \<le> length ws"
      "length ws < 2 ^ 64"
  shows "for_range_step (merge_runs compare (length xs) b t w) start (length xs) (2 * w) ws =
    Some (overwrite (t + start) (map Some (drop start (runs compare (2 * w) xs))) ws)"
  using w(2) dat halves
proof (induction "length xs - start" arbitrary: start j ws rule: less_induct)
  case less
  show ?case
  proof (cases "start < length xs")
    case False
    with w(1) show ?thesis by (subst for_range_step.simps) simp
  next
    case True
    let ?M = "sort_by compare (take (2 * w) (drop start xs))" and ?R = "runs compare (2 * w) xs"
    let ?ws = "overwrite (t + start) (map Some ?M) ws"
    have M: "length ?M = min (length xs - start) (2 * w)" by simp
    have step: "merge_runs compare (length xs) b t w start ws = Some ?ws"
      using less.prems True w(1) by (intro merge_runs_ok)
    have fits: "t + start + length (map Some ?M) \<le> length ws" using less.prems(5) True by simp
    have "for_range_step (merge_runs compare (length xs) b t w) (start + 2 * w) (length xs) (2 * w) ?ws =
      Some (overwrite (t + (start + 2 * w)) (map Some (drop (start + 2 * w) ?R)) ?ws)"
    proof (rule less.hyps [of _ "Suc j"])
      show "take (length xs) (drop b ?ws) = map Some (runs compare w xs)"
        using take_drop_overwrite [OF fits, of b "length xs"] less.prems True by auto
    qed (use less.prems True w(1) fits in auto)
    moreover have "overwrite (t + (start + 2 * w)) (map Some (drop (start + 2 * w) ?R)) ?ws =
        overwrite (t + start) (map Some (drop start ?R)) ws"
    proof (cases "start + 2 * w \<le> length xs")
      case True
      then show ?thesis
        using runs_take_drop [of "2 * w" start j xs] less.prems w(1) \<open>start < length xs\<close>
          overwrite_overwrite [of "t + start" "map Some ?M" "map Some (drop (start + 2 * w) ?R)" ws]
        by (simp add: add.assoc)
    next
      case False
      then show ?thesis
        using runs_take_drop [of "2 * w" start j xs] less.prems w(1) \<open>start < length xs\<close> by simp
    qed
    ultimately show ?thesis using True w step by (subst for_range_step.simps) simp
  qed
qed

lemma merge_passes_ok:
  assumes "0 < w" "3 * length xs < 2 ^ 64" "take (length xs) (drop b ws) = map Some (runs compare w xs)"
    "b + length xs \<le> t \<or> t + length xs \<le> b" "b + length xs \<le> length ws" "t + length xs \<le> length ws" "length ws < 2 ^ 64"
  shows "\<exists>b' ws'. merge_passes compare (length xs) b t w ws = Some (b', ws') \<and>
    take (length xs) (drop b' ws') = map Some (sort_by compare xs) \<and> b' + length xs \<le> length ws'"
  using assms
proof (induction "length xs - w" arbitrary: b t w ws rule: less_induct)
  case less
  show ?case
  proof (cases "w < length xs")
    case False
    with less.prems show ?thesis by (subst merge_passes.simps) (simp add: runs_all)
  next
    case True
    let ?ws = "overwrite t (map Some (runs compare (2 * w) xs)) ws"
    have "length xs + 2 * w \<le> uint_max" using True less.prems(2) by (simp add: uint_max_def)
    from merge_pass_ok [of w 0 0 xs b ws t] this less.prems
    have pass: "for_range_step (merge_runs compare (length xs) b t w) 0 (length xs) (2 * w) ws = Some ?ws" by simp
    have w2: "wmul w 2 = 2 * w" using True less.prems(2) by (simp add: wmul_exact)
    have fits: "t + length (map Some (runs compare (2 * w) xs)) \<le> length ws" using less.prems by simp
    have "take (length xs) (drop t ?ws) = map Some (runs compare (2 * w) xs)"
      using take_drop_overwrite_same [OF fits] less.prems(1) by simp
    then have "\<exists>b' ws'. merge_passes compare (length xs) t b (2 * w) ?ws = Some (b', ws') \<and>
        take (length xs) (drop b' ws') = map Some (sort_by compare xs) \<and> b' + length xs \<le> length ws'"
      using less.prems True fits by (intro less.hyps) auto
    then show ?thesis using True pass w2 by (subst merge_passes.simps) simp
  qed
qed

lemma merge_sort_ok:
  assumes "3 * length xs * max 1 size_of + 16 < 2 ^ 64"
  shows "merge_sort size_of compare (map Some xs) = Some (map Some (sort_by compare xs))"
proof -
  define w where "w = (if size_of \<le> 16 then BASE_INSERTION else LARGE_INSERTION)"
  have w: "0 < w" "w \<le> 32" by (simp_all add: w_def BASE_INSERTION_def LARGE_INSERTION_def)
  let ?n = "length xs" and ?s = "max 1 size_of"
  show ?thesis
  proof (cases "?n \<le> w")
    case True
    then show ?thesis using insertion_sort_ok by (simp add: merge_sort_def Let_def flip: w_def)
  next
    case False
    have "3 * ?n * 1 \<le> 3 * ?n * ?s" by (intro mult_left_mono) auto
    then have small: "3 * ?n + 16 < 2 ^ 64" using assms by linarith
    have "2 * ?n * ?s \<le> 3 * ?n * ?s" by (intro mult_right_mono) auto
    then have big: "2 * ?n * ?s + 16 < 2 ^ 64" using assms by linarith
    have alloc: "slice_with_capacity size_of (wmul 2 ?n) = Some (replicate (2 * ?n) None :: 'a mem)"
      using small big by (simp add: slice_with_capacity_def wmul_exact wadd_exact Let_def)
    have "replicate (2 * ?n) None = [] @ replicate ?n None @ replicate ?n (None :: 'a option)"
      by (simp add: mult_2 flip: replicate_add)
    moreover have "?n + w \<le> uint_max" using small w(2) False by (simp add: uint_max_def)
    ultimately have runs: "for_range_step (sort_runs compare (map Some xs) 0 w) 0 ?n w (replicate (2 * ?n) None) =
        Some (map Some (runs compare w xs) @ replicate ?n None)"
      using sort_runs_ok [OF w(1), of xs "[]" 0 0 "replicate ?n None" "replicate ?n None"] by simp
    let ?ws = "map Some (runs compare w xs) @ replicate ?n None"
    have "take ?n (drop 0 ?ws) = map Some (runs compare w xs)" using w(1) by simp
    moreover have "length ?ws = 2 * ?n" using w(1) by simp
    ultimately obtain b ws where ws: "merge_passes compare ?n 0 ?n w ?ws = Some (b, ws)"
      "take ?n (drop b ws) = map Some (sort_by compare xs)" "b + ?n \<le> length ws"
      using merge_passes_ok [OF w(1), of xs 0 ?ws ?n] small by auto
    then have "copy_from (map Some xs) 0 ws b ?n = Some (map Some (sort_by compare xs))"
      by (simp add: copy_from_def overwrite_def)
    with False alloc runs ws(1) show ?thesis by (simp add: merge_sort_def Let_def flip: w_def)
  qed
qed

end

interpretation cmp_total: total_compare "cmp :: 'a::linorder \<Rightarrow> 'a \<Rightarrow> ordering"
  by unfold_locales auto

section \<open>Binary search\<close>

lemma bsearch_loop_ok:
  assumes mono: "\<And>i j. i < j \<Longrightarrow> j < length v \<Longrightarrow>
      (f (v ! j) = Less \<longrightarrow> f (v ! i) = Less) \<and> (f (v ! i) = Greater \<longrightarrow> f (v ! j) = Greater)"
    and range: "base + lim \<le> length v" "\<And>i. i < length v \<Longrightarrow> f (v ! i) = Equal \<Longrightarrow> base \<le> i \<and> i < base + lim"
  shows "\<exists>r. bsearch_loop v f base lim = Some r \<and>
    (case r of Some i \<Rightarrow> i < length v \<and> f (v ! i) = Equal | None \<Rightarrow> \<forall>i < length v. f (v ! i) \<noteq> Equal)"
  using range
proof (induction lim arbitrary: base rule: less_induct)
  case (less lim)
  show ?case
  proof (cases "lim = 0")
    case True
    then show ?thesis using less.prems(2) by (subst bsearch_loop.simps) fastforce
  next
    case False
    define ix where "ix = base + lim div 2"
    have ix: "ix < length v" using less.prems(1) False by (simp add: ix_def)
    note unfold = bsearch_loop.simps [of v f base lim, folded ix_def] vec_get_Some [OF ix] Let_def
    show ?thesis
    proof (cases "f (v ! ix)")
      case Equal
      with False ix show ?thesis by (simp add: unfold)
    next
      case Less
      have "ix + 1 + (lim - 1) div 2 = base + lim" using False by (simp add: ix_def)
      moreover have "ix < i" if "i < length v" "f (v ! i) = Equal" for i
        using mono [of i ix] that ix Less by (metis linorder_neqE_nat ordering.distinct(1))
      ultimately have "\<exists>r. bsearch_loop v f (ix + 1) ((lim - 1) div 2) = Some r \<and>
          (case r of Some i \<Rightarrow> i < length v \<and> f (v ! i) = Equal | None \<Rightarrow> \<forall>i < length v. f (v ! i) \<noteq> Equal)"
        using False less.prems by (intro less.IH) (auto simp: Suc_le_eq)
      with False Less show ?thesis by (simp add: unfold)
    next
      case Greater
      have "i < ix" if "i < length v" "f (v ! i) = Equal" for i
        using mono [of ix i] that Greater by (metis linorder_neqE_nat ordering.distinct(5))
      then have "\<exists>r. bsearch_loop v f base (lim div 2) = Some r \<and>
          (case r of Some i \<Rightarrow> i < length v \<and> f (v ! i) = Equal | None \<Rightarrow> \<forall>i < length v. f (v ! i) \<noteq> Equal)"
        using False less.prems by (intro less.IH) (auto simp: ix_def)
      with False Greater show ?thesis by (simp add: unfold)
    qed
  qed
qed

section \<open>Properties\<close>

text \<open>
  C28.  \<open>sort_by\<close> sorts a slice of any length whose working space can be addressed: the unsafe
  code never reads an uninitialised cell nor leaves its allocation, both the insertion sort of short
  slices and the bottom-up merge sort return, and the result is that of the stable insertion sort on
  lists.  It is in order, and elements that compare equal keep their order.
\<close>

theorem slice_sort_by_correct:
  assumes "\<And>x y. compare x y = Greater \<longleftrightarrow> compare y x = Less"
    and "\<And>x y z. compare x y \<noteq> Greater \<Longrightarrow> compare y z \<noteq> Greater \<Longrightarrow> compare x z \<noteq> Greater"
    and "3 * length v * max 1 size_of + 16 < 2 ^ 64"
  shows "\<exists>v'. slice_sort_by size_of v compare = Some v' \<and> v' = sort_by compare v \<and> mset v' = mset v \<and>
    sorted_wrt (\<lambda>x y. compare x y \<noteq> Greater) v' \<and>
    (\<forall>x. filter (\<lambda>y. compare x y = Equal) v' = filter (\<lambda>y. compare x y = Equal) v)"
proof -
  have total: "total_compare compare" by (rule total_compare.intro [OF assms(1,2)])
  from total_compare.merge_sort_ok [OF total assms(3)] show ?thesis
    using total_compare.sorted_sort_by [OF total] total_compare.filter_sort_by [OF total]
    by (simp add: slice_sort_by_def)
qed

theorem slice_sort_by_correct_witness:
  "\<exists>v'. slice_sort_by 8 (rev [0 ..< 50]) cmp = Some v' \<and> v' = sort_by cmp (rev [0 ..< 50 :: nat]) \<and>
    mset v' = mset (rev [0 ..< 50]) \<and> sorted_wrt (\<lambda>x y. cmp x y \<noteq> Greater) v' \<and>
    (\<forall>x. filter (\<lambda>y. cmp x y = Equal) v' = filter (\<lambda>y. cmp x y = Equal) (rev [0 ..< 50]))"
  by (rule slice_sort_by_correct) auto

text \<open>
  C32.  Binary search for an element returns on every sorted slice and finds it exactly if it is
  there: sorting a slice and searching it is a membership test.
\<close>

theorem slice_sort_bsearch:
  fixes v :: "'a::linorder list"
  assumes "3 * length v * max 1 size_of + 16 < 2 ^ 64"
  shows "\<exists>v' r. slice_sort size_of v = Some v' \<and> sorted v' \<and> bsearch_elem v' x = Some r \<and>
    (case r of Some i \<Rightarrow> i < length v' \<and> v' ! i = x | None \<Rightarrow> x \<notin> set v)"
proof -
  let ?v = "sort_by cmp v"
  have sorted: "sorted ?v" using cmp_total.sorted_sort_by [of v] by (simp add: not_less)
  have "\<exists>r. bsearch_loop ?v (\<lambda>p. cmp p x) 0 (length ?v) = Some r \<and>
      (case r of Some i \<Rightarrow> i < length ?v \<and> cmp (?v ! i) x = Equal | None \<Rightarrow> \<forall>i < length ?v. cmp (?v ! i) x \<noteq> Equal)"
  proof (rule bsearch_loop_ok)
    fix i j assume "i < j" "j < length ?v"
    then have "?v ! i \<le> ?v ! j" using sorted_nth_mono [OF sorted, of i j] by simp
    then show "(cmp (?v ! j) x = Less \<longrightarrow> cmp (?v ! i) x = Less) \<and> (cmp (?v ! i) x = Greater \<longrightarrow> cmp (?v ! j) x = Greater)"
      by auto
  qed auto
  moreover have "slice_sort size_of v = Some ?v"
    using cmp_total.merge_sort_ok [OF assms] by (simp add: slice_sort_def slice_sort_by_def)
  moreover have "x \<in> set v \<longleftrightarrow> (\<exists>i < length ?v. ?v ! i = x)"
    using set_sort_by [of cmp v] by (metis in_set_conv_nth)
  ultimately show ?thesis using sorted
    by (auto simp: bsearch_elem_def bsearch_def split: option.splits)
qed

theorem slice_sort_bsearch_witness:
  "\<exists>v' r. slice_sort 8 [5, 3, 9 :: nat] = Some v' \<and> sorted v' \<and> bsearch_elem v' 4 = Some r \<and>
    (case r of Some i \<Rightarrow> i < length v' \<and> v' ! i = 4 | None \<Rightarrow> 4 \<notin> set [5, 3, 9 :: nat])"
  by (rule slice_sort_bsearch) simp

end
