(* ===== verification/HashTable.thy ===== *)
theory HashTable
  imports RawMem Containers "HOL-Library.Word"
begin

text \<open>
  The raw hash table of \<open>libcollections/hashmap.rs\<close> (module \<open>table\<close>): three parallel arrays of
  hashes, keys and values in raw memory, where a hash of zero marks an empty bucket.  Its keys and
  values are then uninitialised and must not be read.  The bounds and state assertions that are only
  compiled into tests are not modelled; what they check is undefined behaviour here.
\<close>

definition EMPTY_BUCKET :: "64 word" where
  "EMPTY_BUCKET = 0"

record ('k, 'v) raw_table =
  rt_capacity :: uint
  rt_size :: uint
  rt_hashes :: "64 word mem"
  rt_keys :: "'k mem"
  rt_vals :: "'v mem"

text \<open>
  An \<open>EmptyIndex\<close> is the index of the bucket, a \<open>FullIndex\<close> has the hash as well; a
  \<open>SafeHash\<close> is a hash that is not zero.
\<close>

datatype bucket_state = Empty uint | Full uint "64 word"

definition rt_make_hash :: "('q \<Rightarrow> 64 word) \<Rightarrow> 'q \<Rightarrow> 64 word" where
  "rt_make_hash hasher t = (if hasher t = EMPTY_BUCKET then 0x8000000000000000 else hasher t)"

definition checked_mul :: "uint \<Rightarrow> uint \<Rightarrow> uint option" where
  "checked_mul a b = (if a * b \<le> uint_max then Some (a * b) else None)"

definition new_uninitialized :: "uint \<Rightarrow> uint \<Rightarrow> uint \<Rightarrow> ('k, 'v) raw_table option" where
  "new_uninitialized size_k size_v capacity =
     do { _ \<leftarrow> checked_mul capacity 8;
          _ \<leftarrow> checked_mul capacity size_k;
          _ \<leftarrow> checked_mul capacity size_v;
          Some \<lparr>rt_capacity = capacity, rt_size = 0, rt_hashes = replicate capacity None,
                rt_keys = replicate capacity None, rt_vals = replicate capacity None\<rparr> }"

definition rt_new :: "uint \<Rightarrow> uint \<Rightarrow> uint \<Rightarrow> ('k, 'v) raw_table option" where
  "rt_new size_k size_v capacity =
     do { ret \<leftarrow> new_uninitialized size_k size_v capacity;
          hashes \<leftarrow> for_range (\<lambda>i hs. mem_write hs i EMPTY_BUCKET) [0 ..< rt_capacity ret] (rt_hashes ret);
          Some (ret\<lparr>rt_hashes := hashes\<rparr>) }"

definition peek :: "('k, 'v) raw_table \<Rightarrow> uint \<Rightarrow> bucket_state option" where
  "peek t index =
     do { hash \<leftarrow> mem_read (rt_hashes t) index;
          Some (if hash = EMPTY_BUCKET then Empty index else Full index hash) }"

definition rt_read :: "('k, 'v) raw_table \<Rightarrow> uint \<Rightarrow> ('k \<times> 'v) option" where
  "rt_read t idx = do { k \<leftarrow> mem_read (rt_keys t) idx; v \<leftarrow> mem_read (rt_vals t) idx; Some (k, v) }"

text \<open>Replacing the value behind the reference that \<open>read_mut\<close> gives, and everything through \<open>read_all_mut\<close>.\<close>

definition rt_replace_val :: "('k, 'v) raw_table \<Rightarrow> uint \<Rightarrow> 'v \<Rightarrow> ('v \<times> ('k, 'v) raw_table) option" where
  "rt_replace_val t idx v =
     do { (_, old) \<leftarrow> rt_read t idx; vs \<leftarrow> mem_write (rt_vals t) idx v; Some (old, t\<lparr>rt_vals := vs\<rparr>) }"

definition rt_replace_all ::
  "('k, 'v) raw_table \<Rightarrow> uint \<Rightarrow> 64 word \<Rightarrow> 'k \<Rightarrow> 'v \<Rightarrow> ((64 word \<times> 'k \<times> 'v) \<times> ('k, 'v) raw_table) option" where
  "rt_replace_all t idx hash k v =
     do { old_hash \<leftarrow> mem_read (rt_hashes t) idx;
          (old_key, old_val) \<leftarrow> rt_read t idx;
          hs \<leftarrow> mem_write (rt_hashes t) idx hash;
          ks \<leftarrow> mem_write (rt_keys t) idx k;
          vs \<leftarrow> mem_write (rt_vals t) idx v;
          Some ((old_hash, old_key, old_val), t\<lparr>rt_hashes := hs, rt_keys := ks, rt_vals := vs\<rparr>) }"

definition rt_put :: "('k, 'v) raw_table \<Rightarrow> uint \<Rightarrow> 64 word \<Rightarrow> 'k \<Rightarrow> 'v \<Rightarrow> ('k, 'v) raw_table option" where
  "rt_put t idx hash k v =
     do { hs \<leftarrow> mem_write (rt_hashes t) idx hash;
          ks \<leftarrow> mem_write (rt_keys t) idx k;
          vs \<leftarrow> mem_write (rt_vals t) idx v;
          Some (t\<lparr>rt_hashes := hs, rt_keys := ks, rt_vals := vs, rt_size := rt_size t + 1\<rparr>) }"

text \<open>Taking moves the key and the value out; their cells are uninitialised afterwards.\<close>

definition rt_take :: "('k, 'v) raw_table \<Rightarrow> uint \<Rightarrow> (('k \<times> 'v) \<times> ('k, 'v) raw_table) option" where
  "rt_take t idx =
     do { hs \<leftarrow> mem_write (rt_hashes t) idx EMPTY_BUCKET;
          (k, v) \<leftarrow> rt_read t idx;
          Some ((k, v), t\<lparr>rt_hashes := hs, rt_keys := (rt_keys t)[idx := None], rt_vals := (rt_vals t)[idx := None],
                          rt_size := wsub (rt_size t) 1\<rparr>) }"

section \<open>Iterators\<close>

record ('k, 'v) table_iter =
  ti_table :: "('k, 'v) raw_table"
  ti_idx :: uint

definition rt_iter :: "('k, 'v) raw_table \<Rightarrow> ('k, 'v) table_iter" where
  "rt_iter t = \<lparr>ti_table = t, ti_idx = 0\<rparr>"

function entries_next_from :: "('k, 'v) raw_table \<Rightarrow> uint \<Rightarrow> (('k \<times> 'v) option \<times> uint) option" where
  "entries_next_from t i =
     (if i < rt_capacity t
      then do { st \<leftarrow> peek t i;
                case st of
                  Empty _ \<Rightarrow> entries_next_from t (i + 1)
                | Full idx _ \<Rightarrow> do { kv \<leftarrow> rt_read t idx; Some (Some kv, i + 1) } }
      else Some (None, i))"
  by pat_completeness auto
termination by (relation "measure (\<lambda>(t, i). rt_capacity t - i)") auto

declare entries_next_from.simps [simp del]

definition table_next :: "('k, 'v) table_iter \<Rightarrow> (('k \<times> 'v) option \<times> ('k, 'v) table_iter) option" where
  "table_next it = do { (r, i) \<leftarrow> entries_next_from (ti_table it) (ti_idx it); Some (r, it\<lparr>ti_idx := i\<rparr>) }"

text \<open>The iterator over mutable references: a reference is the index of the bucket.\<close>

definition mut_entries_next :: "('k, 'v) table_iter \<Rightarrow> ((uint \<times> 'k \<times> 'v) option \<times> ('k, 'v) table_iter) option" where
  "mut_entries_next it =
     do { (r, i) \<leftarrow> entries_next_from (ti_table it) (ti_idx it);
          Some (case r of None \<Rightarrow> None | Some (k, v) \<Rightarrow> Some (i - 1, k, v), it\<lparr>ti_idx := i\<rparr>) }"

text \<open>The size hint counts buckets, not entries: the index wraps below the size.\<close>

definition table_size_hint :: "('k, 'v) table_iter \<Rightarrow> uint \<times> uint option" where
  "table_size_hint it = (let size = wsub (rt_size (ti_table it)) (ti_idx it) in (size, Some size))"

text \<open>The consuming iterator takes the entries out of its table.\<close>

function move_next_from ::
  "('k, 'v) raw_table \<Rightarrow> uint \<Rightarrow> ((64 word \<times> 'k \<times> 'v) option \<times> ('k, 'v) table_iter) option" where
  "move_next_from t i =
     (if i < rt_capacity t
      then do { st \<leftarrow> peek t i;
                case st of
                  Empty _ \<Rightarrow> move_next_from t (i + 1)
                | Full idx h \<Rightarrow> do { ((k, v), t') \<leftarrow> rt_take t idx;
                                    Some (Some (h, k, v), \<lparr>ti_table = t', ti_idx = i + 1\<rparr>) } }
      else Some (None, \<lparr>ti_table = t, ti_idx = i\<rparr>))"
  by pat_completeness auto
termination by (relation "measure (\<lambda>(t, i). rt_capacity t - i)") auto

declare move_next_from.simps [simp del]

definition move_entries_next ::
  "('k, 'v) table_iter \<Rightarrow> ((64 word \<times> 'k \<times> 'v) option \<times> ('k, 'v) table_iter) option" where
  "move_entries_next it = move_next_from (ti_table it) (ti_idx it)"

definition move_entries_size_hint :: "('k, 'v) table_iter \<Rightarrow> uint \<times> uint option" where
  "move_entries_size_hint it = (let size = rt_size (ti_table it) in (size, Some size))"

text \<open>Copying a table; \<open>clone\<close> of a key or a value is the value itself.\<close>

definition clone_bucket :: "('k, 'v) raw_table \<Rightarrow> uint \<Rightarrow> ('k, 'v) raw_table \<Rightarrow> ('k, 'v) raw_table option" where
  "clone_bucket t i n =
     do { st \<leftarrow> peek t i;
          case st of
            Empty _ \<Rightarrow> do { hs \<leftarrow> mem_write (rt_hashes n) i EMPTY_BUCKET; Some (n\<lparr>rt_hashes := hs\<rparr>) }
          | Full idx hash \<Rightarrow>
              do { (k, v) \<leftarrow> rt_read t idx;
                   hs \<leftarrow> mem_write (rt_hashes n) i hash;
                   ks \<leftarrow> mem_write (rt_keys n) i k;
                   vs \<leftarrow> mem_write (rt_vals n) i v;
                   Some (n\<lparr>rt_hashes := hs, rt_keys := ks, rt_vals := vs\<rparr>) } }"

definition rt_clone :: "uint \<Rightarrow> uint \<Rightarrow> ('k, 'v) raw_table \<Rightarrow> ('k, 'v) raw_table option" where
  "rt_clone size_k size_v t =
     do { new_ht \<leftarrow> new_uninitialized size_k size_v (rt_capacity t);
          new_ht \<leftarrow> for_range (clone_bucket t) [0 ..< rt_capacity t] new_ht;
          Some (new_ht\<lparr>rt_size := rt_size t\<rparr>) }"

text \<open>Dropping a table drops its entries, from the last bucket on, until none is left.\<close>

fun drop_entries :: "uint list \<Rightarrow> ('k, 'v) raw_table \<Rightarrow> ('k, 'v) raw_table option" where
  "drop_entries [] t = Some t"
| "drop_entries (i # is) t =
     (if rt_size t = 0 then Some t
      else do { st \<leftarrow> peek t i;
                case st of
                  Empty _ \<Rightarrow> drop_entries is t
                | Full idx _ \<Rightarrow> do { (_, t') \<leftarrow> rt_take t idx; drop_entries is t' } })"

definition rt_drop :: "('k, 'v) raw_table \<Rightarrow> unit option" where
  "rt_drop t = do { t' \<leftarrow> drop_entries (rev [0 ..< rt_capacity t]) t; if rt_size t' = 0 then Some () else None }"

section \<open>Tables and their buckets\<close>

type_synonym ('k, 'v) buckets = "(64 word \<times> 'k \<times> 'v) option list"

text \<open>The table that holds a list of buckets, and the condition on the hashes in them.\<close>

definition occupied :: "'b option list \<Rightarrow> nat" where
  "occupied bs = length (filter (\<lambda>b. b \<noteq> None) bs)"

definition rt_of :: "('k, 'v) buckets \<Rightarrow> ('k, 'v) raw_table" where
  "rt_of bs = \<lparr>rt_capacity = length bs, rt_size = occupied bs,
     rt_hashes = map (\<lambda>b. Some (case b of None \<Rightarrow> 0 | Some (h, _) \<Rightarrow> h)) bs,
     rt_keys = map (map_option (\<lambda>(_, k, _). k)) bs,
     rt_vals = map (map_option (\<lambda>(_, _, v). v)) bs\<rparr>"

definition safe_hashes :: "('k, 'v) buckets \<Rightarrow> bool" where
  "safe_hashes bs \<longleftrightarrow> (\<forall>h k v. Some (h, k, v) \<in> set bs \<longrightarrow> h \<noteq> 0)"

lemma occupied_le: "occupied bs \<le> length bs"
  by (simp add: occupied_def)

lemma occupied_put: "i < length bs \<Longrightarrow> bs ! i = None \<Longrightarrow> occupied (bs[i := Some b]) = Suc (occupied bs)"
  unfolding occupied_def by (induction bs arbitrary: i) (auto split: nat.splits simp: nth_Cons')

lemma occupied_take: "i < length bs \<Longrightarrow> bs ! i = Some b \<Longrightarrow> occupied bs = Suc (occupied (bs[i := None]))"
  unfolding occupied_def by (induction bs arbitrary: i) (auto split: nat.splits simp: nth_Cons')

lemma occupied_replace: "i < length bs \<Longrightarrow> bs ! i = Some b \<Longrightarrow> occupied (bs[i := Some c]) = occupied bs"
  unfolding occupied_def by (induction bs arbitrary: i) (auto split: nat.splits simp: nth_Cons')

lemma occupied_replicate [simp]: "occupied (replicate n None) = 0"
  by (simp add: occupied_def)

lemma rt_of_sel [simp]: "rt_capacity (rt_of bs) = length bs" "rt_size (rt_of bs) = occupied bs"
  by (simp_all add: rt_of_def)

lemma safe_hashes_update:
  "safe_hashes bs \<Longrightarrow> (\<And>h k v. b = Some (h, k, v) \<Longrightarrow> h \<noteq> 0) \<Longrightarrow> safe_hashes (bs[i := b])"
  by (auto simp: safe_hashes_def dest!: set_update_subset_insert [THEN subsetD])

lemma peek_of:
  assumes "safe_hashes bs"
  shows "peek (rt_of bs) i =
    (if i < length bs then Some (case bs ! i of None \<Rightarrow> Empty i | Some (h, _) \<Rightarrow> Full i h) else None)"
proof (cases "i < length bs")
  case True
  then have "bs ! i \<in> set bs" by simp
  then have "h \<noteq> 0" if "bs ! i = Some (h, k, v)" for h k v
    using assms that by (auto simp: safe_hashes_def)
  with True show ?thesis
    by (auto simp: peek_def rt_of_def mem_read_def EMPTY_BUCKET_def split: option.split prod.split)
qed (simp add: peek_def rt_of_def mem_read_def)

lemma read_of: "i < length bs \<Longrightarrow> bs ! i = Some (h, k, v) \<Longrightarrow> rt_read (rt_of bs) i = Some (k, v)"
  by (simp add: rt_read_def rt_of_def mem_read_def)

lemma put_of:
  "i < length bs \<Longrightarrow> bs ! i = None \<Longrightarrow> rt_put (rt_of bs) i h k v = Some (rt_of (bs[i := Some (h, k, v)]))"
  by (simp add: rt_put_def rt_of_def mem_write_def map_update occupied_put)

lemma take_of:
  "i < length bs \<Longrightarrow> bs ! i = Some (h, k, v) \<Longrightarrow> length bs < 2 ^ 64 \<Longrightarrow>
     rt_take (rt_of bs) i = Some ((k, v), rt_of (bs[i := None]))"
  using occupied_take [of i bs "(h, k, v)"] occupied_le [of bs]
  by (simp add: rt_take_def read_of, simp add: rt_of_def mem_write_def map_update EMPTY_BUCKET_def wsub_exact)

lemma replace_val_of:
  "i < length bs \<Longrightarrow> bs ! i = Some (h, k, v) \<Longrightarrow>
     rt_replace_val (rt_of bs) i w = Some (v, rt_of (bs[i := Some (h, k, w)]))"
  by (simp add: rt_replace_val_def read_of)
    (simp add: rt_of_def mem_write_def map_update occupied_replace list_update_same_conv [THEN iffD2, symmetric])

lemma replace_all_of:
  "i < length bs \<Longrightarrow> bs ! i = Some (h, k, v) \<Longrightarrow>
     rt_replace_all (rt_of bs) i h' k' v' = Some ((h, k, v), rt_of (bs[i := Some (h', k', v')]))"
  by (simp add: rt_replace_all_def read_of)
    (simp add: rt_of_def mem_read_def mem_write_def map_update occupied_replace)

lemma for_range_fill:
  "n \<le> length m \<Longrightarrow> for_range (\<lambda>i hs. mem_write hs i x) [0 ..< n] m = Some (replicate n (Some x) @ drop n m)"
proof (induction n)
  case (Suc n)
  then show ?case
    by (simp add: for_range_append mem_write_def list_update_append replicate_append_same flip: Cons_nth_drop_Suc)
qed simp

lemma new_of:
  assumes "capacity * max 8 (max size_k size_v) \<le> uint_max"
  shows "rt_new size_k size_v capacity = Some (rt_of (replicate capacity None))"
proof -
  have "capacity * 8 \<le> uint_max" "capacity * size_k \<le> uint_max" "capacity * size_v \<le> uint_max"
    using assms by (meson order.trans mult_le_mono2 max.cobounded1 max.cobounded2)+
  then show ?thesis
    by (simp add: rt_new_def new_uninitialized_def checked_mul_def for_range_fill rt_of_def EMPTY_BUCKET_def
        map_replicate_const occupied_def)
qed

text \<open>Cloning and dropping a table.\<close>

lemma fill_step:
  "n < length xs \<Longrightarrow> (take n xs @ replicate (length xs - n) None)[n := xs ! n] =
     take (Suc n) xs @ replicate (length xs - Suc n) None"
  by (simp add: list_update_append take_Suc_conv_app_nth Suc_diff_Suc flip: Suc_diff_Suc)

lemma clone_of:
  assumes "safe_hashes bs" "length bs * max 8 (max size_k size_v) \<le> uint_max"
  shows "rt_clone size_k size_v (rt_of bs) = Some (rt_of bs)"
proof -
  let ?t = "rt_of bs" and ?c = "length bs"
  let ?part = "\<lambda>n xs. take n xs @ replicate (length xs - n) None"
  let ?st = "\<lambda>n. \<lparr>rt_capacity = ?c, rt_size = 0, rt_hashes = ?part n (rt_hashes ?t), rt_keys = ?part n (rt_keys ?t),
     rt_vals = ?part n (rt_vals ?t)\<rparr>"
  have len: "length (rt_hashes ?t) = ?c" "length (rt_keys ?t) = ?c" "length (rt_vals ?t) = ?c" by (simp_all add: rt_of_def)
  have step: "clone_bucket ?t n (?st n) = Some (?st (Suc n))" if n: "n < ?c" for n
  proof (cases "bs ! n")
    case None
    then have at: "rt_hashes ?t ! n = Some 0" "rt_keys ?t ! n = None" "rt_vals ?t ! n = None" using n by (simp_all add: rt_of_def)
    have same: "?part (Suc n) xs = ?part n xs" if "length xs = ?c" "xs ! n = None" for xs :: "'c option list"
      using fill_step [of n xs] that n by (simp add: list_update_append flip: Suc_diff_Suc)
    show ?thesis using None n at same [OF len(2) at(2)] same [OF len(3) at(3)] fill_step [of n "rt_hashes ?t"] len
      by (simp add: clone_bucket_def peek_of [OF assms(1)] mem_write_def EMPTY_BUCKET_def)
  next
    case (Some e)
    then obtain h k v where e: "bs ! n = Some (h, k, v)" by (cases e) auto
    then have at: "rt_hashes ?t ! n = Some h" "rt_keys ?t ! n = Some k" "rt_vals ?t ! n = Some v" using n by (simp_all add: rt_of_def)
    show ?thesis using e n at fill_step [of n "rt_hashes ?t"] fill_step [of n "rt_keys ?t"] fill_step [of n "rt_vals ?t"] len
      by (simp add: clone_bucket_def peek_of [OF assms(1)] read_of [OF n e] mem_write_def)
  qed
  have loop: "for_range (clone_bucket ?t) [0 ..< n] (?st 0) = Some (?st n)" if "n \<le> ?c" for n
    using that
  proof (induction n)
    case (Suc n)
    then show ?case using step [of n] by (simp add: for_range_append)
  qed simp
  have "new_uninitialized size_k size_v ?c = Some (?st 0)"
  proof -
    have "?c * 8 \<le> uint_max" "?c * size_k \<le> uint_max" "?c * size_v \<le> uint_max"
      using assms(2) by (meson order.trans mult_le_mono2 max.cobounded1 max.cobounded2)+
    then show ?thesis by (simp add: new_uninitialized_def checked_mul_def len)
  qed
  then have "rt_clone size_k size_v ?t = Some ((?st ?c)\<lparr>rt_size := occupied bs\<rparr>)"
    using loop [of ?c] by (simp add: rt_clone_def)
  then show ?thesis using len by (simp add: rt_of_def)
qed

lemma table_size_hint_wraps:
  "map_option (\<lambda>(r, it). (r, table_size_hint it)) (table_next (rt_iter (rt_of [None, Some (1, (), ())]))) =
     Some (Some ((), ()), 2 ^ 64 - 1, Some (2 ^ 64 - 1))"
  by (simp add: table_next_def rt_iter_def entries_next_from.simps rt_of_def peek_def rt_read_def mem_read_def
      EMPTY_BUCKET_def table_size_hint_def occupied_def wsub_def Let_def)

end
