(* ===== verification/IterAdapters.thy ===== *)
theory IterAdapters
  imports Deques
begin

text \<open>
  Iterator adapters of \<open>libstd/iter.rs\<close> over iterators whose \<open>next\<close> may fail: \<open>Map\<close>, \<open>FilterMap\<close>,
  \<open>Zip\<close>, \<open>Repeat\<close>, \<open>Chain\<close> and \<open>all\<close>.  The contract of a forward iterator is a locale; each adapter
  keeps it, so that a composed iterator is understood from its parts.
\<close>

section \<open>Adapters\<close>

definition map_next :: "('a \<Rightarrow> 'b) \<Rightarrow> ('i \<Rightarrow> ('a option \<times> 'i) option) \<Rightarrow> 'i \<Rightarrow> ('b option \<times> 'i) option" where
  "map_next f nxt i = do { (r, i') \<leftarrow> nxt i; Some (case r of Some a \<Rightarrow> Some (f a) | None \<Rightarrow> None, i') }"

definition zip_next ::
  "('i \<Rightarrow> ('a option \<times> 'i) option) \<Rightarrow> ('j \<Rightarrow> ('b option \<times> 'j) option) \<Rightarrow> 'i \<times> 'j \<Rightarrow> (('a \<times> 'b) option \<times> 'i \<times> 'j) option" where
  "zip_next nxt nxt' = (\<lambda>(i, j).
     do { (r, i') \<leftarrow> nxt i;
          case r of
            None \<Rightarrow> Some (None, i', j)
          | Some x \<Rightarrow> do { (r', j') \<leftarrow> nxt' j;
                          case r' of None \<Rightarrow> Some (None, i', j') | Some y \<Rightarrow> Some (Some (x, y), i', j') } })"

definition repeat_next :: "'a \<Rightarrow> ('a option \<times> 'a) option" where
  "repeat_next x = Some (Some x, x)"

partial_function (option) filter_map_next ::
  "('a \<Rightarrow> 'b option option) \<Rightarrow> ('i \<Rightarrow> ('a option \<times> 'i) option) \<Rightarrow> 'i \<Rightarrow> ('b option \<times> 'i) option" where
  "filter_map_next f nxt i =
     do { (r, i') \<leftarrow> nxt i;
          case r of
            None \<Rightarrow> Some (None, i')
          | Some x \<Rightarrow> do { y \<leftarrow> f x; case y of Some z \<Rightarrow> Some (Some z, i') | None \<Rightarrow> filter_map_next f nxt i' } }"

record ('i, 'j) chain =
  chain_a :: 'i
  chain_b :: 'j
  chain_flag :: bool

definition chain_new :: "'i \<Rightarrow> 'j \<Rightarrow> ('i, 'j) chain" where
  "chain_new a b = \<lparr>chain_a = a, chain_b = b, chain_flag = False\<rparr>"

definition chain_next ::
  "('i \<Rightarrow> ('a option \<times> 'i) option) \<Rightarrow> ('j \<Rightarrow> ('a option \<times> 'j) option) \<Rightarrow> ('i, 'j) chain \<Rightarrow>
   ('a option \<times> ('i, 'j) chain) option" where
  "chain_next nxt nxt' c =
     (if chain_flag c then do { (r, b) \<leftarrow> nxt' (chain_b c); Some (r, c\<lparr>chain_b := b\<rparr>) }
      else do { (r, a) \<leftarrow> nxt (chain_a c);
                case r of
                  Some x \<Rightarrow> Some (Some x, c\<lparr>chain_a := a\<rparr>)
                | None \<Rightarrow> do { (r', b) \<leftarrow> nxt' (chain_b c);
                              Some (r', c\<lparr>chain_a := a, chain_b := b, chain_flag := True\<rparr>) } })"

partial_function (option) iter_all ::
  "('a \<Rightarrow> bool option) \<Rightarrow> ('i \<Rightarrow> ('a option \<times> 'i) option) \<Rightarrow> 'i \<Rightarrow> bool option" where
  "iter_all f nxt i =
     do { (r, i') \<leftarrow> nxt i;
          case r of
            None \<Rightarrow> Some True
          | Some x \<Rightarrow> do { b \<leftarrow> f x; if \<not> b then Some False else iter_all f nxt i' } }"

text \<open>Everything an iterator delivers, as a \<open>for\<close> loop over it sees it.\<close>

partial_function (option) try_collect :: "('i \<Rightarrow> ('a option \<times> 'i) option) \<Rightarrow> 'i \<Rightarrow> 'a list option" where
  "try_collect nxt i =
     do { (r, i') \<leftarrow> nxt i;
          case r of None \<Rightarrow> Some [] | Some x \<Rightarrow> do { xs \<leftarrow> try_collect nxt i'; Some (x # xs) } }"

section \<open>The contract\<close>

locale fallible_source =
  fixes invar :: "'i \<Rightarrow> bool"
    and pending :: "'i \<Rightarrow> 'a list"
    and try_next :: "'i \<Rightarrow> ('a option \<times> 'i) option"
  assumes src_next: "invar i \<Longrightarrow> \<exists>i'. invar i' \<and> pending i' = tl (pending i) \<and>
      try_next i = Some (if pending i = [] then None else Some (hd (pending i)), i')"

sublocale fallible_iterator \<subseteq> source: fallible_source invar pending try_next
  by unfold_locales (rule try_next_ok)

context fallible_source
begin

lemma src_cases:
  assumes "invar i"
  obtains (stop) i' where "pending i = []" "try_next i = Some (None, i')" "invar i'" "pending i' = []"
  | (item) x xs i' where "pending i = x # xs" "try_next i = Some (Some x, i')" "invar i'" "pending i' = xs"
  using src_next [OF assms] by (cases "pending i") auto

lemma try_collect_ok: "invar i \<Longrightarrow> try_collect try_next i = Some (pending i)"
proof (induction "pending i" arbitrary: i)
  case Nil
  from Nil.prems Nil.hyps show ?case by (cases rule: src_cases) (auto simp: try_collect.simps [of try_next i])
next
  case (Cons x xs)
  from Cons.prems Cons.hyps show ?case by (cases rule: src_cases) (auto simp: try_collect.simps [of try_next i])
qed

lemma iter_all_ok:
  "invar i \<Longrightarrow> (\<And>x. x \<in> set (pending i) \<Longrightarrow> f x = Some (g x)) \<Longrightarrow> iter_all f try_next i = Some (list_all g (pending i))"
proof (induction "pending i" arbitrary: i)
  case Nil
  from Nil.prems(1) Nil.hyps show ?case by (cases rule: src_cases) (auto simp: iter_all.simps [of f try_next i])
next
  case (Cons x xs)
  from Cons.prems(1) show ?case
  proof (cases rule: src_cases)
    case (item x' xs' i')
    then show ?thesis using Cons.hyps(1) [of i'] Cons.hyps(2) Cons.prems(2)
      by (auto simp: iter_all.simps [of f try_next i])
  qed (use Cons.hyps(2) in simp)
qed

lemma map_source: "fallible_source invar (\<lambda>i. map f (pending i)) (map_next f try_next)"
proof
  fix i assume "invar i"
  then show "\<exists>i'. invar i' \<and> map f (pending i') = tl (map f (pending i)) \<and>
      map_next f try_next i = Some (if map f (pending i) = [] then None else Some (hd (map f (pending i))), i')"
    by (cases rule: src_cases) (auto simp: map_next_def)
qed

lemma zip_repeat_source:
  "fallible_source (\<lambda>(y, i). P y \<and> invar i) (\<lambda>(y, i). map (Pair y) (pending i)) (zip_next repeat_next try_next)"
proof
  fix c :: "'b \<times> 'i"
  assume c: "case c of (y, i) \<Rightarrow> P y \<and> invar i"
  obtain y i where yi: "c = (y, i)" by (cases c)
  with c have "P y" "invar i" by simp_all
  from this(2) show "\<exists>c'. (case c' of (y, i) \<Rightarrow> P y \<and> invar i) \<and>
      (case c' of (y, i) \<Rightarrow> map (Pair y) (pending i)) = tl (case c of (y, i) \<Rightarrow> map (Pair y) (pending i)) \<and>
      zip_next repeat_next try_next c = Some (if (case c of (y, i) \<Rightarrow> map (Pair y) (pending i)) = [] then None
        else Some (hd (case c of (y, i) \<Rightarrow> map (Pair y) (pending i))), c')"
    by (cases rule: src_cases) (use \<open>P y\<close> in \<open>auto simp: yi zip_next_def repeat_next_def\<close>)
qed

lemma filter_map_step:
  "invar i \<Longrightarrow> (\<And>x. x \<in> set (pending i) \<Longrightarrow> f x = Some (g x)) \<Longrightarrow>
    \<exists>i'. invar i' \<and> set (pending i') \<subseteq> set (pending i) \<and> List.map_filter g (pending i') = tl (List.map_filter g (pending i)) \<and>
      filter_map_next f try_next i =
        Some (if List.map_filter g (pending i) = [] then None else Some (hd (List.map_filter g (pending i))), i')"
proof (induction "pending i" arbitrary: i)
  case Nil
  from Nil.prems(1) Nil.hyps show ?case
    by (cases rule: src_cases) (auto simp: filter_map_next.simps [of f try_next i] map_filter_simps)
next
  case (Cons x xs)
  from Cons.prems(1) Cons.hyps(2) obtain i' where i': "try_next i = Some (Some x, i')" "invar i'" "pending i' = xs"
    by (cases rule: src_cases) auto
  have x: "f x = Some (g x)" using Cons.prems(2) Cons.hyps(2) by (metis list.set_intros(1))
  show ?case
  proof (cases "g x")
    case None
    have "\<And>y. y \<in> set (pending i') \<Longrightarrow> f y = Some (g y)" using Cons.prems(2) Cons.hyps(2) i'(3) by (metis list.set_intros(2))
    from Cons.hyps(1) [OF i'(3) [symmetric] i'(2) this] obtain i'' where "invar i''" "set (pending i'') \<subseteq> set xs"
      "List.map_filter g (pending i'') = tl (List.map_filter g xs)"
      "filter_map_next f try_next i' = Some (if List.map_filter g xs = [] then None else Some (hd (List.map_filter g xs)), i'')"
      using i'(3) by auto
    with None x i' show ?thesis
      by (intro exI [of _ i'']) (auto simp: filter_map_next.simps [of f try_next i] map_filter_simps simp flip: Cons.hyps(2))
  next
    case (Some y)
    with x i' show ?thesis
      by (intro exI [of _ i']) (auto simp: filter_map_next.simps [of f try_next i] map_filter_simps simp flip: Cons.hyps(2))
  qed
qed

lemma filter_map_source:
  "fallible_source (\<lambda>i. invar i \<and> (\<forall>x \<in> set (pending i). f x = Some (g x))) (\<lambda>i. List.map_filter g (pending i))
     (filter_map_next f try_next)"
proof
  fix i assume i: "invar i \<and> (\<forall>x \<in> set (pending i). f x = Some (g x))"
  then show "\<exists>i'. (invar i' \<and> (\<forall>x \<in> set (pending i'). f x = Some (g x))) \<and>
      List.map_filter g (pending i') = tl (List.map_filter g (pending i)) \<and>
      filter_map_next f try_next i =
        Some (if List.map_filter g (pending i) = [] then None else Some (hd (List.map_filter g (pending i))), i')"
    using filter_map_step [of i f g] by blast
qed

end

lemma source_eq: "fallible_source iv p nxt \<Longrightarrow> iv = iv' \<Longrightarrow> p = p' \<Longrightarrow> fallible_source iv' p' nxt"
  by simp

text \<open>Two iterators one after the other.\<close>

definition chain_pending :: "('i \<Rightarrow> 'a list) \<Rightarrow> ('j \<Rightarrow> 'a list) \<Rightarrow> ('i, 'j) chain \<Rightarrow> 'a list" where
  "chain_pending p q c = (if chain_flag c then [] else p (chain_a c)) @ q (chain_b c)"

lemma chain_source:
  assumes "fallible_source iv p nxt" "fallible_source iv' q nxt'"
  shows "fallible_source (\<lambda>c. iv (chain_a c) \<and> iv' (chain_b c)) (chain_pending p q) (chain_next nxt nxt')"
proof
  fix c :: "('a, 'c) chain"
  assume c: "iv (chain_a c) \<and> iv' (chain_b c)"
  obtain a where a: "iv a" "p a = tl (p (chain_a c))"
    "nxt (chain_a c) = Some (if p (chain_a c) = [] then None else Some (hd (p (chain_a c))), a)"
    using fallible_source.src_next [OF assms(1)] c by blast
  obtain b where b: "iv' b" "q b = tl (q (chain_b c))"
    "nxt' (chain_b c) = Some (if q (chain_b c) = [] then None else Some (hd (q (chain_b c))), b)"
    using fallible_source.src_next [OF assms(2)] c by blast
  show "\<exists>c'. (iv (chain_a c') \<and> iv' (chain_b c')) \<and> chain_pending p q c' = tl (chain_pending p q c) \<and>
      chain_next nxt nxt' c = Some (if chain_pending p q c = [] then None else Some (hd (chain_pending p q c)), c')"
  proof (cases "chain_flag c \<or> p (chain_a c) = []")
    case True
    then show ?thesis using a b c
      by (intro exI [of _ "if chain_flag c then c\<lparr>chain_b := b\<rparr> else c\<lparr>chain_a := a, chain_b := b, chain_flag := True\<rparr>"])
        (auto simp: chain_next_def chain_pending_def)
  next
    case False
    then show ?thesis using a b c
      by (intro exI [of _ "c\<lparr>chain_a := a\<rparr>"]) (auto simp: chain_next_def chain_pending_def)
  qed
qed

end
