(* ===== verification/HashMap.thy ===== *)
theory HashMap
  imports HashTable PowerOfTwo IterAdapters
begin

text \<open>
  Hash maps with Robin Hood hashing, \<open>libcollections/hashmap.rs\<close>.  The hasher is a field of the map,
  as in the code: a function from keys to 64-bit hashes.  \<open>size_k\<close> and \<open>size_v\<close> are the sizes of
  keys and values in bytes, which decide when a table cannot be allocated.
\<close>

unbundle bit_operations_syntax

section \<open>Operations\<close>

text \<open>Multiplication by a fraction of 16-bit numbers.\<close>

definition fraction_mul :: "uint \<Rightarrow> uint \<times> uint \<Rightarrow> uint" where
  "fraction_mul lhs = (\<lambda>(num, den). wmul lhs num div den)"

definition INITIAL_LOG2_CAP :: uint where
  "INITIAL_LOG2_CAP = 5"

definition HM_INITIAL_CAPACITY :: uint where
  "HM_INITIAL_CAPACITY = 2 ^ INITIAL_LOG2_CAP"

definition INITIAL_LOAD_FACTOR :: "uint \<times> uint" where
  "INITIAL_LOAD_FACTOR = (9, 10)"

record ('k, 'v) hash_map =
  hm_hasher :: "'k \<Rightarrow> 64 word"
  hm_grow_at :: uint
  hm_minimum_capacity :: uint
  hm_table :: "('k, 'v) raw_table"
  hm_load_factor :: "uint \<times> uint"

definition grow_at :: "uint \<Rightarrow> uint \<times> uint \<Rightarrow> uint" where
  "grow_at capacity load_factor = fraction_mul capacity load_factor"

definition shrink_at :: "('k, 'v) hash_map \<Rightarrow> uint" where
  "shrink_at m = rt_capacity (hm_table m) div 4"

definition probe :: "('k, 'v) hash_map \<Rightarrow> 64 word \<Rightarrow> uint \<Rightarrow> uint" where
  "probe m hash idx =
     (let hash_mask = of_nat (rt_capacity (hm_table m)) - 1 in unat ((hash + of_nat idx) AND hash_mask))"

definition probe_next :: "('k, 'v) hash_map \<Rightarrow> uint \<Rightarrow> uint" where
  "probe_next m p =
     (let hash_mask = of_nat (rt_capacity (hm_table m)) - 1 :: 64 word in unat ((of_nat p + 1) AND hash_mask))"

definition make_hash :: "('k, 'v) hash_map \<Rightarrow> 'k \<Rightarrow> 64 word" where
  "make_hash m k = rt_make_hash (hm_hasher m) k"

definition bucket_distance :: "('k, 'v) hash_map \<Rightarrow> uint \<Rightarrow> 64 word \<Rightarrow> uint" where
  "bucket_distance m raw_index hash =
     (let first_probe_index = probe m hash 0
      in if first_probe_index \<le> raw_index then raw_index - first_probe_index
         else raw_index + (rt_capacity (hm_table m) - first_probe_index))"

text \<open>The search loop over the numbers of probes; a found bucket is returned as its index and hash.\<close>

fun search_loop ::
  "('k, 'v) hash_map \<Rightarrow> 64 word \<Rightarrow> ('k \<Rightarrow> bool) \<Rightarrow> uint list \<Rightarrow> (uint \<times> 64 word) option option" where
  "search_loop m hash is_match [] = Some None"
| "search_loop m hash is_match (num_probes # ns) =
     do { st \<leftarrow> peek (hm_table m) (probe m hash num_probes);
          case st of
            Empty _ \<Rightarrow> Some None
          | Full idx h \<Rightarrow>
              if bucket_distance m idx h < num_probes then Some None
              else if hash \<noteq> h then search_loop m hash is_match ns
              else do { (k, _) \<leftarrow> rt_read (hm_table m) idx;
                        if \<not> is_match k then search_loop m hash is_match ns else Some (Some (idx, h)) } }"

definition search_hashed_generic ::
  "('k, 'v) hash_map \<Rightarrow> 64 word \<Rightarrow> ('k \<Rightarrow> bool) \<Rightarrow> (uint \<times> 64 word) option option" where
  "search_hashed_generic m hash is_match = search_loop m hash is_match [0 ..< rt_size (hm_table m)]"

definition search_hashed :: "('k, 'v) hash_map \<Rightarrow> 64 word \<Rightarrow> 'k \<Rightarrow> (uint \<times> 64 word) option option" where
  "search_hashed m hash k = search_hashed_generic m hash (\<lambda>k'. k = k')"

text \<open>A query of another type, given by its hash and the keys it is equivalent to.\<close>

definition search_equiv ::
  "('k, 'v) hash_map \<Rightarrow> ('q \<Rightarrow> 64 word) \<Rightarrow> ('q \<Rightarrow> 'k \<Rightarrow> bool) \<Rightarrow> 'q \<Rightarrow> (uint \<times> 64 word) option option" where
  "search_equiv m hash_q eqv q = search_hashed_generic m (rt_make_hash hash_q q) (eqv q)"

definition hm_search :: "('k, 'v) hash_map \<Rightarrow> 'k \<Rightarrow> (uint \<times> 64 word) option option" where
  "hm_search m k = search_hashed m (make_hash m k) k"

text \<open>Where the run of displaced buckets behind a removed one ends.\<close>

fun ending_probe_loop :: "('k, 'v) hash_map \<Rightarrow> nat \<Rightarrow> uint \<Rightarrow> uint option" where
  "ending_probe_loop m 0 p = Some p"
| "ending_probe_loop m (Suc n) p =
     do { st \<leftarrow> peek (hm_table m) p;
          case st of
            Empty _ \<Rightarrow> Some p
          | Full idx h \<Rightarrow>
              if bucket_distance m idx h \<noteq> 0 then ending_probe_loop m n (probe_next m p) else Some p }"

definition take_if_full :: "('k, 'v) raw_table \<Rightarrow> uint \<Rightarrow> ('k, 'v) raw_table option" where
  "take_if_full t p =
     do { st \<leftarrow> peek t p;
          case st of
            Empty _ \<Rightarrow> Some t
          | Full idx _ \<Rightarrow> do { (_, t') \<leftarrow> rt_take t idx; Some t' } }"

partial_function (option) shift_loop ::
  "('k, 'v) hash_map \<Rightarrow> uint \<Rightarrow> uint \<Rightarrow> uint \<Rightarrow> (uint \<times> ('k, 'v) hash_map) option" where
  "shift_loop m ending_probe p next_probe =
     (if next_probe \<noteq> ending_probe
      then do { st \<leftarrow> peek (hm_table m) next_probe;
                t \<leftarrow> (case st of
                  Empty _ \<Rightarrow> take_if_full (hm_table m) p
                | Full next_idx next_hash \<Rightarrow>
                    do { ((next_key, next_val), t1) \<leftarrow> rt_take (hm_table m) next_idx;
                         st' \<leftarrow> peek t1 p;
                         case st' of
                           Empty idx \<Rightarrow> rt_put t1 idx next_hash next_key next_val
                         | Full idx _ \<Rightarrow> do { (_, t2) \<leftarrow> rt_take t1 idx; rt_put t2 idx next_hash next_key next_val } });
                let m' = m\<lparr>hm_table := t\<rparr>;
                shift_loop m' ending_probe next_probe (probe_next m' next_probe) }
      else Some (p, m))"

definition pop_internal :: "('k, 'v) hash_map \<Rightarrow> uint \<Rightarrow> ('v \<times> ('k, 'v) hash_map) option" where
  "pop_internal m starting_probe =
     do { ending_probe \<leftarrow> ending_probe_loop m (rt_size (hm_table m)) (probe_next m starting_probe);
          ((_, retval), t) \<leftarrow> rt_take (hm_table m) starting_probe;
          let m1 = m\<lparr>hm_table := t\<rparr>;
          (p, m2) \<leftarrow> shift_loop m1 ending_probe starting_probe (probe_next m1 starting_probe);
          t' \<leftarrow> take_if_full (hm_table m2) p;
          Some (retval, m2\<lparr>hm_table := t'\<rparr>) }"

text \<open>
  Robin Hood insertion.  The inner loop looks for a place for the entry that was pushed out: a hole,
  where it is put (\<open>Inl\<close>), or a bucket nearer to its ideal place, which is stolen next (\<open>Inr\<close>).
\<close>

fun robin_hood_loop ::
  "('k, 'v) hash_map \<Rightarrow> 64 word \<times> 'k \<times> 'v \<Rightarrow> uint \<Rightarrow> uint list \<Rightarrow> (('k, 'v) hash_map + uint \<times> uint) option" where
  "robin_hood_loop m old p [] = None"
| "robin_hood_loop m old p (dib # dibs) =
     do { st \<leftarrow> peek (hm_table m) p;
          case st of
            Empty idx \<Rightarrow>
              (case old of (old_hash, old_key, old_val) \<Rightarrow>
                 do { t \<leftarrow> rt_put (hm_table m) idx old_hash old_key old_val; Some (Inl (m\<lparr>hm_table := t\<rparr>)) })
          | Full idx h \<Rightarrow>
              let probe_dib = bucket_distance m idx h
              in if probe_dib < dib then Some (Inr (idx, probe_dib))
                 else robin_hood_loop m old (probe_next m p) dibs }"

partial_function (option) robin_hood ::
  "('k, 'v) hash_map \<Rightarrow> uint \<Rightarrow> uint \<Rightarrow> 64 word \<Rightarrow> 'k \<Rightarrow> 'v \<Rightarrow> ('k, 'v) hash_map option" where
  "robin_hood m index dib_param hash k v =
     do { (old, t) \<leftarrow> rt_replace_all (hm_table m) index hash k v;
          let m' = m\<lparr>hm_table := t\<rparr>;
          r \<leftarrow> robin_hood_loop m' old (probe_next m' index) [dib_param + 1 ..< rt_size t];
          case r of
            Inl m'' \<Rightarrow> Some m''
          | Inr (index', dib') \<Rightarrow> (case old of (old_hash, old_key, old_val) \<Rightarrow> robin_hood m' index' dib' old_hash old_key old_val) }"

text \<open>
  \<open>manual_insert_hashed_nocheck\<close>, with the index of the bucket whose value is referred to by the
  result; running out of probes is a failure.
\<close>

fun insert_loop ::
  "('k, 'v) hash_map \<Rightarrow> 64 word \<Rightarrow> 'k \<Rightarrow> 'v \<Rightarrow> uint list \<Rightarrow> (uint \<times> ('k, 'v) hash_map) option" where
  "insert_loop m hash k v [] = None"
| "insert_loop m hash k v (dib # dibs) =
     do { st \<leftarrow> peek (hm_table m) (probe m hash dib);
          case st of
            Empty idx \<Rightarrow> do { t \<leftarrow> rt_put (hm_table m) idx hash k v; Some (idx, m\<lparr>hm_table := t\<rparr>) }
          | Full idx h \<Rightarrow>
              do { found \<leftarrow> (if h = hash then do { (bucket_k, _) \<leftarrow> rt_read (hm_table m) idx; Some (k = bucket_k) }
                             else Some False);
                   if found then Some (idx, m)
                   else let probe_dib = bucket_distance m idx h
                        in if probe_dib < dib
                           then do { m' \<leftarrow> robin_hood m idx probe_dib hash k v;
                                     st' \<leftarrow> peek (hm_table m') (probe m' hash dib);
                                     case st' of Empty _ \<Rightarrow> None | Full idx' _ \<Rightarrow> Some (idx', m') }
                           else insert_loop m hash k v dibs } }"

definition manual_insert_hashed_nocheck ::
  "('k, 'v) hash_map \<Rightarrow> 64 word \<Rightarrow> 'k \<Rightarrow> 'v \<Rightarrow> (uint \<times> ('k, 'v) hash_map) option" where
  "manual_insert_hashed_nocheck m hash k v = insert_loop m hash k v [0 ..< rt_size (hm_table m) + 1]"

text \<open>Moving the entries of the old table over.\<close>

partial_function (option) reinsert ::
  "('k, 'v) table_iter \<Rightarrow> ('k, 'v) hash_map \<Rightarrow> (('k, 'v) table_iter \<times> ('k, 'v) hash_map) option" where
  "reinsert it m =
     do { (r, it') \<leftarrow> move_entries_next it;
          case r of
            None \<Rightarrow> Some (it', m)
          | Some (h, k, v) \<Rightarrow> do { (_, m') \<leftarrow> manual_insert_hashed_nocheck m h k v; reinsert it' m' } }"

definition resize :: "uint \<Rightarrow> uint \<Rightarrow> ('k, 'v) hash_map \<Rightarrow> uint \<Rightarrow> ('k, 'v) hash_map option" where
  "resize size_k size_v m new_capacity =
     (if rt_size (hm_table m) \<le> new_capacity \<and>
         (of_nat new_capacity - 1) AND of_nat new_capacity = (0 :: 64 word)
      then do { t \<leftarrow> rt_new size_k size_v new_capacity;
                let old_table = hm_table m;
                (it, m') \<leftarrow> reinsert (rt_iter old_table)
                  (m\<lparr>hm_grow_at := grow_at new_capacity (hm_load_factor m), hm_table := t\<rparr>);
                _ \<leftarrow> rt_drop (ti_table it);
                if rt_size (hm_table m') = rt_size old_table then Some m' else None }
      else None)"

definition make_some_room :: "uint \<Rightarrow> uint \<Rightarrow> ('k, 'v) hash_map \<Rightarrow> uint \<Rightarrow> ('k, 'v) hash_map option" where
  "make_some_room size_k size_v m new_size =
     (let should_shrink = new_size \<le> shrink_at m; should_grow = hm_grow_at m \<le> new_size
      in if should_grow then resize size_k size_v m (wmul (rt_capacity (hm_table m)) 2)
         else if should_shrink
         then let new_capacity = rt_capacity (hm_table m) div 2
              in if hm_minimum_capacity m \<le> new_capacity then resize size_k size_v m new_capacity else Some m
         else Some m)"

definition hm_len :: "('k, 'v) hash_map \<Rightarrow> uint" where
  "hm_len m = rt_size (hm_table m)"

definition hm_clear :: "('k, 'v) hash_map \<Rightarrow> ('k, 'v) hash_map option" where
  "hm_clear m =
     do { t \<leftarrow> for_range (\<lambda>i t. take_if_full t i) [0 ..< rt_capacity (hm_table m)] (hm_table m);
          Some (m\<lparr>hm_minimum_capacity := rt_size (hm_table m), hm_table := t\<rparr>) }"

definition hm_find :: "('k, 'v) hash_map \<Rightarrow> 'k \<Rightarrow> 'v option option" where
  "hm_find m k =
     do { r \<leftarrow> hm_search m k;
          case r of
            None \<Rightarrow> Some None
          | Some (idx, _) \<Rightarrow> do { (_, v) \<leftarrow> rt_read (hm_table m) idx; Some (Some v) } }"

definition hm_contains_key :: "('k, 'v) hash_map \<Rightarrow> 'k \<Rightarrow> bool option" where
  "hm_contains_key m k = do { r \<leftarrow> hm_search m k; Some (r \<noteq> None) }"

text \<open>The value behind a mutable reference, and the map after writing through it.\<close>

definition hm_ref :: "('k, 'v) hash_map \<Rightarrow> uint \<Rightarrow> ('v \<times> ('v \<Rightarrow> ('k, 'v) hash_map)) option" where
  "hm_ref m idx =
     do { (_, v) \<leftarrow> rt_read (hm_table m) idx;
          Some (v, \<lambda>w. m\<lparr>hm_table := (hm_table m)\<lparr>rt_vals := (rt_vals (hm_table m))[idx := Some w]\<rparr>\<rparr>) }"

definition hm_find_mut :: "('k, 'v) hash_map \<Rightarrow> 'k \<Rightarrow> ('v \<times> ('v \<Rightarrow> ('k, 'v) hash_map)) option option" where
  "hm_find_mut m k =
     do { r \<leftarrow> hm_search m k;
          case r of None \<Rightarrow> Some None | Some (idx, _) \<Rightarrow> map_option Some (hm_ref m idx) }"

fun swap_loop ::
  "('k, 'v) hash_map \<Rightarrow> 64 word \<Rightarrow> 'k \<Rightarrow> 'v \<Rightarrow> uint list \<Rightarrow> ('v option \<times> ('k, 'v) hash_map) option" where
  "swap_loop m hash k v [] = None"
| "swap_loop m hash k v (dib # dibs) =
     do { st \<leftarrow> peek (hm_table m) (probe m hash dib);
          case st of
            Empty idx \<Rightarrow> do { t \<leftarrow> rt_put (hm_table m) idx hash k v; Some (None, m\<lparr>hm_table := t\<rparr>) }
          | Full idx h \<Rightarrow>
              do { found \<leftarrow> (if h = hash then do { (bucket_k, _) \<leftarrow> rt_read (hm_table m) idx; Some (k = bucket_k) }
                             else Some False);
                   if found then do { (old, t) \<leftarrow> rt_replace_val (hm_table m) idx v; Some (Some old, m\<lparr>hm_table := t\<rparr>) }
                   else let probe_dib = bucket_distance m idx h
                        in if probe_dib < dib then do { m' \<leftarrow> robin_hood m idx probe_dib hash k v; Some (None, m') }
                           else swap_loop m hash k v dibs } }"

definition hm_swap :: "uint \<Rightarrow> uint \<Rightarrow> ('k, 'v) hash_map \<Rightarrow> 'k \<Rightarrow> 'v \<Rightarrow> ('v option \<times> ('k, 'v) hash_map) option" where
  "hm_swap size_k size_v m k v =
     do { let hash = make_hash m k;
          m1 \<leftarrow> make_some_room size_k size_v m (rt_size (hm_table m) + 1);
          swap_loop m1 hash k v [0 ..< rt_size (hm_table m1) + 1] }"

definition hm_pop :: "uint \<Rightarrow> uint \<Rightarrow> ('k, 'v) hash_map \<Rightarrow> 'k \<Rightarrow> ('v option \<times> ('k, 'v) hash_map) option" where
  "hm_pop size_k size_v m k =
     (if rt_size (hm_table m) = 0 then Some (None, m)
      else do { m1 \<leftarrow> make_some_room size_k size_v m (rt_size (hm_table m) - 1);
                r \<leftarrow> hm_search m1 k;
                case r of
                  None \<Rightarrow> Some (None, m1)
                | Some (idx, _) \<Rightarrow> do { (v, m2) \<leftarrow> pop_internal m1 idx; Some (Some v, m2) } })"

definition hm_pop_equiv ::
  "uint \<Rightarrow> uint \<Rightarrow> ('k, 'v) hash_map \<Rightarrow> ('q \<Rightarrow> 64 word) \<Rightarrow> ('q \<Rightarrow> 'k \<Rightarrow> bool) \<Rightarrow> 'q \<Rightarrow> ('v option \<times> ('k, 'v) hash_map) option" where
  "hm_pop_equiv size_k size_v m hash_q eqv q =
     (if rt_size (hm_table m) = 0 then Some (None, m)
      else do { m1 \<leftarrow> make_some_room size_k size_v m (rt_size (hm_table m) - 1);
                r \<leftarrow> search_equiv m1 hash_q eqv q;
                case r of
                  None \<Rightarrow> Some (None, m1)
                | Some (idx, _) \<Rightarrow> do { (v, m2) \<leftarrow> pop_internal m1 idx; Some (Some v, m2) } })"

definition with_capacity_and_hasher :: "uint \<Rightarrow> uint \<Rightarrow> uint \<Rightarrow> ('k \<Rightarrow> 64 word) \<Rightarrow> ('k, 'v) hash_map option" where
  "with_capacity_and_hasher size_k size_v capacity hasher =
     do { cap \<leftarrow> next_power_of_two (of_nat (max HM_INITIAL_CAPACITY capacity));
          t \<leftarrow> rt_new size_k size_v (unat cap);
          Some \<lparr>hm_hasher = hasher, hm_grow_at = grow_at (unat cap) INITIAL_LOAD_FACTOR,
                hm_minimum_capacity = unat cap, hm_table = t, hm_load_factor = INITIAL_LOAD_FACTOR\<rparr> }"

definition with_hasher :: "uint \<Rightarrow> uint \<Rightarrow> ('k \<Rightarrow> 64 word) \<Rightarrow> ('k, 'v) hash_map option" where
  "with_hasher size_k size_v hasher = with_capacity_and_hasher size_k size_v HM_INITIAL_CAPACITY hasher"

definition hm_reserve :: "uint \<Rightarrow> uint \<Rightarrow> ('k, 'v) hash_map \<Rightarrow> uint \<Rightarrow> ('k, 'v) hash_map option" where
  "hm_reserve size_k size_v m new_minimum_capacity =
     do { c \<leftarrow> next_power_of_two (of_nat (max HM_INITIAL_CAPACITY new_minimum_capacity));
          let cap = unat c;
          let m1 = m\<lparr>hm_minimum_capacity := cap\<rparr>;
          if rt_capacity (hm_table m1) < cap then resize size_k size_v m1 cap else Some m1 }"

definition manual_insert_hashed ::
  "uint \<Rightarrow> uint \<Rightarrow> ('k, 'v) hash_map \<Rightarrow> 64 word \<Rightarrow> 'k \<Rightarrow> 'v \<Rightarrow> (uint \<times> ('k, 'v) hash_map) option" where
  "manual_insert_hashed size_k size_v m hash k v =
     do { m1 \<leftarrow> make_some_room size_k size_v m (rt_size (hm_table m) + 1); manual_insert_hashed_nocheck m1 hash k v }"

definition manual_insert ::
  "uint \<Rightarrow> uint \<Rightarrow> ('k, 'v) hash_map \<Rightarrow> 'k \<Rightarrow> 'v \<Rightarrow> (uint \<times> ('k, 'v) hash_map) option" where
  "manual_insert size_k size_v m k v = manual_insert_hashed size_k size_v m (make_hash m k) k v"

text \<open>
  The following return a mutable reference: the index of the bucket of the value and the map.
\<close>

definition find_or_insert :: "uint \<Rightarrow> uint \<Rightarrow> ('k, 'v) hash_map \<Rightarrow> 'k \<Rightarrow> 'v \<Rightarrow> (uint \<times> ('k, 'v) hash_map) option" where
  "find_or_insert size_k size_v m k v =
     do { r \<leftarrow> hm_search m k;
          case r of Some (idx, _) \<Rightarrow> Some (idx, m) | None \<Rightarrow> manual_insert size_k size_v m k v }"

definition find_or_insert_with ::
  "uint \<Rightarrow> uint \<Rightarrow> ('k, 'v) hash_map \<Rightarrow> 'k \<Rightarrow> ('k \<Rightarrow> 'v) \<Rightarrow> (uint \<times> ('k, 'v) hash_map) option" where
  "find_or_insert_with size_k size_v m k f =
     do { r \<leftarrow> hm_search m k;
          case r of Some (idx, _) \<Rightarrow> Some (idx, m) | None \<Rightarrow> let v = f k in manual_insert size_k size_v m k v }"

definition insert_or_update_with ::
  "uint \<Rightarrow> uint \<Rightarrow> ('k, 'v) hash_map \<Rightarrow> 'k \<Rightarrow> 'v \<Rightarrow> ('k \<Rightarrow> 'v \<Rightarrow> 'v) \<Rightarrow> (uint \<times> ('k, 'v) hash_map) option" where
  "insert_or_update_with size_k size_v m k v f =
     do { r \<leftarrow> hm_search m k;
          case r of
            None \<Rightarrow> manual_insert size_k size_v m k v
          | Some (idx, _) \<Rightarrow> do { (v_ref, set_ref) \<leftarrow> hm_ref m idx; Some (idx, set_ref (f k v_ref)) } }"

definition hm_get :: "('k, 'v) hash_map \<Rightarrow> 'k \<Rightarrow> 'v option" where
  "hm_get m k = do { r \<leftarrow> hm_find m k; r }"

definition hm_get_mut :: "('k, 'v) hash_map \<Rightarrow> 'k \<Rightarrow> ('v \<times> ('v \<Rightarrow> ('k, 'v) hash_map)) option" where
  "hm_get_mut m k = do { r \<leftarrow> hm_find_mut m k; r }"

definition contains_key_equiv ::
  "('k, 'v) hash_map \<Rightarrow> ('q \<Rightarrow> 64 word) \<Rightarrow> ('q \<Rightarrow> 'k \<Rightarrow> bool) \<Rightarrow> 'q \<Rightarrow> bool option" where
  "contains_key_equiv m hash_q eqv q = do { r \<leftarrow> search_equiv m hash_q eqv q; Some (r \<noteq> None) }"

definition find_equiv ::
  "('k, 'v) hash_map \<Rightarrow> ('q \<Rightarrow> 64 word) \<Rightarrow> ('q \<Rightarrow> 'k \<Rightarrow> bool) \<Rightarrow> 'q \<Rightarrow> 'v option option" where
  "find_equiv m hash_q eqv q =
     do { r \<leftarrow> search_equiv m hash_q eqv q;
          case r of
            None \<Rightarrow> Some None
          | Some (idx, _) \<Rightarrow> do { (_, v_ref) \<leftarrow> rt_read (hm_table m) idx; Some (Some v_ref) } }"

definition hm_iter :: "('k, 'v) hash_map \<Rightarrow> ('k, 'v) table_iter" where
  "hm_iter m = rt_iter (hm_table m)"

definition hm_keys_next :: "('k, 'v) table_iter \<Rightarrow> ('k option \<times> ('k, 'v) table_iter) option" where
  "hm_keys_next = map_next (\<lambda>(k, _). k) table_next"

definition hm_values_next :: "('k, 'v) table_iter \<Rightarrow> ('v option \<times> ('k, 'v) table_iter) option" where
  "hm_values_next = map_next (\<lambda>(_, v). v) table_next"

definition hm_move_next :: "('k, 'v) table_iter \<Rightarrow> (('k \<times> 'v) option \<times> ('k, 'v) table_iter) option" where
  "hm_move_next = map_next (\<lambda>(_, k, v). (k, v)) move_entries_next"

definition find_copy :: "('k, 'v) hash_map \<Rightarrow> 'k \<Rightarrow> 'v option option" where
  "find_copy m k = hm_find m k"

definition get_copy :: "('k, 'v) hash_map \<Rightarrow> 'k \<Rightarrow> 'v option" where
  "get_copy m k = hm_get m k"

definition hm_eq :: "('v \<Rightarrow> 'v \<Rightarrow> bool) \<Rightarrow> ('k, 'v) hash_map \<Rightarrow> ('k, 'v) hash_map \<Rightarrow> bool option" where
  "hm_eq eq_v m other =
     (if hm_len m \<noteq> hm_len other then Some False
      else iter_all (\<lambda>(key, v). do { r \<leftarrow> hm_find other key;
                                     Some (case r of None \<Rightarrow> False | Some v' \<Rightarrow> eq_v v v') }) table_next (hm_iter m))"

definition hm_insert :: "uint \<Rightarrow> uint \<Rightarrow> ('k, 'v) hash_map \<Rightarrow> 'k \<Rightarrow> 'v \<Rightarrow> (bool \<times> ('k, 'v) hash_map) option" where
  "hm_insert size_k size_v = insert_default (hm_swap size_k size_v)"

definition hm_remove :: "uint \<Rightarrow> uint \<Rightarrow> ('k, 'v) hash_map \<Rightarrow> 'k \<Rightarrow> (bool \<times> ('k, 'v) hash_map) option" where
  "hm_remove size_k size_v = remove_default (hm_pop size_k size_v)"

definition hm_extend :: "uint \<Rightarrow> uint \<Rightarrow> ('k, 'v) hash_map \<Rightarrow> ('k \<times> 'v) list \<Rightarrow> ('k, 'v) hash_map option" where
  "hm_extend size_k size_v = extend_with (hm_insert size_k size_v)"

definition hm_from_iter :: "uint \<Rightarrow> uint \<Rightarrow> ('k \<Rightarrow> 64 word) \<Rightarrow> uint \<Rightarrow> ('k \<times> 'v) list \<Rightarrow> ('k, 'v) hash_map option" where
  "hm_from_iter size_k size_v hasher lower kvs =
     do { m \<leftarrow> with_capacity_and_hasher size_k size_v lower hasher; hm_extend size_k size_v m kvs }"

end
