(* ===== verification/RobinHood.thy ===== *)
theory RobinHood
  imports HashMap "HOL-Library.Multiset"
begin

text \<open>
  Why Robin Hood hashing works.  The order of the buckets is a local condition: a bucket that is not
  at its ideal place follows one that is at most one nearer to its own.  Searching may therefore stop
  at the first bucket that is nearer to its place than the probe, and every operation on the buckets
  keeps the condition.
\<close>

section \<open>Distances\<close>

definition dist :: "nat \<Rightarrow> nat \<Rightarrow> 64 word \<Rightarrow> nat" where
  "dist c i h = (i + c - unat h mod c) mod c"

definition nxt :: "nat \<Rightarrow> nat \<Rightarrow> nat" where
  "nxt c i = (i + 1) mod c"

lemma dist_less [simp]: "0 < c \<Longrightarrow> dist c i h < c"
  by (simp add: dist_def)

lemma nxt_less [simp]: "0 < c \<Longrightarrow> nxt c i < c"
  by (simp add: nxt_def)

lemma dist_at: "0 < c \<Longrightarrow> dist c ((unat h + n) mod c) h = n mod c"
proof -
  assume c: "0 < c"
  let ?a = "unat h mod c"
  have a: "?a < c" using c by simp
  have e: "(unat h + n) mod c = (?a + n) mod c" by (metis mod_add_left_eq)
  have "dist c ((unat h + n) mod c) h = ((?a + n) mod c + (c - ?a)) mod c"
    unfolding dist_def e using a by (metis Nat.add_diff_assoc less_imp_le)
  also have "\<dots> = (?a + n + (c - ?a)) mod c" by (rule mod_add_left_eq)
  also have "?a + n + (c - ?a) = n + c" using a by simp
  finally show ?thesis by simp
qed

lemma at_dist: "i < c \<Longrightarrow> (unat h + dist c i h) mod c = i"
proof -
  assume i: "i < c"
  let ?a = "unat h mod c"
  have a: "?a < c" using i by simp
  have "(unat h + dist c i h) mod c = (?a + (i + c - ?a)) mod c"
    by (metis dist_def mod_add_left_eq mod_add_right_eq)
  also have "?a + (i + c - ?a) = i + c" using a by simp
  finally show ?thesis using i by simp
qed

lemma dist_nxt: "i < c \<Longrightarrow> dist c (nxt c i) h = (dist c i h + 1) mod c"
proof -
  assume i: "i < c"
  have "nxt c i = (unat h + (dist c i h + 1)) mod c"
    using at_dist [OF i, of h] by (metis add.assoc mod_add_left_eq nxt_def)
  then show ?thesis using dist_at [of c h "dist c i h + 1"] i by simp
qed

lemma dist_nxt_Suc: "i < c \<Longrightarrow> dist c (nxt c i) h = Suc d \<Longrightarrow> dist c i h = d"
  using dist_nxt [of i c h] dist_less [of c i h]
  by (metis Suc_eq_plus1 Suc_lessI diff_Suc_1 gr_zeroI mod_less mod_self nat.simps(3) not_less_zero)

lemma dist_nxt_less: "i < c \<Longrightarrow> dist c i h + 1 < c \<Longrightarrow> dist c (nxt c i) h = dist c i h + 1"
  by (simp add: dist_nxt)

section \<open>The order of the buckets\<close>

definition disp :: "('k, 'v) buckets \<Rightarrow> nat \<Rightarrow> nat option" where
  "disp bs i = map_option (\<lambda>(h, _). dist (length bs) i h) (bs ! i)"

definition ordered_at :: "('k, 'v) buckets \<Rightarrow> nat \<Rightarrow> bool" where
  "ordered_at bs i \<longleftrightarrow> (\<forall>d. disp bs (nxt (length bs) i) = Some (Suc d) \<longrightarrow> (\<exists>d' \<ge> d. disp bs i = Some d'))"

definition robin :: "('k, 'v) buckets \<Rightarrow> bool" where
  "robin bs \<longleftrightarrow> (\<forall>i < length bs. ordered_at bs i)"

lemma disp_eq_None [simp]: "disp bs i = None \<longleftrightarrow> bs ! i = None"
  by (simp add: disp_def)

lemma disp_less: "disp bs i = Some d \<Longrightarrow> bs \<noteq> [] \<Longrightarrow> d < length bs"
  by (auto simp: disp_def)

lemma robin_back:
  assumes "robin bs" "bs \<noteq> []" "disp bs ((p + n) mod length bs) = Some d" "n \<le> d"
  shows "\<exists>d' \<ge> d - n. disp bs (p mod length bs) = Some d'"
  using assms(3,4)
proof (induction n arbitrary: d)
  case 0
  then show ?case by simp
next
  case (Suc n)
  let ?i = "(p + n) mod length bs"
  have "nxt (length bs) ?i = (p + Suc n) mod length bs" by (simp add: nxt_def mod_Suc_eq)
  moreover obtain e where e: "d = Suc e" using Suc.prems(2) by (cases d) auto
  moreover have "?i < length bs" using assms(2) by simp
  ultimately obtain d' where d': "d' \<ge> e" "disp bs ?i = Some d'"
    using assms(1) Suc.prems(1) by (fastforce simp: robin_def ordered_at_def)
  have "n \<le> d'" using d'(1) Suc.prems(2) e by simp
  from Suc.IH [OF d'(2) this] obtain d'' where "d'' \<ge> d' - n" "disp bs (p mod length bs) = Some d''" by blast
  then show ?case using d'(1) e by (intro exI [of _ d'']) auto
qed

text \<open>The run from the ideal place of an entry to the entry.\<close>

lemma robin_run:
  assumes "robin bs" "i < length bs" "bs ! i = Some (h, k, v)" "n \<le> dist (length bs) i h"
  shows "\<exists>d \<ge> n. disp bs ((unat h + n) mod length bs) = Some d"
proof -
  let ?d = "dist (length bs) i h"
  have "(unat h + n + (?d - n)) mod length bs = i" using at_dist [OF assms(2), of h] assms(4) by simp
  moreover have "disp bs i = Some ?d" using assms(3) by (simp add: disp_def)
  ultimately show ?thesis
    using robin_back [OF assms(1), of "unat h + n" "?d - n" ?d] assms(2,4) by force
qed

lemma occupied_card: "occupied bs = card {i. i < length bs \<and> bs ! i \<noteq> None}"
  by (simp add: occupied_def length_filter_conv_card)

lemma run_occupied:
  assumes "\<And>j. j < n \<Longrightarrow> bs ! ((p + j) mod length bs) \<noteq> None" "n \<le> length bs"
  shows "n \<le> occupied bs"
proof -
  have "inj_on (\<lambda>j. (p + j) mod length bs) {..<n}"
    using assms(2) by (intro inj_onI) (metis lessThan_iff mod_add_inj order.strict_trans2)
  then have "n = card ((\<lambda>j. (p + j) mod length bs) ` {..<n})" by (simp add: card_image)
  also have "\<dots> \<le> card {i. i < length bs \<and> bs ! i \<noteq> None}"
  proof (intro card_mono subsetI)
    fix i assume "i \<in> (\<lambda>j. (p + j) mod length bs) ` {..<n}"
    then obtain j where j: "j < n" "i = (p + j) mod length bs" by auto
    then have "0 < length bs" using assms(2) by linarith
    with j assms(1) show "i \<in> {i. i < length bs \<and> bs ! i \<noteq> None}" by simp
  qed simp
  finally show ?thesis by (simp add: occupied_card)
qed

lemma run_exhausted:
  assumes "\<And>j. j < n \<Longrightarrow> bs ! ((p + j) mod length bs) \<noteq> None" "n = occupied bs" "n < length bs"
  shows "bs ! ((p + n) mod length bs) = None"
proof (rule ccontr)
  assume "bs ! ((p + n) mod length bs) \<noteq> None"
  with assms(1) have "Suc n \<le> occupied bs"
    by (intro run_occupied) (use assms(3) in \<open>auto simp: less_Suc_eq\<close>)
  with assms(2) show False by simp
qed

lemma dist_occupied:
  assumes "robin bs" "i < length bs" "bs ! i = Some (h, k, v)"
  shows "dist (length bs) i h < occupied bs"
proof -
  have "Suc (dist (length bs) i h) \<le> occupied bs"
  proof (rule run_occupied)
    fix j assume "j < Suc (dist (length bs) i h)"
    then obtain d where "disp bs ((unat h + j) mod length bs) = Some d"
      using robin_run [OF assms, of j] by auto
    then show "bs ! ((unat h + j) mod length bs) \<noteq> None" by (metis disp_eq_None option.distinct(1))
  qed (use assms(2) dist_less [of "length bs" i h] in linarith)
  then show ?thesis by simp
qed

lemma disp_update: "i < length bs \<Longrightarrow>
    disp (bs[i := b]) j = (if j = i then map_option (\<lambda>(h, _). dist (length bs) i h) b else disp bs j)"
  by (auto simp: disp_def)

lemma disp_same: "i < length bs \<Longrightarrow> bs ! i = Some (h, k, v) \<Longrightarrow> disp (bs[i := Some (h, k, w)]) = disp bs"
  by (auto simp: disp_update fun_eq_iff) (simp add: disp_def)

lemma nxt_inj: "i < c \<Longrightarrow> j < c \<Longrightarrow> nxt c i = nxt c j \<Longrightarrow> i = j"
  unfolding nxt_def by (rule mod_add_inj [of _ _ _ 1]) (simp_all add: add.commute)

lemma nxt_at: "nxt c ((p + n) mod c) = (p + Suc n) mod c"
  by (simp add: nxt_def mod_Suc_eq)

text \<open>Putting an entry into an empty bucket, or over an entry that is nearer to its place.\<close>

lemma robin_update:
  assumes "robin bs" "i < length bs" "\<And>h' e. bs ! i = Some (h', e) \<Longrightarrow> dist (length bs) i h' \<le> dist (length bs) i h"
    and pre: "j < length bs" "nxt (length bs) j = i" "\<And>d. dist (length bs) i h = Suc d \<Longrightarrow> \<exists>d' \<ge> d. disp bs j = Some d'"
  shows "robin (bs[i := Some (h, k, v)])"
  unfolding robin_def ordered_at_def
proof (intro allI impI)
  let ?c = "length bs" and ?bs = "bs[i := Some (h, k, v)]"
  fix a d assume a: "a < length ?bs" and d: "disp ?bs (nxt (length ?bs) a) = Some (Suc d)"
  show "\<exists>d' \<ge> d. disp ?bs a = Some d'"
  proof (cases "nxt ?c a = i")
    case True
    then have "a = j" using nxt_inj a pre(1,2) by simp
    have dist: "dist ?c i h = Suc d" using d True assms(2) by (simp add: disp_update)
    show ?thesis
    proof (cases "j = i")
      case True
      then show ?thesis using \<open>a = j\<close> dist assms(2) by (simp add: disp_update)
    next
      case False
      then show ?thesis using pre(3) [OF dist] \<open>a = j\<close> assms(2) by (simp add: disp_update)
    qed
  next
    case False
    then have "disp bs (nxt ?c a) = Some (Suc d)" using d assms(2) by (simp add: disp_update)
    then obtain d' where d': "d' \<ge> d" "disp bs a = Some d'" using assms(1) a by (fastforce simp: robin_def ordered_at_def)
    show ?thesis
    proof (cases "a = i")
      case True
      then obtain h' e where h': "bs ! i = Some (h', e)" using d'(2) by (cases "bs ! i") (auto simp: disp_def)
      then have "dist ?c i h' = d'" using d'(2) True by (simp add: disp_def)
      then show ?thesis using assms(3) [OF h'] d'(1) True assms(2) by (simp add: disp_update)
    next
      case False
      then show ?thesis using d' assms(2) by (simp add: disp_update)
    qed
  qed
qed

text \<open>
  Some bucket is empty or holds an entry at its ideal place.  A table with a free bucket is anchored;
  a table that has just been filled up is so, because in order no entry follows a free bucket displaced.
\<close>

definition anchored :: "('k, 'v) buckets \<Rightarrow> bool" where
  "anchored bs \<longleftrightarrow> (\<exists>i < length bs. \<forall>d. disp bs i \<noteq> Some (Suc d))"

lemma anchored_free: "occupied bs < length bs \<Longrightarrow> anchored bs"
proof -
  assume "occupied bs < length bs"
  then have "filter (\<lambda>b. b \<noteq> None) bs \<noteq> bs" by (auto simp: occupied_def)
  then have "None \<in> set bs" unfolding filter_id_conv by metis
  then obtain i where "i < length bs" "bs ! i = None" by (metis in_set_conv_nth)
  then show ?thesis by (auto simp: anchored_def disp_def)
qed

lemma anchored_fill:
  assumes "robin bs" "p < length bs" "bs ! p = None"
  shows "anchored (bs[p := Some (h, k, v)])"
proof (cases "nxt (length bs) p = p")
  case True
  then have "length bs = 1" using assms(2) by (auto simp: nxt_def mod_Suc split: if_splits)
  then show ?thesis using assms(2) dist_less [of "length bs" p h] by (auto simp: anchored_def disp_update)
next
  case False
  have "nxt (length bs) p < length bs" using assms(2) by (intro nxt_less) linarith
  moreover have "disp bs (nxt (length bs) p) \<noteq> Some (Suc d)" for d
    using assms by (auto simp: robin_def ordered_at_def disp_def)
  ultimately show ?thesis using False assms(2) by (auto simp: anchored_def disp_update)
qed

section \<open>Maps over buckets\<close>

definition hm_buckets :: "('k, 'v) hash_map \<Rightarrow> ('k, 'v) buckets \<Rightarrow> bool" where
  "hm_buckets m bs \<longleftrightarrow> hm_table m = rt_of bs \<and> (\<exists>K \<le> 62. length bs = 2 ^ K) \<and> safe_hashes bs"

lemma hm_buckets_length:
  assumes "hm_buckets m bs"
  shows "0 < length bs" "length bs \<le> 2 ^ 62" "length bs < 2 ^ 64" "bs \<noteq> []"
proof -
  obtain K where K: "K \<le> 62" "length bs = 2 ^ K" using assms by (auto simp: hm_buckets_def)
  have "(2::nat) ^ K \<le> 2 ^ 62" using K(1) by (intro power_increasing) auto
  with K(2) show "0 < length bs" "length bs \<le> 2 ^ 62" "length bs < 2 ^ 64" by auto
  then show "bs \<noteq> []" by auto
qed

lemma mask_power: "unat (x AND (of_nat (2 ^ K) - 1) :: 64 word) = unat x mod 2 ^ K"
proof -
  have "of_nat (2 ^ K) - 1 = (mask K :: 64 word)" by (simp add: mask_eq_exp_minus_1)
  then have "unat (x AND (of_nat (2 ^ K) - 1)) = unat (take_bit K x)" by (simp add: take_bit_eq_mask)
  also have "\<dots> = take_bit K (unat x)" by (rule unsigned_take_bit_eq)
  also have "\<dots> = unat x mod 2 ^ K" by (rule take_bit_eq_mod)
  finally show ?thesis .
qed

lemma probe_eq:
  assumes "hm_buckets m bs" "n < 2 ^ 64"
  shows "probe m h n = (unat h + n) mod length bs"
proof -
  obtain K where K: "K \<le> 62" "length bs = 2 ^ K" "hm_table m = rt_of bs" using assms(1) by (auto simp: hm_buckets_def)
  have "probe m h n = unat (h + of_nat n) mod 2 ^ K" using K mask_power [of "h + of_nat n" K] by (simp add: probe_def)
  also have "unat (h + of_nat n) = (unat h + n) mod 2 ^ 64"
    using assms(2) by (simp add: unat_word_ariths unat_of_nat)
  also have "(unat h + n) mod 2 ^ 64 mod 2 ^ K = (unat h + n) mod 2 ^ K"
    using K(1) by (intro mod_mod_cancel le_imp_power_dvd) simp
  finally show ?thesis using K(2) by simp
qed

lemma probe_next_eq:
  assumes "hm_buckets m bs" "p < length bs"
  shows "probe_next m p = nxt (length bs) p"
proof -
  obtain K where K: "K \<le> 62" "length bs = 2 ^ K" "hm_table m = rt_of bs" using assms(1) by (auto simp: hm_buckets_def)
  have "Suc p < 2 ^ 64" using assms(2) hm_buckets_length(2) [OF assms(1)] by simp
  then have "unat (of_nat (Suc p) :: 64 word) = Suc p" by (simp add: unat_of_nat del: of_nat_Suc)
  then have "unat (of_nat p + 1 :: 64 word) = Suc p" by (simp add: add.commute)
  then show ?thesis using K mask_power [of "of_nat p + 1" K] by (simp add: probe_next_def nxt_def)
qed

lemma bucket_distance_eq:
  assumes "hm_buckets m bs" "i < length bs"
  shows "bucket_distance m i h = dist (length bs) i h"
proof -
  have "probe m h 0 = unat h mod length bs" using probe_eq [OF assms(1), of 0] by simp
  moreover have "unat h mod length bs < length bs" using assms(2) by (intro mod_less_divisor) linarith
  moreover have "rt_capacity (hm_table m) = length bs" using assms(1) by (simp add: hm_buckets_def)
  ultimately show ?thesis using assms(2)
    by (auto simp: bucket_distance_def dist_def Let_def le_mod_geq)
qed

lemma peek_eq:
  assumes "hm_buckets m bs" "i < length bs"
  shows "peek (hm_table m) i = Some (case bs ! i of None \<Rightarrow> Empty i | Some (h, _) \<Rightarrow> Full i h)"
  using assms peek_of [of bs i] by (simp add: hm_buckets_def)

lemma hm_buckets_update:
  "hm_buckets m bs \<Longrightarrow> (\<And>h k v. b = Some (h, k, v) \<Longrightarrow> h \<noteq> 0) \<Longrightarrow> hm_buckets (m\<lparr>hm_table := rt_of (bs[i := b])\<rparr>) (bs[i := b])"
  by (simp add: hm_buckets_def safe_hashes_update)

lemma hm_buckets_table [simp]: "hm_buckets m bs \<Longrightarrow> m\<lparr>hm_table := rt_of bs\<rparr> = m"
  by (simp add: hm_buckets_def)

section \<open>Robin Hood insertion\<close>

text \<open>
  \<open>approach bs s n h\<close>: an entry with hash \<open>h\<close> has been carried to the \<open>n\<close>th bucket after \<open>s\<close>; all
  buckets before are full, and the last of them is not nearer to its place than the entry was there.
\<close>

definition approach :: "('k, 'v) buckets \<Rightarrow> nat \<Rightarrow> nat \<Rightarrow> 64 word \<Rightarrow> bool" where
  "approach bs s n h \<longleftrightarrow> n < length bs \<and> (\<forall>j < n. bs ! ((s + j) mod length bs) \<noteq> None) \<and>
     dist (length bs) ((s + n) mod length bs) h \<le> n \<and>
     (0 < n \<longrightarrow> (\<exists>d. disp bs ((s + (n - 1)) mod length bs) = Some d \<and> dist (length bs) ((s + n) mod length bs) h \<le> Suc d))"

lemma approach_occupied: "approach bs s n h \<Longrightarrow> n \<le> occupied bs"
  by (rule run_occupied [of n bs s]) (auto simp: approach_def)

lemma approach_pre:
  assumes "approach bs s n h" "bs \<noteq> []"
  shows "\<exists>j < length bs. nxt (length bs) j = (s + n) mod length bs \<and>
    (\<forall>d. dist (length bs) ((s + n) mod length bs) h = Suc d \<longrightarrow> (\<exists>d' \<ge> d. disp bs j = Some d'))"
proof (cases n)
  case 0
  let ?j = "(s + (length bs - 1)) mod length bs"
  have "nxt (length bs) ?j = (s + n) mod length bs" using 0 assms(2) by (simp add: nxt_at)
  with 0 assms show ?thesis by (intro exI [of _ ?j]) (auto simp: approach_def)
next
  case (Suc n')
  then show ?thesis using assms nxt_at [of "length bs" s n']
    by (intro exI [of _ "(s + n') mod length bs"]) (auto simp: approach_def)
qed

lemma approach_put:
  assumes "robin bs" "approach bs s n h" "bs \<noteq> []"
    "\<And>h' e. bs ! ((s + n) mod length bs) = Some (h', e) \<Longrightarrow>
      dist (length bs) ((s + n) mod length bs) h' \<le> dist (length bs) ((s + n) mod length bs) h"
  shows "robin (bs[(s + n) mod length bs := Some (h, k, v)])"
  using approach_pre [OF assms(2,3)] assms(3) robin_update [OF assms(1) _ assms(4)] by auto

lemma approach_step:
  assumes "approach bs s n h" "occupied bs < length bs" "bs ! ((s + n) mod length bs) = Some (h', e)"
    "dist (length bs) ((s + n) mod length bs) h \<le> dist (length bs) ((s + n) mod length bs) h'"
  shows "approach bs s (Suc n) h"
    "dist (length bs) ((s + Suc n) mod length bs) h = Suc (dist (length bs) ((s + n) mod length bs) h)"
proof -
  let ?c = "length bs" and ?p = "(s + n) mod length bs"
  have c: "0 < ?c" using assms(2) by linarith
  have full: "\<forall>j < Suc n. bs ! ((s + j) mod ?c) \<noteq> None" using assms(1,3) by (auto simp: approach_def less_Suc_eq)
  have "Suc n \<le> occupied bs" using full assms(1) by (intro run_occupied [of "Suc n" bs s]) (auto simp: approach_def)
  then have n: "Suc n < ?c" using assms(2) by simp
  have "dist ?c ?p h + 1 < ?c" using assms(1) n by (simp add: approach_def)
  then show step: "dist ?c ((s + Suc n) mod ?c) h = Suc (dist ?c ?p h)"
    using dist_nxt_less [of ?p ?c h] c by (simp add: nxt_at)
  have "disp bs ?p = Some (dist ?c ?p h')" using assms(3) by (simp add: disp_def)
  with full n step assms(1,4) show "approach bs s (Suc n) h" by (simp add: approach_def)
qed

lemma robin_hood_loop_ok:
  assumes m: "hm_buckets m bs" "length bs = c" "occupied bs = z" "z < c"
    and "approach bs s n h" "dist c ((s + n) mod c) h = d" "d < n"
  shows "\<exists>n' \<ge> n. approach bs s n' h \<and>
    (case bs ! ((s + n') mod c) of
       None \<Rightarrow> robin_hood_loop m (h, k, v) ((s + n) mod c) [d ..< z] =
           Some (Inl (m\<lparr>hm_table := rt_of (bs[(s + n') mod c := Some (h, k, v)])\<rparr>))
     | Some (h', _) \<Rightarrow> dist c ((s + n') mod c) h' < dist c ((s + n') mod c) h \<and>
         robin_hood_loop m (h, k, v) ((s + n) mod c) [d ..< z] = Some (Inr ((s + n') mod c, dist c ((s + n') mod c) h')))"
  using assms(5-7)
proof (induction "z - n" arbitrary: n d rule: less_induct)
  case less
  let ?p = "(s + n) mod c"
  have n: "n \<le> z" using approach_occupied [OF less.prems(1)] m(3) by simp
  then have list: "[d ..< z] = d # [Suc d ..< z]" using less.prems(3) by (simp add: upt_conv_Cons)
  have p: "?p < length bs" using hm_buckets_length [OF m(1)] m(2) by simp
  note peek = peek_eq [OF m(1) p] and bd = bucket_distance_eq [OF m(1) p, unfolded m(2)]
  have table: "hm_table m = rt_of bs" using m(1) by (simp add: hm_buckets_def)
  show ?case
  proof (cases "bs ! ?p")
    case None
    with put_of [OF p None, of h k v] peek list table less.prems(1) show ?thesis
      by (intro exI [of _ n]) simp
  next
    case (Some e)
    obtain h' kv where e: "e = (h', kv)" by (cases e)
    show ?thesis
    proof (cases "dist c ?p h' < d")
      case True
      with Some e peek bd list less.prems(1,2) show ?thesis
        by (intro exI [of _ n]) (simp add: Let_def)
    next
      case False
      have app: "approach bs s (Suc n) h" and d: "dist c ((s + Suc n) mod c) h = Suc d"
        using approach_step [OF less.prems(1), of h' kv] m(2-4) Some e less.prems(2) False by auto
      have "z - Suc n < z - n" using approach_occupied [OF app] m(3) by simp
      moreover have "Suc d < Suc n" using less.prems(3) by simp
      ultimately obtain n' where n': "Suc n \<le> n'" "approach bs s n' h"
        and res: "case bs ! ((s + n') mod c) of
           None \<Rightarrow> robin_hood_loop m (h, k, v) ((s + Suc n) mod c) [Suc d ..< z] =
             Some (Inl (m\<lparr>hm_table := rt_of (bs[(s + n') mod c := Some (h, k, v)])\<rparr>))
         | Some (h', _) \<Rightarrow> dist c ((s + n') mod c) h' < dist c ((s + n') mod c) h \<and>
             robin_hood_loop m (h, k, v) ((s + Suc n) mod c) [Suc d ..< z] =
               Some (Inr ((s + n') mod c, dist c ((s + n') mod c) h'))"
        using less.hyps [OF _ app d] by blast
      have "robin_hood_loop m (h, k, v) ?p [d ..< z] = robin_hood_loop m (h, k, v) ((s + Suc n) mod c) [Suc d ..< z]"
        unfolding list using Some e peek bd False probe_next_eq [OF m(1) p] m(2) by (simp add: Let_def nxt_at)
      then show ?thesis using n' res by (intro exI [of _ n']) (auto split: option.splits)
    qed
  qed
qed

lemma robin_hood_loop_cases:
  assumes "hm_buckets m bs" "length bs = c" "occupied bs = z" "z < c" "approach bs s n h" "dist c ((s + n) mod c) h = d" "d < n"
  obtains (hole) n' where "n \<le> n'" "approach bs s n' h" "bs ! ((s + n') mod c) = None"
      "robin_hood_loop m (h, k, v) ((s + n) mod c) [d ..< z] =
         Some (Inl (m\<lparr>hm_table := rt_of (bs[(s + n') mod c := Some (h, k, v)])\<rparr>))"
  | (steal) n' h' k' v' where "n \<le> n'" "approach bs s n' h" "bs ! ((s + n') mod c) = Some (h', k', v')"
      "dist c ((s + n') mod c) h' < dist c ((s + n') mod c) h"
      "robin_hood_loop m (h, k, v) ((s + n) mod c) [d ..< z] = Some (Inr ((s + n') mod c, dist c ((s + n') mod c) h'))"
proof -
  obtain n' where n': "n \<le> n'" "approach bs s n' h" and res: "case bs ! ((s + n') mod c) of
       None \<Rightarrow> robin_hood_loop m (h, k, v) ((s + n) mod c) [d ..< z] =
           Some (Inl (m\<lparr>hm_table := rt_of (bs[(s + n') mod c := Some (h, k, v)])\<rparr>))
     | Some (h', _) \<Rightarrow> dist c ((s + n') mod c) h' < dist c ((s + n') mod c) h \<and>
         robin_hood_loop m (h, k, v) ((s + n) mod c) [d ..< z] = Some (Inr ((s + n') mod c, dist c ((s + n') mod c) h'))"
    using robin_hood_loop_ok [OF assms] by blast
  show thesis
  proof (cases "bs ! ((s + n') mod c)")
    case None
    with n' res show ?thesis by (intro hole [of n']) simp_all
  next
    case (Some e)
    then show ?thesis using n' res by (cases e) (intro steal [of n'], auto)
  qed
qed

lemma robin_hood_ok:
  assumes "hm_buckets m bs" "robin bs" "occupied bs < length bs" "approach bs s n h" "h \<noteq> 0"
    "bs ! ((s + n) mod length bs) = Some (h0, k0, v0)"
    "dist (length bs) ((s + n) mod length bs) h0 < dist (length bs) ((s + n) mod length bs) h"
  shows "\<exists>bs'. robin_hood m ((s + n) mod length bs) (dist (length bs) ((s + n) mod length bs) h0) h k v =
      Some (m\<lparr>hm_table := rt_of bs'\<rparr>) \<and>
    robin bs' \<and> anchored bs' \<and> length bs' = length bs \<and> add_mset None (mset bs') = add_mset (Some (h, k, v)) (mset bs) \<and>
    bs' ! ((s + n) mod length bs) = Some (h, k, v) \<and> (\<forall>j < n. bs' ! ((s + j) mod length bs) = bs ! ((s + j) mod length bs))"
  using assms
proof (induction "length bs - n" arbitrary: m bs n h k v h0 k0 v0 rule: less_induct)
  case less
  let ?c = "length bs"
  let ?p = "(s + n) mod ?c"
  let ?bs = "bs[?p := Some (h, k, v)]"
  let ?m = "m\<lparr>hm_table := rt_of ?bs\<rparr>"
  have p: "?p < ?c" using hm_buckets_length [OF less.prems(1)] by simp
  have m: "hm_buckets ?m ?bs" using hm_buckets_update [OF less.prems(1), of "Some (h, k, v)"] less.prems(5) by simp
  have robin: "robin ?bs"
    using less.prems hm_buckets_length(4) [OF less.prems(1)] by (intro approach_put) auto
  have occ: "occupied ?bs = occupied bs" using less.prems(6) p by (simp add: occupied_replace)
  have "Some (h0, k0, v0) \<in> set bs" using less.prems(6) p by (metis nth_mem)
  then have h0: "h0 \<noteq> 0" using less.prems(1) by (auto simp: hm_buckets_def safe_hashes_def)
  have full: "?bs ! ((s + j) mod ?c) \<noteq> None" if "j < Suc n" for j
    using that less.prems(4,6) p by (cases "(s + j) mod ?c = ?p") (auto simp: approach_def less_Suc_eq)
  have "Suc n \<le> occupied ?bs" by (rule run_occupied [of _ _ s]) (use full less.prems(4) in \<open>auto simp: approach_def\<close>)
  then have n: "Suc n < ?c" using occ less.prems(3) by simp
  have d0: "dist ?c ?p h0 < n" using less.prems(4,7) by (simp add: approach_def)
  then have d1: "dist ?c ((s + Suc n) mod ?c) h0 = Suc (dist ?c ?p h0)"
    using dist_nxt_less [OF p, of h0] n by (simp add: nxt_at)
  have "disp ?bs ?p = Some (dist ?c ?p h)" using p by (simp add: disp_update)
  then have app: "approach ?bs s (Suc n) h0" using full n d0 d1 less.prems(7) by (simp add: approach_def)
  have "hm_table m = rt_of bs" using less.prems(1) by (simp add: hm_buckets_def)
  note replace = replace_all_of [OF p less.prems(6), of h k v, folded this]
  have mset: "add_mset (Some (h0, k0, v0)) (mset ?bs) = add_mset (Some (h, k, v)) (mset bs)"
    using p less.prems(6) by (simp add: mset_update insert_DiffM flip: less.prems(6))
  have ne: "(s + j) mod ?c \<noteq> (s + n') mod ?c" if "j < n'" "n' < ?c" for j n'
    using mod_add_inj [of j ?c n' s] that by auto
  note unfold = robin_hood.simps [of m ?p "dist ?c ?p h0" h k v] replace probe_next_eq [OF m] nxt_at occ p Let_def
  have ln: "length ?bs = ?c" by simp
  have "Suc (dist ?c ?p h0) < Suc n" using d0 by simp
  from m ln occ less.prems(3) app d1 this show ?case
  proof (cases rule: robin_hood_loop_cases [where k = k0 and v = v0])
    case (hole n')
    let ?bs' = "?bs[(s + n') mod ?c := Some (h0, k0, v0)]"
    have n'c: "n' < ?c" using hole(2) by (simp add: approach_def)
    have p': "(s + n') mod ?c < ?c" using p by (intro mod_less_divisor) linarith
    have "robin ?bs'" using approach_put [OF robin hole(2)] hole(3) hm_buckets_length(4) [OF less.prems(1)] by simp
    moreover have "anchored ?bs'" using anchored_fill [OF robin _ hole(3)] p' by simp
    moreover have "add_mset None (mset ?bs') = add_mset (Some (h0, k0, v0)) (mset ?bs)"
      using p' by (simp add: mset_update insert_DiffM flip: hole(3))
    moreover have "robin_hood m ?p (dist ?c ?p h0) h k v = Some (m\<lparr>hm_table := rt_of ?bs'\<rparr>)"
      using hole(4) by (simp add: unfold)
    moreover have keep: "?bs' ! ((s + j) mod ?c) = ?bs ! ((s + j) mod ?c)" if "j < n'" for j
      using ne [OF that n'c, symmetric] by simp
    have "?bs' ! ?p = Some (h, k, v)" using keep [of n] hole(1) p by simp
    moreover have "?bs' ! ((s + j) mod ?c) = bs ! ((s + j) mod ?c)" if "j < n" for j
      using keep [of j] ne [OF that, symmetric] that hole(1) n by simp
    ultimately show ?thesis using mset by (intro exI [of _ ?bs']) simp
  next
    case (steal n' h' k' v')
    have n'c: "n' < ?c" using steal(2) by (simp add: approach_def)
    have call: "robin_hood m ?p (dist ?c ?p h0) h k v =
        robin_hood ?m ((s + n') mod ?c) (dist ?c ((s + n') mod ?c) h') h0 k0 v0"
      using steal(5) by (simp add: unfold)
    have "length bs - n' < length bs - n" using steal(1) n'c by linarith
    with less.hyps [of ?bs n' ?m h0 h' k' v' k0 v0] steal n'c m robin occ less.prems(3) h0
    obtain bs' where bs': "robin_hood ?m ((s + n') mod ?c) (dist ?c ((s + n') mod ?c) h') h0 k0 v0 = Some (?m\<lparr>hm_table := rt_of bs'\<rparr>)"
      "robin bs'" "anchored bs'" "length bs' = length ?bs" "add_mset None (mset bs') = add_mset (Some (h0, k0, v0)) (mset ?bs)"
      "\<forall>j < n'. bs' ! ((s + j) mod ?c) = ?bs ! ((s + j) mod ?c)" by auto
    have "bs' ! ?p = Some (h, k, v)" using bs'(6) steal(1) p by simp
    moreover have "bs' ! ((s + j) mod ?c) = bs ! ((s + j) mod ?c)" if "j < n" for j
      using bs'(6) steal(1) ne [OF that, symmetric] that n by simp
    ultimately show ?thesis using bs' mset call by (intro exI [of _ bs']) simp
  qed
qed

section \<open>Searching\<close>

text \<open>An entry is not found beyond an empty bucket or one that is nearer to its place.\<close>

lemma not_beyond:
  assumes "robin bs" "i < length bs" "bs ! i = Some (h, k, v)"
    "\<And>d. disp bs ((unat h + n) mod length bs) = Some d \<Longrightarrow> d < n"
  shows "dist (length bs) i h < n"
proof (rule ccontr)
  assume "\<not> dist (length bs) i h < n"
  then obtain d where "d \<ge> n" "disp bs ((unat h + n) mod length bs) = Some d"
    using robin_run [OF assms(1-3), of n] by auto
  with assms(4) show False by fastforce
qed

lemma found_before:
  assumes "i < length bs" "dist (length bs) i h < n" "\<And>j. j < n \<Longrightarrow> \<not> P (bs ! ((unat h + j) mod length bs))"
  shows "\<not> P (bs ! i)"
  using assms(3) [OF assms(2)] at_dist [OF assms(1), of h] by simp

lemma search_loop_ok:
  assumes m: "hm_buckets m bs" "robin bs"
    and "n \<le> occupied bs" "\<And>j. j < n \<Longrightarrow> \<not> (\<exists>k v. bs ! ((unat h + j) mod length bs) = Some (h, k, v) \<and> is_match k)"
  shows "\<exists>r. search_loop m h is_match [n ..< occupied bs] = Some r \<and>
    (case r of
       None \<Rightarrow> \<forall>i < length bs. \<forall>k v. bs ! i = Some (h, k, v) \<longrightarrow> \<not> is_match k
     | Some (i, h') \<Rightarrow> h' = h \<and> i < length bs \<and> (\<exists>k v. bs ! i = Some (h, k, v) \<and> is_match k))"
  using assms(3,4)
proof (induction "occupied bs - n" arbitrary: n)
  case 0
  have "\<not> is_match k" if i: "i < length bs" "bs ! i = Some (h, k, v)" for i k v
  proof -
    have "dist (length bs) i h < n" using dist_occupied [OF m(2) i] 0 by simp
    from found_before [where P = "\<lambda>b. \<exists>k v. b = Some (h, k, v) \<and> is_match k", OF i(1) this] 0 i(2) show ?thesis by auto
  qed
  with 0 show ?case by simp
next
  case (Suc x)
  let ?c = "length bs"
  let ?p = "(unat h + n) mod ?c"
  have c: "0 < ?c" using hm_buckets_length [OF m(1)] by simp
  then have p: "?p < ?c" by simp
  have n: "n < occupied bs" using Suc.hyps(2) by simp
  then have list: "[n ..< occupied bs] = n # [Suc n ..< occupied bs]" by (simp add: upt_conv_Cons)
  have "n < 2 ^ 64" using n occupied_le [of bs] hm_buckets_length(3) [OF m(1)] by linarith
  note unfold = list probe_eq [OF m(1) this] peek_eq [OF m(1) p] bucket_distance_eq [OF m(1) p]
  have stop: "\<forall>i < length bs. \<forall>k v. bs ! i = Some (h, k, v) \<longrightarrow> \<not> is_match k"
    if "\<And>d. disp bs ?p = Some d \<Longrightarrow> d < n"
  proof (intro allI impI)
    fix i k v assume i: "i < ?c" "bs ! i = Some (h, k, v)"
    from found_before [where P = "\<lambda>b. \<exists>k v. b = Some (h, k, v) \<and> is_match k", OF i(1) not_beyond [OF m(2) i that]]
    show "\<not> is_match k" using Suc.prems(2) i(2) by auto
  qed
  show ?case
  proof (cases "bs ! ?p")
    case None
    have "\<forall>i < length bs. \<forall>k v. bs ! i = Some (h, k, v) \<longrightarrow> \<not> is_match k"
      by (rule stop) (use None in \<open>simp add: disp_def\<close>)
    with None show ?thesis by (simp add: unfold)
  next
    case (Some e)
    obtain h' k v where e: "e = (h', k, v)" by (cases e)
    have rd: "rt_read (hm_table m) ?p = Some (k, v)"
      using read_of [OF p Some [unfolded e]] m(1) by (simp add: hm_buckets_def)
    consider "dist ?c ?p h' < n" | "n \<le> dist ?c ?p h'" "h' = h" "is_match k" | "n \<le> dist ?c ?p h'" "h' \<noteq> h \<or> \<not> is_match k"
      by linarith
    then show ?thesis
    proof cases
      case 1
      have "\<forall>i < length bs. \<forall>k v. bs ! i = Some (h, k, v) \<longrightarrow> \<not> is_match k"
        by (rule stop) (use 1 Some e in \<open>simp add: disp_def\<close>)
      with 1 Some e show ?thesis by (simp add: unfold)
    next
      case 2
      with Some e p rd show ?thesis by (simp add: unfold)
    next
      case 3
      have before: "\<not> (\<exists>k v. bs ! ((unat h + j) mod ?c) = Some (h, k, v) \<and> is_match k)" if "j < Suc n" for j
        using that Suc.prems(2) Some e 3 by (auto simp: less_Suc_eq)
      have "x = occupied bs - Suc n" "Suc n \<le> occupied bs" using Suc.hyps(2) n by simp_all
      from Suc.hyps(1) [OF this before] obtain r where
        r: "search_loop m h is_match [Suc n ..< occupied bs] = Some r" "case r of
       None \<Rightarrow> \<forall>i < length bs. \<forall>k v. bs ! i = Some (h, k, v) \<longrightarrow> \<not> is_match k
     | Some (i, h') \<Rightarrow> h' = h \<and> i < length bs \<and> (\<exists>k v. bs ! i = Some (h, k, v) \<and> is_match k)" by blast
      have "search_loop m h is_match [n ..< occupied bs] = search_loop m h is_match [Suc n ..< occupied bs]"
        using 3 Some e rd by (auto simp: unfold)
      with r show ?thesis by simp
    qed
  qed
qed

lemma search_generic_ok:
  assumes "hm_buckets m bs" "robin bs"
  shows "\<exists>r. search_hashed_generic m h is_match = Some r \<and>
    (case r of
       None \<Rightarrow> \<forall>i < length bs. \<forall>k v. bs ! i = Some (h, k, v) \<longrightarrow> \<not> is_match k
     | Some (i, h') \<Rightarrow> h' = h \<and> i < length bs \<and> (\<exists>k v. bs ! i = Some (h, k, v) \<and> is_match k))"
  using search_loop_ok [OF assms, of 0 h is_match] assms(1) by (simp add: search_hashed_generic_def hm_buckets_def)

section \<open>Inserting\<close>

lemma approach_start:
  assumes "bs \<noteq> []"
  shows "approach bs (unat h) 0 h"
  using assms dist_at [of "length bs" h 0] by (simp add: approach_def)

text \<open>What the two insertion loops do: they find the key, or put the entry in.\<close>

definition put_result :: "('k, 'v) hash_map \<Rightarrow> ('k, 'v) buckets \<Rightarrow> 64 word \<times> 'k \<times> 'v \<Rightarrow> nat \<Rightarrow> ('k, 'v) hash_map \<Rightarrow> bool" where
  "put_result m bs e i m' \<longleftrightarrow> (\<exists>bs'. m' = m\<lparr>hm_table := rt_of bs'\<rparr> \<and> robin bs' \<and> anchored bs' \<and> length bs' = length bs \<and>
     add_mset None (mset bs') = add_mset (Some e) (mset bs) \<and> i < length bs \<and> bs' ! i = Some e)"

lemma loops_ok:
  assumes m: "hm_buckets m bs" "robin bs" "occupied bs < length bs" "h \<noteq> 0"
    and "approach bs (unat h) n h" "\<And>j. j < n \<Longrightarrow> \<not> (\<exists>v. bs ! ((unat h + j) mod length bs) = Some (h, k, v))"
  shows "(\<exists>i v0. i < length bs \<and> bs ! i = Some (h, k, v0) \<and>
        insert_loop m h k v [n ..< Suc (occupied bs)] = Some (i, m) \<and>
        swap_loop m h k v [n ..< Suc (occupied bs)] = Some (Some v0, m\<lparr>hm_table := rt_of (bs[i := Some (h, k, v)])\<rparr>)) \<or>
     ((\<forall>i < length bs. \<forall>v0. bs ! i \<noteq> Some (h, k, v0)) \<and>
      (\<exists>i m'. insert_loop m h k v [n ..< Suc (occupied bs)] = Some (i, m') \<and>
        swap_loop m h k v [n ..< Suc (occupied bs)] = Some (None, m') \<and> put_result m bs (h, k, v) i m'))"
    (is "?found n \<or> ?put n")
  using assms(5,6)
proof (induction "occupied bs - n" arbitrary: n rule: less_induct)
  case less
  let ?c = "length bs"
  let ?p = "(unat h + n) mod ?c"
  have c: "0 < ?c" "bs \<noteq> []" using hm_buckets_length [OF m(1)] by simp_all
  then have p: "?p < ?c" by simp
  have n: "n \<le> occupied bs" using approach_occupied [OF less.prems(1)] .
  then have list: "[n ..< Suc (occupied bs)] = n # [Suc n ..< Suc (occupied bs)]" by (simp add: upt_conv_Cons)
  have "n < 2 ^ 64" using n occupied_le [of bs] hm_buckets_length(3) [OF m(1)] by linarith
  have table: "hm_table m = rt_of bs" using m(1) by (simp add: hm_buckets_def)
  note unfold = list probe_eq [OF m(1) \<open>n < 2 ^ 64\<close>] peek_eq [OF m(1) p, unfolded table] bucket_distance_eq [OF m(1) p] table
  have at: "dist ?c ?p h = n" using dist_at [OF c(1), of h n] n m(3) by simp
  have absent: "\<forall>i < length bs. \<forall>v0. bs ! i \<noteq> Some (h, k, v0)" if "\<And>d. disp bs ?p = Some d \<Longrightarrow> d < n"
  proof (intro allI impI notI)
    fix i v0 assume i: "i < ?c" "bs ! i = Some (h, k, v0)"
    from found_before [where P = "\<lambda>b. \<exists>v. b = Some (h, k, v)", OF i(1) not_beyond [OF m(2) i that]]
    show False using less.prems(2) i(2) by auto
  qed
  show ?case
  proof (cases "bs ! ?p")
    case None
    let ?bs = "bs[?p := Some (h, k, v)]"
    have "robin ?bs" using approach_put [OF m(2) less.prems(1) c(2)] None by simp
    moreover have "anchored ?bs" using anchored_fill [OF m(2) p None] .
    moreover have "add_mset None (mset ?bs) = add_mset (Some (h, k, v)) (mset bs)"
      using p by (simp add: mset_update insert_DiffM flip: None)
    ultimately have "put_result m bs (h, k, v) ?p (m\<lparr>hm_table := rt_of ?bs\<rparr>)"
      using p unfolding put_result_def by (intro exI [of _ ?bs]) simp
    moreover have "\<forall>i < length bs. \<forall>v0. bs ! i \<noteq> Some (h, k, v0)" by (rule absent) (use None in \<open>simp add: disp_def\<close>)
    ultimately show ?thesis using None put_of [OF p None, of h k v] by (auto simp: unfold simp del: upt_Suc)
  next
    case (Some e)
    obtain h' k' v' where e: "e = (h', k', v')" by (cases e)
    note bs_p = Some [unfolded e]
    have read: "rt_read (rt_of bs) ?p = Some (k', v')" using read_of [OF p bs_p] .
    consider "h' = h" "k' = k" | "\<not> (h' = h \<and> k' = k)" "dist ?c ?p h' < n" | "\<not> (h' = h \<and> k' = k)" "n \<le> dist ?c ?p h'"
      by linarith
    then show ?thesis
    proof cases
      case 1
      then have "?found n" using bs_p p read replace_val_of [OF p bs_p, of v]
        by (intro exI [of _ ?p] exI [of _ v']) (simp add: unfold del: upt_Suc)
      then show ?thesis ..
    next
      case 2
      from robin_hood_ok [OF m(1-3) less.prems(1) m(4) bs_p, of k v] 2 at obtain bs' where
        bs': "robin_hood m ?p (dist ?c ?p h') h k v = Some (m\<lparr>hm_table := rt_of bs'\<rparr>)" "robin bs'" "length bs' = ?c" "anchored bs'"
          "add_mset None (mset bs') = add_mset (Some (h, k, v)) (mset bs)" "bs' ! ?p = Some (h, k, v)" by auto
      have "set bs' \<subseteq> insert (Some (h, k, v)) (set bs)"
        using bs'(5) by (metis set_mset_add_mset_insert set_mset_mset subset_insertI)
      then have "safe_hashes bs'" using m(1,4) by (auto simp: hm_buckets_def safe_hashes_def)
      then have m': "hm_buckets (m\<lparr>hm_table := rt_of bs'\<rparr>) bs'" using m(1) bs'(3) by (simp add: hm_buckets_def)
      have "put_result m bs (h, k, v) ?p (m\<lparr>hm_table := rt_of bs'\<rparr>)"
        unfolding put_result_def using bs' p by (intro exI [of _ bs']) simp
      moreover have "\<forall>i < length bs. \<forall>v0. bs ! i \<noteq> Some (h, k, v0)" by (rule absent) (use 2 bs_p in \<open>simp add: disp_def\<close>)
      moreover have "peek (hm_table (m\<lparr>hm_table := rt_of bs'\<rparr>)) (probe (m\<lparr>hm_table := rt_of bs'\<rparr>) h n) = Some (Full ?p h)"
        using peek_eq [OF m', of ?p] probe_eq [OF m' \<open>n < 2 ^ 64\<close>, of h] bs' p by simp
      ultimately show ?thesis using 2 bs_p bs'(1) read
        by (auto simp: unfold Let_def simp del: upt_Suc)
    next
      case 3
      have app: "approach bs (unat h) (Suc n) h" using approach_step [OF less.prems(1) m(3) bs_p] 3(2) at by simp
      have "\<not> (\<exists>v. bs ! ((unat h + j) mod ?c) = Some (h, k, v))" if "j < Suc n" for j
        using that less.prems(2) bs_p 3(1) by (auto simp: less_Suc_eq)
      moreover have "occupied bs - Suc n < occupied bs - n" using approach_occupied [OF app] by simp
      ultimately have IH: "?found (Suc n) \<or> ?put (Suc n)" using less.hyps [OF _ app] by blast
      have "insert_loop m h k v [n ..< Suc (occupied bs)] = insert_loop m h k v [Suc n ..< Suc (occupied bs)]"
        "swap_loop m h k v [n ..< Suc (occupied bs)] = swap_loop m h k v [Suc n ..< Suc (occupied bs)]"
        unfolding list using 3 bs_p read by (auto simp: unfold(2-) Let_def simp del: upt_Suc)
      with IH show ?thesis by (simp del: upt_Suc)
    qed
  qed
qed

section \<open>Removing\<close>

text \<open>
  A table with a gap at \<open>p\<close>: in order everywhere else, and the bucket behind the gap would still be
  in order if it were moved into it.
\<close>

definition gap :: "('k, 'v) buckets \<Rightarrow> nat \<Rightarrow> bool" where
  "gap bs p \<longleftrightarrow> p < length bs \<and> bs ! p = None \<and> (\<forall>i < length bs. i \<noteq> p \<longrightarrow> ordered_at bs i) \<and>
     (\<forall>j < length bs. \<forall>d. nxt (length bs) j = p \<longrightarrow> disp bs (nxt (length bs) p) = Some (Suc (Suc d)) \<longrightarrow>
        (\<exists>d' \<ge> d. disp bs j = Some d'))"

lemma gap_ordered: "gap bs p \<Longrightarrow> i < length bs \<Longrightarrow> i \<noteq> p \<Longrightarrow> disp bs (nxt (length bs) i) = Some (Suc d) \<Longrightarrow>
    \<exists>d' \<ge> d. disp bs i = Some d'"
  by (simp add: gap_def ordered_at_def)

lemma gap_behind: "gap bs p \<Longrightarrow> j < length bs \<Longrightarrow> nxt (length bs) j = p \<Longrightarrow>
    disp bs (nxt (length bs) p) = Some (Suc (Suc d)) \<Longrightarrow> \<exists>d' \<ge> d. disp bs j = Some d'"
  by (simp add: gap_def)

lemma gap_start:
  assumes "robin bs" "p < length bs" "bs ! p = Some e"
  shows "gap (bs[p := None]) p"
proof -
  let ?c = "length bs" and ?bs = "bs[p := None]"
  have "ordered_at ?bs i" if "i < ?c" "i \<noteq> p" for i
    using assms(1,2) that by (auto simp: robin_def ordered_at_def disp_update)
  moreover have "\<exists>d' \<ge> d. disp ?bs j = Some d'"
    if j: "j < ?c" "nxt ?c j = p" "disp ?bs (nxt ?c p) = Some (Suc (Suc d))" for j d
  proof -
    have "nxt ?c p \<noteq> p" using j(3) assms(2) by (auto simp: disp_update)
    then have "disp bs (nxt ?c p) = Some (Suc (Suc d))" "j \<noteq> p" using j assms(2) by (auto simp: disp_update)
    then obtain d1 where "d1 \<ge> Suc d" "disp bs p = Some d1" "j \<noteq> p"
      using assms(1,2) by (fastforce simp: robin_def ordered_at_def)
    then obtain d1' where "disp bs (nxt ?c j) = Some (Suc d1')" "d \<le> d1'" "j \<noteq> p" using j(2) by (cases d1) auto
    then obtain d2 where "d2 \<ge> d1'" "disp bs j = Some d2"
      using assms(1) j(1) by (fastforce simp: robin_def ordered_at_def)
    then show ?thesis using \<open>d \<le> d1'\<close> \<open>j \<noteq> p\<close> assms(2) by (intro exI [of _ d2]) (simp add: disp_update)
  qed
  ultimately show ?thesis using assms(2) by (simp add: gap_def)
qed

lemma gap_done:
  assumes "gap bs p" "\<And>d. disp bs (nxt (length bs) p) \<noteq> Some (Suc d)"
  shows "robin bs"
  using assms by (auto simp: gap_def robin_def ordered_at_def)

lemma gap_step:
  assumes gap: "gap bs p" and next_full: "bs ! nxt (length bs) p = Some (h, k, v)" "disp bs (nxt (length bs) p) = Some (Suc d)"
  shows "gap (bs[p := Some (h, k, v), nxt (length bs) p := None]) (nxt (length bs) p)"
proof -
  let ?c = "length bs"
  let ?q = "nxt ?c p"
  let ?bs = "bs[p := Some (h, k, v), ?q := None]"
  have p: "p < ?c" "bs ! p = None" using gap by (simp_all add: gap_def)
  then have q: "?q < ?c" by (intro nxt_less) linarith
  have pq: "p \<noteq> ?q" using p(2) next_full(1) by auto
  have "dist ?c ?q h = Suc d" using next_full by (simp add: disp_def)
  then have d: "dist ?c p h = d" by (rule dist_nxt_Suc [OF p(1)])
  have disp: "disp ?bs i = (if i = ?q then None else if i = p then Some d else disp bs i)" for i
    using p(1) q d by (simp add: disp_update)
  have "ordered_at ?bs i" if i: "i < ?c" "i \<noteq> ?q" for i
    unfolding ordered_at_def
  proof (intro allI impI)
    fix e assume e: "disp ?bs (nxt (length ?bs) i) = Some (Suc e)"
    then have ne: "nxt ?c i \<noteq> ?q" by (auto simp: disp)
    then have "i \<noteq> p" by auto
    show "\<exists>d' \<ge> e. disp ?bs i = Some d'"
    proof (cases "nxt ?c i = p")
      case True
      then have "d = Suc e" using e pq by (simp add: disp)
      then obtain d' where "d' \<ge> e" "disp bs i = Some d'"
        using gap_behind [OF gap i(1) True, of e] next_full(2) by auto
      then show ?thesis using i(2) \<open>i \<noteq> p\<close> by (simp add: disp)
    next
      case False
      then have "disp bs (nxt ?c i) = Some (Suc e)" using e ne by (simp add: disp)
      from gap_ordered [OF gap i(1) \<open>i \<noteq> p\<close> this] show ?thesis using i(2) \<open>i \<noteq> p\<close> by (simp add: disp)
    qed
  qed
  moreover have "\<exists>d' \<ge> e. disp ?bs j = Some d'"
    if j: "j < ?c" "nxt ?c j = ?q" "disp ?bs (nxt ?c ?q) = Some (Suc (Suc e))" for j e
  proof -
    have "j = p" using nxt_inj [OF j(1) p(1) j(2)] .
    have ne: "nxt ?c ?q \<noteq> ?q" using j(3) by (auto simp: disp)
    have "e \<le> d"
    proof (cases "nxt ?c ?q = p")
      case True
      then show ?thesis using j(3) pq by (simp add: disp)
    next
      case False
      then have "disp bs (nxt ?c ?q) = Some (Suc (Suc e))" using j(3) ne by (simp add: disp)
      then obtain d' where "d' \<ge> Suc e" "disp bs ?q = Some d'"
        using gap_ordered [OF gap q pq [symmetric]] by blast
      then show ?thesis using next_full(2) by simp
    qed
    then show ?thesis using \<open>j = p\<close> pq by (simp add: disp)
  qed
  ultimately show ?thesis using q by (simp add: gap_def)
qed

text \<open>The end of the run behind the bucket: the next one that is empty or at its ideal place.\<close>

definition run_end :: "('k, 'v) buckets \<Rightarrow> nat \<Rightarrow> nat \<Rightarrow> bool" where
  "run_end bs s e \<longleftrightarrow> (\<forall>j. 0 < j \<longrightarrow> j \<le> e \<longrightarrow> (\<exists>d. disp bs ((s + j) mod length bs) = Some (Suc d))) \<and>
     (\<forall>d. disp bs ((s + Suc e) mod length bs) \<noteq> Some (Suc d))"

lemma mod_add_ne: "i < j \<Longrightarrow> j < n + i \<Longrightarrow> (m + j) mod n \<noteq> (m + i) mod n" for n :: nat
proof
  assume a: "i < j" "j < n + i" "(m + j) mod n = (m + i) mod n"
  then have "(m + i + (j - i)) mod n = (m + i + 0) mod n" "j - i < n" "0 < n" by auto
  from mod_add_inj [OF this(2,3,1)] have "j - i = 0" .
  with a(1) show False by simp
qed

lemma step_to:
  assumes "i < c" "s < c"
  shows "\<exists>j < c. (s + Suc j) mod c = (i :: nat)"
proof (cases "s < i")
  case True
  then have "i - s - 1 < c" "s + Suc (i - s - 1) = i" using assms by auto
  with assms show ?thesis by (intro exI [of _ "i - s - 1"]) simp
next
  case False
  then have "i + c - s - 1 < c" "s + Suc (i + c - s - 1) = i + c" using assms by auto
  with assms show ?thesis by (intro exI [of _ "i + c - s - 1"]) simp
qed

lemma run_end_exists:
  assumes "anchored bs" "s < length bs" "bs ! s \<noteq> None"
  shows "\<exists>e. e < occupied bs \<and> run_end bs s e"
proof -
  let ?c = "length bs"
  let ?stop = "\<lambda>e. \<forall>d. disp bs ((s + Suc e) mod ?c) \<noteq> Some (Suc d)"
  define e where "e = (LEAST e. ?stop e)"
  obtain i where i: "i < ?c" "\<forall>d. disp bs i \<noteq> Some (Suc d)" using assms(1) by (auto simp: anchored_def)
  obtain j where j: "j < ?c" "(s + Suc j) mod ?c = i" using step_to [OF i(1) assms(2)] by blast
  then have stop: "?stop e" unfolding e_def using i(2) by (intro LeastI [of ?stop j]) simp
  have "e \<le> j" unfolding e_def using i(2) j(2) by (intro Least_le) simp
  then have e: "Suc e \<le> ?c" using j(1) by simp
  have run: "\<exists>d. disp bs ((s + j) mod ?c) = Some (Suc d)" if "0 < j" "j \<le> e" for j
    using not_less_Least [of "j - 1" ?stop] that by (auto simp: e_def)
  have full: "bs ! ((s + j) mod ?c) \<noteq> None" if "j \<le> e" for j
  proof (cases "j = 0")
    case True
    then show ?thesis using assms(2,3) by simp
  next
    case False
    then show ?thesis using run [of j] that by (metis disp_eq_None gr0I option.distinct(1))
  qed
  have "Suc e \<le> occupied bs" using e full by (intro run_occupied [of _ _ s]) simp_all
  with run stop show ?thesis by (intro exI [of _ e]) (simp add: run_end_def)
qed

lemma ending_probe_ok:
  assumes "hm_buckets m bs" "run_end bs s e" "r \<le> e" "e - r < n"
  shows "ending_probe_loop m n ((s + Suc r) mod length bs) = Some ((s + Suc e) mod length bs)"
  using assms(3,4)
proof (induction n arbitrary: r)
  case (Suc n)
  let ?c = "length bs"
  define p where "p = (s + Suc r) mod ?c"
  have p: "p < ?c" using hm_buckets_length [OF assms(1)] by (simp add: p_def)
  note unfold = peek_eq [OF assms(1) p] bucket_distance_eq [OF assms(1) p] probe_next_eq [OF assms(1) p]
  have "ending_probe_loop m (Suc n) p = Some ((s + Suc e) mod ?c)"
  proof (cases "r = e")
    case True
    then have "\<forall>d. disp bs p \<noteq> Some (Suc d)" using assms(2) by (simp add: run_end_def p_def)
    then have "ending_probe_loop m (Suc n) p = Some p"
      by (cases "bs ! p") (auto simp: unfold disp_def gr0_conv_Suc)
    then show ?thesis using True by (simp add: p_def)
  next
    case False
    then have "0 < Suc r" "Suc r \<le> e" using Suc.prems(1) by simp_all
    then obtain d where "disp bs p = Some (Suc d)" using assms(2) unfolding run_end_def p_def by blast
    then obtain h kv where "bs ! p = Some (h, kv)" "dist ?c p h = Suc d" by (auto simp: disp_def)
    moreover have "ending_probe_loop m n (nxt ?c p) = Some ((s + Suc e) mod ?c)"
      using Suc.IH [of "Suc r"] Suc.prems False unfolding p_def nxt_at by simp
    ultimately show ?thesis by (simp add: unfold)
  qed
  then show ?case by (simp add: p_def)
qed simp

lemma shift_unroll:
  assumes "hm_buckets m bs" "p < length bs" "bs ! p = None" "q < length bs" "bs ! q = Some (h, k, v)" "q \<noteq> ending"
  shows "hm_buckets (m\<lparr>hm_table := rt_of (bs[p := Some (h, k, v), q := None])\<rparr>) (bs[p := Some (h, k, v), q := None])"
    "shift_loop m ending p q =
      shift_loop (m\<lparr>hm_table := rt_of (bs[p := Some (h, k, v), q := None])\<rparr>) ending q (nxt (length bs) q)"
proof -
  let ?bs = "bs[p := Some (h, k, v), q := None]"
  let ?m = "m\<lparr>hm_table := rt_of ?bs\<rparr>"
  have m: "hm_table m = rt_of bs" "safe_hashes bs" "\<exists>K \<le> 62. length bs = 2 ^ K"
    using assms(1) by (simp_all add: hm_buckets_def)
  have "Some (h, k, v) \<in> set bs" using assms(4,5) by (metis nth_mem)
  then have "safe_hashes ?bs" using m(2) by (intro safe_hashes_update) (auto simp: safe_hashes_def)
  then show m': "hm_buckets ?m ?bs" using m(3) by (simp add: hm_buckets_def)
  have t1: "safe_hashes (bs[q := None])" using m(2) by (rule safe_hashes_update) simp
  have "p \<noteq> q" using assms(3,5) by auto
  then have t2: "p < length (bs[q := None])" "bs[q := None] ! p = None" using assms(2,3) by simp_all
  have "peek (rt_of bs) q = Some (Full q h)" using peek_of [OF m(2), of q] assms(4,5) by simp
  moreover have "rt_take (rt_of bs) q = Some ((k, v), rt_of (bs[q := None]))"
    using take_of [OF assms(4,5) hm_buckets_length(3) [OF assms(1)]] .
  moreover have "peek (rt_of (bs[q := None])) p = Some (Empty p)" using peek_of [OF t1, of p] t2 by simp
  moreover have "rt_put (rt_of (bs[q := None])) p h k v = Some (rt_of ?bs)"
    using put_of [OF t2] list_update_swap [OF \<open>p \<noteq> q\<close>] by metis
  moreover have "probe_next ?m q = nxt (length bs) q" using probe_next_eq [OF m', of q] assms(4) by simp
  ultimately show "shift_loop m ending p q = shift_loop ?m ending q (nxt (length bs) q)"
    using assms(6) by (simp add: shift_loop.simps [of m _ p q] m(1) Let_def)
qed

lemma shift_loop_ok:
  assumes "hm_buckets m bs" "gap bs ((s + r) mod length bs)" "r \<le> e" "e < length bs"
    "\<And>j. r < j \<Longrightarrow> j \<le> e \<Longrightarrow> \<exists>d. disp bs ((s + j) mod length bs) = Some (Suc d)"
    "\<And>d. disp bs ((s + Suc e) mod length bs) \<noteq> Some (Suc d)"
    "\<And>d. Suc e = length bs \<Longrightarrow> r = 0 \<Longrightarrow> disp bs ((s + Suc 0) mod length bs) \<noteq> Some (Suc (Suc d))"
  shows "\<exists>bs'. shift_loop m ((s + Suc e) mod length bs) ((s + r) mod length bs) ((s + Suc r) mod length bs) =
      Some ((s + e) mod length bs, m\<lparr>hm_table := rt_of bs'\<rparr>) \<and>
    gap bs' ((s + e) mod length bs) \<and> length bs' = length bs \<and> mset bs' = mset bs \<and>
    (\<forall>d. disp bs' ((s + Suc e) mod length bs) \<noteq> Some (Suc d))"
  using assms
proof (induction "e - r" arbitrary: r m bs)
  case 0
  then show ?case by (intro exI [of _ bs]) (simp add: shift_loop.simps)
next
  case (Suc x)
  let ?c = "length bs"
  define p q where pq: "p = (s + r) mod ?c" "q = (s + Suc r) mod ?c"
  have q_nxt: "q = nxt ?c p" by (simp add: pq nxt_at)
  have r: "r < e" using Suc.hyps(2) by simp
  have c: "0 < ?c" using Suc.prems(4) by linarith
  have p: "p < ?c" "q < ?c" "bs ! p = None" using c Suc.prems(2) by (simp_all add: pq gap_def)
  obtain d where d: "disp bs q = Some (Suc d)" using Suc.prems(5) [of "Suc r"] r by (auto simp: pq)
  then obtain h k v where bs_q: "bs ! q = Some (h, k, v)" by (auto simp: disp_def)
  let ?bs = "bs[p := Some (h, k, v), q := None]"
  let ?m = "m\<lparr>hm_table := rt_of ?bs\<rparr>"
  have ne: "(s + j) mod ?c \<noteq> p \<and> (s + j) mod ?c \<noteq> q" if "Suc r < j" "j < ?c + r" for j
    using mod_add_ne [of r j ?c s] mod_add_ne [of "Suc r" j ?c s] that by (simp add: pq)
  have disp: "disp ?bs i = (if i = q then None else if i = p then Some d else disp bs i)" for i
  proof -
    have "dist ?c q h = Suc d" using d bs_q by (simp add: disp_def)
    then have "dist ?c p h = d" using dist_nxt_Suc [OF p(1)] by (simp add: q_nxt)
    then show ?thesis using p by (simp add: disp_update)
  qed
  have "p \<noteq> q" using p(3) bs_q by auto
  have "(s + Suc e) mod ?c \<noteq> q"
  proof (cases "Suc e < ?c + r")
    case True
    then show ?thesis using ne [of "Suc e"] r by simp
  next
    case False
    then have "Suc e = ?c" "r = 0" using Suc.prems(4) by auto
    then have "(s + Suc e) mod ?c = p" by (simp add: pq)
    with \<open>p \<noteq> q\<close> show ?thesis by simp
  qed
  note step = shift_unroll [OF Suc.prems(1) p(1,3,2) bs_q this [symmetric]]
  have nxt: "nxt ?c q = (s + Suc (Suc r)) mod ?c" unfolding pq by (rule nxt_at)
  have "gap ?bs q" using gap_step [of bs p h k v d] Suc.prems(2) bs_q d by (simp add: q_nxt flip: pq)
  then have gap: "gap ?bs ((s + Suc r) mod length ?bs)" by (simp add: pq)
  have run: "\<exists>d. disp ?bs ((s + j) mod length ?bs) = Some (Suc d)" if "Suc r < j" "j \<le> e" for j
    using Suc.prems(5) [of j] ne [of j] that Suc.prems(4) by (simp add: disp)
  have stop: "disp ?bs ((s + Suc e) mod length ?bs) \<noteq> Some (Suc d')" for d'
  proof (cases "Suc e < ?c + r")
    case True
    then show ?thesis using ne [of "Suc e"] r Suc.prems(6) by (simp add: disp)
  next
    case False
    then have "Suc e = ?c" "r = 0" using Suc.prems(4) by auto
    then have "disp bs q \<noteq> Some (Suc (Suc d'))" for d' using Suc.prems(7) by (simp add: pq)
    then have "d = 0" using d by (cases d) auto
    have "(s + Suc e) mod length ?bs = p" using \<open>Suc e = ?c\<close> \<open>r = 0\<close> by (simp add: pq)
    with \<open>d = 0\<close> show ?thesis using disp [of p] by simp
  qed
  have "x = e - Suc r" "Suc r \<le> e" "e < length ?bs" using Suc.hyps(2) Suc.prems(4) by auto
  from Suc.hyps(1) [OF this(1) step(1) gap this(2,3) run stop] obtain bs' where bs':
    "shift_loop ?m ((s + Suc e) mod ?c) q ((s + Suc (Suc r)) mod ?c) = Some ((s + e) mod ?c, m\<lparr>hm_table := rt_of bs'\<rparr>)"
    "gap bs' ((s + e) mod ?c)" "length bs' = ?c" "mset bs' = mset ?bs" "\<forall>d. disp bs' ((s + Suc e) mod ?c) \<noteq> Some (Suc d)"
    by (auto simp: pq)
  have "shift_loop m ((s + Suc e) mod ?c) p q = Some ((s + e) mod ?c, m\<lparr>hm_table := rt_of bs'\<rparr>)"
    using bs'(1) step(2) nxt by simp
  moreover have "mset ?bs = mset bs" using mset_swap [OF p(2,1)] bs_q p(3) by metis
  ultimately show ?case using bs'(2-) by (intro exI [of _ bs']) (simp add: pq)
qed

lemma pop_internal_ok:
  assumes m: "hm_buckets m bs" "robin bs" "anchored bs" and i: "i < length bs" "bs ! i = Some (h, k, v)"
  shows "\<exists>bs'. pop_internal m i = Some (v, m\<lparr>hm_table := rt_of bs'\<rparr>) \<and> robin bs' \<and> length bs' = length bs \<and>
    add_mset (Some (h, k, v)) (mset bs') = add_mset None (mset bs)"
proof -
  let ?c = "length bs" and ?bs = "bs[i := None]"
  let ?m = "m\<lparr>hm_table := rt_of ?bs\<rparr>"
  obtain e where e: "e < occupied bs" "run_end bs i e" using run_end_exists [OF m(3) i(1)] i(2) by auto
  have ec: "e < ?c" using e(1) occupied_le [of bs] by linarith
  have table: "hm_table m = rt_of bs" using m(1) by (simp add: hm_buckets_def)
  have m': "hm_buckets ?m ?bs" using hm_buckets_update [OF m(1), of None] by simp
  have i0: "(i + 0) mod ?c = i" using i(1) by simp
  have ne: "(i + j) mod ?c \<noteq> i" if "0 < j" "j < ?c" for j
    using mod_add_ne [of 0 j ?c i] that i0 by simp
  have disp: "disp ?bs j = (if j = i then None else disp bs j)" for j using i(1) by (simp add: disp_update)
  have gap: "gap ?bs ((i + 0) mod length ?bs)" using gap_start [OF m(2) i] i0 by simp
  have run: "\<exists>d. disp ?bs ((i + j) mod length ?bs) = Some (Suc d)" if "0 < j" "j \<le> e" for j
    using e(2) ne [of j] that ec by (simp add: run_end_def disp)
  have stop: "disp ?bs ((i + Suc e) mod length ?bs) \<noteq> Some (Suc d)" for d
    using e(2) by (simp add: run_end_def disp)
  have wrap: "disp ?bs ((i + Suc 0) mod length ?bs) \<noteq> Some (Suc (Suc d))" if "Suc e = length ?bs" for d
  proof
    assume a: "disp ?bs ((i + Suc 0) mod length ?bs) = Some (Suc (Suc d))"
    then have "disp bs (nxt ?c i) = Some (Suc (Suc d))" using i(1) by (auto simp: disp nxt_def split: if_splits)
    then obtain d' where "Suc d \<le> d'" "disp bs i = Some d'"
      using m(2) i(1) by (auto simp: robin_def ordered_at_def)
    moreover have "disp bs i \<noteq> Some (Suc d)" for d using e(2) that i(1) by (simp add: run_end_def)
    ultimately show False by (cases d') auto
  qed
  have "e < length ?bs" using ec by simp
  from shift_loop_ok [OF m' gap le0 this run stop wrap] obtain bs' where bs':
    "shift_loop ?m ((i + Suc e) mod ?c) i ((i + Suc 0) mod ?c) = Some ((i + e) mod ?c, m\<lparr>hm_table := rt_of bs'\<rparr>)"
    "gap bs' ((i + e) mod ?c)" "length bs' = ?c" "mset bs' = mset ?bs" "\<forall>d. disp bs' ((i + Suc e) mod ?c) \<noteq> Some (Suc d)"
    using i(1) by auto
  have robin: "robin bs'" using gap_done [OF bs'(2)] bs'(3,5) by (simp add: nxt_at)
  have "set bs' \<subseteq> insert None (set bs)" using bs'(4) by (metis set_mset_mset set_update_subset_insert)
  then have "safe_hashes bs'" using m(1) by (auto simp: hm_buckets_def safe_hashes_def)
  then have "take_if_full (rt_of bs') ((i + e) mod ?c) = Some (rt_of bs')"
    using bs'(2) peek_of [of bs' "(i + e) mod ?c"] by (simp add: take_if_full_def gap_def)
  moreover have nxt: "probe_next m i = (i + Suc 0) mod ?c" "probe_next ?m i = (i + Suc 0) mod ?c"
    using probe_next_eq [OF m(1) i(1)] probe_next_eq [OF m', of i] i(1) by (simp_all add: nxt_def)
  moreover have "ending_probe_loop m (occupied bs) ((i + Suc 0) mod ?c) = Some ((i + Suc e) mod ?c)"
    using ending_probe_ok [OF m(1) e(2) le0] e(1) by simp
  moreover have "rt_take (rt_of bs) i = Some ((k, v), rt_of ?bs)"
    using take_of [OF i hm_buckets_length(3) [OF m(1)]] .
  ultimately have "pop_internal m i = Some (v, m\<lparr>hm_table := rt_of bs'\<rparr>)"
    using bs'(1) by (simp add: pop_internal_def table Let_def)
  moreover have "add_mset (Some (h, k, v)) (mset ?bs) = add_mset None (mset bs)"
    using i by (simp add: mset_update insert_DiffM flip: i(2))
  ultimately show ?thesis using robin bs'(3,4) by (intro exI [of _ bs']) simp
qed

end
