(* ===== verification/BoundedMap.thy ===== *)
theory BoundedMap
  imports Containers
begin

text \<open>
  The contract of a finite map that can hold at least \<open>limit\<close> entries: \<open>invar\<close> is kept, \<open>abs\<close> is the
  map held, and no operation fails while there are fewer entries.
\<close>

locale bounded_map =
  fixes invar :: "'s \<Rightarrow> bool" and abs :: "'s \<Rightarrow> 'k \<rightharpoonup> 'v" and limit :: nat
    and len :: "'s \<Rightarrow> uint"
    and find :: "'s \<Rightarrow> 'k \<Rightarrow> 'v option option"
    and swap :: "'s \<Rightarrow> 'k \<Rightarrow> 'v \<Rightarrow> ('v option \<times> 's) option"
    and pop :: "'s \<Rightarrow> 'k \<Rightarrow> ('v option \<times> 's) option"
    and clear :: "'s \<Rightarrow> 's option"
  assumes finite_abs: "invar s \<Longrightarrow> finite (dom (abs s))"
    and len_ok: "invar s \<Longrightarrow> len s = card (dom (abs s))"
    and find_ok: "invar s \<Longrightarrow> find s k = Some (abs s k)"
    and swap_ok: "invar s \<Longrightarrow> card (dom (abs s)) < limit \<Longrightarrow>
      \<exists>s'. swap s k v = Some (abs s k, s') \<and> invar s' \<and> abs s' = (abs s)(k \<mapsto> v)"
    and pop_ok: "invar s \<Longrightarrow> \<exists>s'. pop s k = Some (abs s k, s') \<and> invar s' \<and> abs s' = (abs s)(k := None)"
    and clear_ok: "invar s \<Longrightarrow> \<exists>s'. clear s = Some s' \<and> invar s' \<and> abs s' = Map.empty"

text \<open>Calls on a map and what they return.\<close>

datatype ('k, 'v) map_op = MapSwap 'k 'v | MapPop 'k | MapFind 'k | MapLen | MapClear

datatype 'v map_result = Val "'v option" | Count uint | Unit

fun map_step ::
  "('s \<Rightarrow> uint) \<Rightarrow> ('s \<Rightarrow> 'k \<Rightarrow> 'v option option) \<Rightarrow> ('s \<Rightarrow> 'k \<Rightarrow> 'v \<Rightarrow> ('v option \<times> 's) option) \<Rightarrow>
   ('s \<Rightarrow> 'k \<Rightarrow> ('v option \<times> 's) option) \<Rightarrow> ('s \<Rightarrow> 's option) \<Rightarrow>
   ('k, 'v) map_op \<Rightarrow> 's \<Rightarrow> ('v map_result \<times> 's) option" where
  "map_step len lookup swap pop clear (MapSwap k v) s = do { (r, s') \<leftarrow> swap s k v; Some (Val r, s') }"
| "map_step len lookup swap pop clear (MapPop k) s = do { (r, s') \<leftarrow> pop s k; Some (Val r, s') }"
| "map_step len lookup swap pop clear (MapFind k) s = do { r \<leftarrow> lookup s k; Some (Val r, s) }"
| "map_step len lookup swap pop clear MapLen s = Some (Count (len s), s)"
| "map_step len lookup swap pop clear MapClear s = do { s' \<leftarrow> clear s; Some (Unit, s') }"

fun map_run :: "('o \<Rightarrow> 's \<Rightarrow> ('r \<times> 's) option) \<Rightarrow> 'o list \<Rightarrow> 's \<Rightarrow> ('r list \<times> 's) option" where
  "map_run step [] s = Some ([], s)"
| "map_run step (x # xs) s = do { (r, s1) \<leftarrow> step x s; (rs, s2) \<leftarrow> map_run step xs s1; Some (r # rs, s2) }"

text \<open>The same calls on a finite map.\<close>

fun spec_step :: "('k, 'v) map_op \<Rightarrow> ('k \<rightharpoonup> 'v) \<Rightarrow> 'v map_result \<times> ('k \<rightharpoonup> 'v)" where
  "spec_step (MapSwap k v) f = (Val (f k), f(k \<mapsto> v))"
| "spec_step (MapPop k) f = (Val (f k), f(k := None))"
| "spec_step (MapFind k) f = (Val (f k), f)"
| "spec_step MapLen f = (Count (card (dom f)), f)"
| "spec_step MapClear f = (Unit, Map.empty)"

fun spec_run :: "('k, 'v) map_op list \<Rightarrow> ('k \<rightharpoonup> 'v) \<Rightarrow> 'v map_result list \<times> ('k \<rightharpoonup> 'v)" where
  "spec_run [] f = ([], f)"
| "spec_run (x # xs) f = (let (r, f1) = spec_step x f; (rs, f2) = spec_run xs f1 in (r # rs, f2))"

fun swaps :: "('k, 'v) map_op list \<Rightarrow> nat" where
  "swaps [] = 0"
| "swaps (MapSwap _ _ # xs) = Suc (swaps xs)"
| "swaps (_ # xs) = swaps xs"

context bounded_map
begin

lemma card_swap: "invar s \<Longrightarrow> card (dom ((abs s)(k \<mapsto> v))) \<le> Suc (card (dom (abs s)))"
  by (simp add: card_insert_le_m1 finite_abs card_insert_if)

lemma card_pop: "invar s \<Longrightarrow> card (dom ((abs s)(k := None))) \<le> card (dom (abs s))"
  by (simp add: card_Diff1_le finite_abs)

lemma step_ok:
  assumes "invar s" "card (dom (abs s)) + swaps [x] \<le> limit"
  shows "\<exists>s'. map_step len find swap pop clear x s = Some (fst (spec_step x (abs s)), s') \<and> invar s' \<and>
    abs s' = snd (spec_step x (abs s)) \<and> card (dom (abs s')) \<le> card (dom (abs s)) + swaps [x]"
proof (cases x)
  case (MapSwap k v)
  then show ?thesis using swap_ok [OF assms(1), of k v] card_swap [OF assms(1), of k v] assms(2) by auto
next
  case (MapPop k)
  then show ?thesis using pop_ok [OF assms(1), of k] card_pop [OF assms(1), of k] by auto
next
  case MapClear
  then show ?thesis using clear_ok [OF assms(1)] by auto
qed (use assms in \<open>auto simp: find_ok len_ok\<close>)

lemma run_ok:
  "invar s \<Longrightarrow> card (dom (abs s)) + swaps xs \<le> limit \<Longrightarrow>
     \<exists>s'. map_run (map_step len find swap pop clear) xs s = Some (fst (spec_run xs (abs s)), s') \<and> invar s' \<and>
       abs s' = snd (spec_run xs (abs s))"
proof (induction xs arbitrary: s)
  case (Cons x xs)
  have sw: "swaps (x # xs) = swaps [x] + swaps xs" by (cases x) simp_all
  obtain s1 where s1: "map_step len find swap pop clear x s = Some (fst (spec_step x (abs s)), s1)" "invar s1"
    "abs s1 = snd (spec_step x (abs s))" "card (dom (abs s1)) \<le> card (dom (abs s)) + swaps [x]"
    using step_ok [OF Cons.prems(1), of x] Cons.prems(2) sw by auto
  obtain s2 where "map_run (map_step len find swap pop clear) xs s1 = Some (fst (spec_run xs (abs s1)), s2)" "invar s2"
    "abs s2 = snd (spec_run xs (abs s1))"
    using Cons.IH [OF s1(2)] s1(4) Cons.prems(2) sw by auto
  with s1 show ?case by (auto simp: case_prod_beta)
qed simp

end

end
