(* ===== verification/HashMapRefine.thy ===== *)
theory HashMapRefine
  imports RobinHood BoundedMap
begin

text \<open>
  What the operations of \<open>HashMap\<close> do to the finite map that the buckets of its table hold: the
  table is resized without losing an entry, and every operation returns what the map says.
\<close>

section \<open>The entries of a list of buckets\<close>

definition kvs :: "('k, 'v) buckets \<Rightarrow> ('k \<times> 'v) list" where
  "kvs bs = map (\<lambda>b. snd (the b)) (filter (\<lambda>b. b \<noteq> None) bs)"

text \<open>Every entry has the hash of its key, and no key is there twice.\<close>

definition keyed :: "('k \<Rightarrow> 64 word) \<Rightarrow> ('k, 'v) buckets \<Rightarrow> bool" where
  "keyed hasher bs \<longleftrightarrow> (\<forall>h k v. Some (h, k, v) \<in> set bs \<longrightarrow> h = rt_make_hash hasher k) \<and> distinct (map fst (kvs bs))"

lemma keyed_hash: "keyed hasher bs \<Longrightarrow> Some (h, k, v) \<in> set bs \<Longrightarrow> h = rt_make_hash hasher k"
  unfolding keyed_def by blast

lemma length_kvs [simp]: "length (kvs bs) = occupied bs"
  by (simp add: kvs_def occupied_def)

lemma mset_kvs: "mset (kvs bs) = {#snd (the b). b \<in># filter_mset (\<lambda>b. b \<noteq> None) (mset bs)#}"
  by (simp add: kvs_def flip: mset_filter)

lemma in_kvs: "(k, v) \<in> set (kvs bs) \<longleftrightarrow> (\<exists>h. Some (h, k, v) \<in> set bs)"
  by (force simp: kvs_def)

lemma kvs_put:
  assumes "add_mset None (mset bs') = add_mset (Some (h, kv)) (mset bs)"
  shows "mset (kvs bs') = add_mset kv (mset (kvs bs))"
proof -
  have "filter_mset (\<lambda>b. b \<noteq> None) (mset bs') = filter_mset (\<lambda>b. b \<noteq> None) (add_mset (Some (h, kv)) (mset bs))"
    by (simp flip: assms)
  then show ?thesis by (simp add: mset_kvs)
qed

lemma kvs_replicate [simp]: "kvs (replicate n None) = []"
  by (simp add: kvs_def)

lemma keyed_mset: "mset (kvs bs') = mset xs \<Longrightarrow> distinct (map fst (kvs bs')) \<longleftrightarrow> distinct (map fst xs)"
  by (metis mset_eq_imp_distinct_iff mset_map)

lemma map_of_mset: "mset xs = mset ys \<Longrightarrow> distinct (map fst xs) \<Longrightarrow> map_of xs = map_of ys"
  by (metis map_of_inject_set mset_eq_imp_distinct_iff mset_eq_setD mset_map)

lemma keyed_put:
  assumes "keyed hasher bs" "add_mset None (mset bs') = add_mset (Some (rt_make_hash hasher k, k, v)) (mset bs)"
    "k \<notin> dom (map_of (kvs bs))"
  shows "keyed hasher bs'" "map_of (kvs bs') = (map_of (kvs bs))(k \<mapsto> v)" "mset (kvs bs') = add_mset (k, v) (mset (kvs bs))"
proof -
  show eq: "mset (kvs bs') = add_mset (k, v) (mset (kvs bs))" using kvs_put [OF assms(2)] .
  then have eq': "mset (kvs bs') = mset ((k, v) # kvs bs)" by simp
  have d: "distinct (map fst ((k, v) # kvs bs))" using assms(1,3) by (auto simp: keyed_def dom_map_of_conv_image_fst)
  have "set bs' \<subseteq> insert (Some (rt_make_hash hasher k, k, v)) (set bs)"
    using assms(2) by (metis set_mset_add_mset_insert set_mset_mset subset_insertI)
  then show "keyed hasher bs'" using keyed_hash [OF assms(1)] d keyed_mset [OF eq'] by (auto simp: keyed_def)
  then show "map_of (kvs bs') = (map_of (kvs bs))(k \<mapsto> v)"
    using map_of_mset [OF eq'] by (simp add: keyed_def)
qed

lemma keyed_take:
  assumes "keyed hasher bs" "add_mset (Some (h, k, v)) (mset bs') = add_mset None (mset bs)"
  shows "keyed hasher bs'" "map_of (kvs bs') = (map_of (kvs bs))(k := None)" "occupied bs = Suc (occupied bs')"
proof -
  have "mset (kvs bs) = add_mset (k, v) (mset (kvs bs'))" using kvs_put [OF assms(2) [symmetric]] .
  then have eq: "mset (kvs bs) = mset ((k, v) # kvs bs')" by simp
  have d: "distinct (map fst ((k, v) # kvs bs'))" using assms(1) keyed_mset [OF eq] by (simp add: keyed_def)
  have "set bs' \<subseteq> insert None (set bs)"
    using assms(2) by (metis set_mset_add_mset_insert set_mset_mset subset_insertI)
  then show "keyed hasher bs'" using assms(1) d by (auto simp: keyed_def)
  have "map_of (kvs bs) = (map_of (kvs bs'))(k \<mapsto> v)" using map_of_mset [OF eq] assms(1) by (simp add: keyed_def)
  moreover have "map_of (kvs bs') k = None" using d by (simp add: map_of_eq_None_iff)
  ultimately show "map_of (kvs bs') = (map_of (kvs bs))(k := None)" by (auto simp: fun_eq_iff)
  show "occupied bs = Suc (occupied bs')" using arg_cong [OF eq, of size] by simp
qed

lemma kvs_update:
  "i < length bs \<Longrightarrow> bs ! i = Some (h, k, v) \<Longrightarrow>
    \<exists>xs ys. kvs bs = xs @ (k, v) # ys \<and> kvs (bs[i := Some (h, k, w)]) = xs @ (k, w) # ys"
proof -
  assume i: "i < length bs" "bs ! i = Some (h, k, v)"
  then have "bs = take i bs @ Some (h, k, v) # drop (Suc i) bs" by (metis id_take_nth_drop)
  moreover have "bs[i := Some (h, k, w)] = take i bs @ Some (h, k, w) # drop (Suc i) bs"
    using i(1) by (simp add: upd_conv_take_nth_drop)
  moreover have "kvs (xs @ ys) = kvs xs @ kvs ys" "kvs (Some (h, kv) # xs) = kv # kvs xs" for xs ys h kv
    by (simp_all add: kvs_def)
  ultimately show ?thesis by metis
qed

lemma keyed_replace:
  assumes "keyed hasher bs" "i < length bs" "bs ! i = Some (h, k, v)"
  shows "keyed hasher (bs[i := Some (h, k, w)])" "map_of (kvs (bs[i := Some (h, k, w)])) = (map_of (kvs bs))(k \<mapsto> w)"
proof -
  obtain xs ys where xs: "kvs bs = xs @ (k, v) # ys" "kvs (bs[i := Some (h, k, w)]) = xs @ (k, w) # ys"
    using kvs_update [OF assms(2,3)] by blast
  have "k \<notin> fst ` set xs" using assms(1) xs(1) by (auto simp: keyed_def)
  then have "map_of xs k = None" by (simp add: map_of_eq_None_iff)
  then show "map_of (kvs (bs[i := Some (h, k, w)])) = (map_of (kvs bs))(k \<mapsto> w)"
    by (auto simp: xs fun_eq_iff map_add_def split: option.split)
  have "Some (h, k, v) \<in> set bs" using assms(2,3) by (metis nth_mem)
  then have "h = rt_make_hash hasher k" by (rule keyed_hash [OF assms(1)])
  then show "keyed hasher (bs[i := Some (h, k, w)])"
    using assms(1) xs keyed_hash [OF assms(1)] by (auto simp: keyed_def dest!: set_update_subset_insert [THEN subsetD])
qed

lemma keyed_lookup:
  assumes "keyed hasher bs"
  shows "map_of (kvs bs) k = Some v \<longleftrightarrow> Some (rt_make_hash hasher k, k, v) \<in> set bs"
proof -
  have "map_of (kvs bs) k = Some v \<longleftrightarrow> (k, v) \<in> set (kvs bs)" using assms by (simp add: keyed_def)
  also have "\<dots> \<longleftrightarrow> Some (rt_make_hash hasher k, k, v) \<in> set bs" using assms by (auto simp: in_kvs keyed_def)
  finally show ?thesis .
qed

lemma keyed_card: "keyed hasher bs \<Longrightarrow> card (dom (map_of (kvs bs))) = occupied bs"
  by (simp add: keyed_def dom_map_of_conv_image_fst distinct_card flip: length_kvs set_map)

section \<open>Maps\<close>

definition hm_rep :: "('k, 'v) hash_map \<Rightarrow> ('k, 'v) buckets \<Rightarrow> bool" where
  "hm_rep m bs \<longleftrightarrow> hm_buckets m bs \<and> robin bs \<and> anchored bs \<and> keyed (hm_hasher m) bs \<and>
     hm_load_factor m = INITIAL_LOAD_FACTOR \<and> hm_grow_at m = grow_at (length bs) INITIAL_LOAD_FACTOR"

lemma rt_make_hash_safe: "rt_make_hash hasher k \<noteq> 0"
  by (simp add: rt_make_hash_def EMPTY_BUCKET_def)

lemma keyed_safe: "keyed hasher bs \<Longrightarrow> safe_hashes bs"
  using keyed_hash rt_make_hash_safe unfolding safe_hashes_def by metis

lemma hm_rep_update:
  assumes "hm_rep m bs" "length bs' = length bs" "robin bs'" "anchored bs'" "keyed (hm_hasher m) bs'"
  shows "hm_rep (m\<lparr>hm_table := rt_of bs'\<rparr>) bs'"
  using assms keyed_safe [OF assms(5)] by (simp add: hm_rep_def hm_buckets_def)

text \<open>Putting an entry in, with either loop.\<close>

lemma put_ok:
  assumes m: "hm_rep m bs" "occupied bs < length bs" and h: "h = rt_make_hash (hm_hasher m) k"
  obtains (found) i v0 where "map_of (kvs bs) k = Some v0" "i < length bs" "bs ! i = Some (h, k, v0)"
      "manual_insert_hashed_nocheck m h k v = Some (i, m)"
      "swap_loop m h k v [0 ..< Suc (occupied bs)] = Some (Some v0, m\<lparr>hm_table := rt_of (bs[i := Some (h, k, v)])\<rparr>)"
      "hm_rep (m\<lparr>hm_table := rt_of (bs[i := Some (h, k, v)])\<rparr>) (bs[i := Some (h, k, v)])"
      "map_of (kvs (bs[i := Some (h, k, v)])) = (map_of (kvs bs))(k \<mapsto> v)"
  | (put) i bs' where "map_of (kvs bs) k = None" "i < length bs" "bs' ! i = Some (h, k, v)"
      "manual_insert_hashed_nocheck m h k v = Some (i, m\<lparr>hm_table := rt_of bs'\<rparr>)"
      "swap_loop m h k v [0 ..< Suc (occupied bs)] = Some (None, m\<lparr>hm_table := rt_of bs'\<rparr>)"
      "hm_rep (m\<lparr>hm_table := rt_of bs'\<rparr>) bs'" "length bs' = length bs"
      "map_of (kvs bs') = (map_of (kvs bs))(k \<mapsto> v)" "mset (kvs bs') = add_mset (k, v) (mset (kvs bs))"
proof -
  have rep: "hm_buckets m bs" "robin bs" "anchored bs" "keyed (hm_hasher m) bs" using m(1) by (simp_all add: hm_rep_def)
  have "h \<noteq> 0" using h rt_make_hash_safe by simp
  have nocheck: "manual_insert_hashed_nocheck m h k v = insert_loop m h k v [0 ..< Suc (occupied bs)]"
    using rep(1) by (simp add: manual_insert_hashed_nocheck_def hm_buckets_def)
  note lookup = keyed_lookup [OF rep(4), of k]
  from loops_ok [OF rep(1,2) m(2) \<open>h \<noteq> 0\<close> approach_start [OF hm_buckets_length(4) [OF rep(1)]], of k v]
  consider (f) i v0 where "i < length bs" "bs ! i = Some (h, k, v0)" "insert_loop m h k v [0 ..< Suc (occupied bs)] = Some (i, m)"
        "swap_loop m h k v [0 ..< Suc (occupied bs)] = Some (Some v0, m\<lparr>hm_table := rt_of (bs[i := Some (h, k, v)])\<rparr>)"
    | (p) i m' where "\<forall>i < length bs. \<forall>v0. bs ! i \<noteq> Some (h, k, v0)" "insert_loop m h k v [0 ..< Suc (occupied bs)] = Some (i, m')"
        "swap_loop m h k v [0 ..< Suc (occupied bs)] = Some (None, m')" "put_result m bs (h, k, v) i m'" by blast
  then show thesis
  proof cases
    case f
    have "Some (h, k, v0) \<in> set bs" using f(1,2) by (metis nth_mem)
    moreover have "robin (bs[i := Some (h, k, v)])" "anchored (bs[i := Some (h, k, v)])"
      using rep(2,3) f(1,2) disp_same [OF f(1,2)] by (simp_all add: robin_def ordered_at_def anchored_def)
    ultimately show thesis using found [of v0 i] f nocheck lookup h keyed_replace [OF rep(4) f(1,2), of v]
        hm_rep_update [OF m(1), of "bs[i := Some (h, k, v)]"] by simp
  next
    case p
    obtain bs' where bs': "m' = m\<lparr>hm_table := rt_of bs'\<rparr>" "robin bs'" "anchored bs'" "length bs' = length bs"
        "add_mset None (mset bs') = add_mset (Some (h, k, v)) (mset bs)" "i < length bs" "bs' ! i = Some (h, k, v)"
      using p(4) by (auto simp: put_result_def)
    have "Some (h, k, v0) \<notin> set bs" for v0 using p(1) by (metis in_set_conv_nth)
    then have none: "map_of (kvs bs) k = None" using lookup h by (metis not_None_eq)
    then have "k \<notin> dom (map_of (kvs bs))" by auto
    from keyed_put [OF rep(4) bs'(5) [unfolded h] this] show thesis
      using put [OF none bs'(6,7)] p bs' nocheck hm_rep_update [OF m(1) bs'(4,2,3)] by simp
  qed
qed

section \<open>Resizing\<close>

lemma move_next_end:
  assumes "safe_hashes bs" "\<And>j. i \<le> j \<Longrightarrow> j < length bs \<Longrightarrow> bs ! j = None"
  shows "\<exists>i'. move_next_from (rt_of bs) i = Some (None, \<lparr>ti_table = rt_of bs, ti_idx = i'\<rparr>)"
  using assms(2)
proof (induction "length bs - i" arbitrary: i)
  case 0
  then show ?case by (simp add: move_next_from.simps)
next
  case (Suc x)
  then have "i < length bs" "bs ! i = None" "\<exists>i'. move_next_from (rt_of bs) (Suc i) = Some (None, \<lparr>ti_table = rt_of bs, ti_idx = i'\<rparr>)"
    by auto
  then show ?case by (simp add: move_next_from.simps [of _ i] peek_of [OF assms(1)])
qed

lemma move_next_item:
  assumes "safe_hashes bs" "length bs < 2 ^ 64" "j < length bs" "bs ! j = Some (h, k, v)"
    "i \<le> j" "\<And>l. i \<le> l \<Longrightarrow> l < j \<Longrightarrow> bs ! l = None"
  shows "move_next_from (rt_of bs) i = Some (Some (h, k, v), \<lparr>ti_table = rt_of (bs[j := None]), ti_idx = Suc j\<rparr>)"
  using assms(5,6)
proof (induction "j - i" arbitrary: i)
  case 0
  then show ?case using assms(3,4) take_of [OF assms(3,4,2)]
    by (simp add: move_next_from.simps [of _ i] peek_of [OF assms(1)])
next
  case (Suc x)
  then have "i < length bs" "bs ! i = None"
    "move_next_from (rt_of bs) (Suc i) = Some (Some (h, k, v), \<lparr>ti_table = rt_of (bs[j := None]), ti_idx = Suc j\<rparr>)"
    using assms(3) by auto
  then show ?case by (simp add: move_next_from.simps [of _ i] peek_of [OF assms(1)])
qed

lemma first_full:
  assumes "occupied bs \<noteq> 0" "\<And>j. j < i \<Longrightarrow> bs ! j = None"
  shows "\<exists>j b. i \<le> j \<and> j < length bs \<and> bs ! j = Some b \<and> (\<forall>l < j. bs ! l = None)"
proof -
  have "\<exists>j. j < length bs \<and> bs ! j \<noteq> None"
    using assms(1) by (auto simp: occupied_def filter_empty_conv in_set_conv_nth) blast
  then obtain j where "j < length bs \<and> bs ! j \<noteq> None" "\<forall>l < j. \<not> (l < length bs \<and> bs ! l \<noteq> None)"
    using exists_least_iff [of "\<lambda>j. j < length bs \<and> bs ! j \<noteq> None"] by blast
  then show ?thesis using assms(2) by (metis not_None_eq not_le_imp_less order.strict_trans)
qed

lemma not_occupied: "occupied bs = 0 \<Longrightarrow> j < length bs \<Longrightarrow> bs ! j = None"
  by (simp add: occupied_def filter_empty_conv)

lemma reinsert_ok:
  assumes "keyed (hm_hasher m) bs" "length bs < 2 ^ 64" "\<And>j. j < i \<Longrightarrow> bs ! j = None"
    "hm_rep m nb" "distinct (map fst (kvs nb @ kvs bs))" "occupied nb + occupied bs \<le> length nb"
  shows "\<exists>it nb'. reinsert \<lparr>ti_table = rt_of bs, ti_idx = i\<rparr> m = Some (it, m\<lparr>hm_table := rt_of nb'\<rparr>) \<and>
    rt_size (ti_table it) = 0 \<and> hm_rep (m\<lparr>hm_table := rt_of nb'\<rparr>) nb' \<and> length nb' = length nb \<and>
    mset (kvs nb') = mset (kvs nb @ kvs bs)"
  using assms
proof (induction "occupied bs" arbitrary: bs i m nb)
  case 0
  obtain i' where "move_next_from (rt_of bs) i = Some (None, \<lparr>ti_table = rt_of bs, ti_idx = i'\<rparr>)"
    using move_next_end [OF keyed_safe [OF 0(2)]] not_occupied [OF 0(1) [symmetric]] by blast
  moreover have "kvs bs = []" using 0(1) by (metis length_0_conv length_kvs)
  ultimately show ?case using 0
    by (intro exI [of _ "\<lparr>ti_table = rt_of bs, ti_idx = i'\<rparr>"] exI [of _ nb])
      (simp add: reinsert.simps move_entries_next_def hm_rep_def)
next
  case (Suc x)
  obtain j b where j: "i \<le> j" "j < length bs" "bs ! j = Some b" "\<forall>l < j. bs ! l = None"
    using first_full [of bs i] Suc.hyps(2) Suc.prems(3) by auto
  obtain h k v where b: "b = (h, k, v)" by (cases b)
  let ?bs = "bs[j := None]"
  note bs_j = j(3) [unfolded b]
  have "move_next_from (rt_of bs) i = Some (Some (h, k, v), \<lparr>ti_table = rt_of ?bs, ti_idx = Suc j\<rparr>)"
    using move_next_item [OF keyed_safe [OF Suc.prems(1)] Suc.prems(2) j(2) bs_j j(1)] j(4) by simp
  then have step: "reinsert \<lparr>ti_table = rt_of bs, ti_idx = i\<rparr> m =
      do { (_, m') \<leftarrow> manual_insert_hashed_nocheck m h k v; reinsert \<lparr>ti_table = rt_of ?bs, ti_idx = Suc j\<rparr> m' }"
    by (simp add: reinsert.simps [of "\<lparr>ti_table = rt_of bs, ti_idx = i\<rparr>"] move_entries_next_def)
  have mset: "add_mset (Some (h, k, v)) (mset ?bs) = add_mset None (mset bs)"
    using j(2) by (simp add: mset_update insert_DiffM flip: bs_j)
  have kv: "mset (kvs bs) = add_mset (k, v) (mset (kvs ?bs))" using kvs_put [OF mset [symmetric]] .
  have "Some (h, k, v) \<in> set bs" using j(2) bs_j by (metis nth_mem)
  then have h: "h = rt_make_hash (hm_hasher m) k" by (rule keyed_hash [OF Suc.prems(1)])
  note taken = keyed_take [OF Suc.prems(1) mset]
  have "occupied nb < length nb" using Suc.prems(6) Suc.hyps(2) by linarith
  have "(k, v) \<in> set (kvs bs)" unfolding in_kvs using j(2) bs_j by (metis nth_mem)
  then have absent: "map_of (kvs nb) k = None" using Suc.prems(5) by (force simp: map_of_eq_None_iff)
  obtain i' nb1 where nb1:
      "manual_insert_hashed_nocheck m h k v = Some (i', m\<lparr>hm_table := rt_of nb1\<rparr>)"
      "hm_rep (m\<lparr>hm_table := rt_of nb1\<rparr>) nb1" "length nb1 = length nb" "mset (kvs nb1) = add_mset (k, v) (mset (kvs nb))"
    using absent by (cases rule: put_ok [OF Suc.prems(4) \<open>occupied nb < length nb\<close> h, of v]) auto
  have eq: "mset (kvs nb1 @ kvs ?bs) = mset (kvs nb @ kvs bs)" using nb1(4) kv by simp
  have "distinct (map fst (kvs nb1 @ kvs ?bs))"
    using Suc.prems(5) eq by (metis mset_eq_imp_distinct_iff mset_map)
  moreover have "occupied nb1 + occupied ?bs \<le> length nb1"
    using Suc.prems(6) nb1(3) arg_cong [OF eq, of size] by simp
  moreover have "x = occupied ?bs" using Suc.hyps(2) taken(3) by simp
  moreover have "?bs ! l = None" if "l < Suc j" for l using that j(2,4) by (auto simp: less_Suc_eq nth_list_update)
  ultimately obtain it nb' where
    "reinsert \<lparr>ti_table = rt_of ?bs, ti_idx = Suc j\<rparr> (m\<lparr>hm_table := rt_of nb1\<rparr>) = Some (it, m\<lparr>hm_table := rt_of nb'\<rparr>)"
    "rt_size (ti_table it) = 0" "hm_rep (m\<lparr>hm_table := rt_of nb'\<rparr>) nb'" "length nb' = length nb"
    "mset (kvs nb') = mset (kvs nb1 @ kvs ?bs)"
    using Suc.hyps(1) [of ?bs "m\<lparr>hm_table := rt_of nb1\<rparr>" "Suc j" nb1] taken(1) Suc.prems(2) nb1(2,3) by auto
  then show ?case using step nb1(1) unfolding eq by (intro exI [of _ it] exI [of _ nb']) simp
qed

text \<open>The largest capacity for which the three arrays of a table can be allocated.\<close>

definition hm_max_capacity :: "uint \<Rightarrow> uint \<Rightarrow> uint" where
  "hm_max_capacity size_k size_v = uint_max div max 8 (max size_k size_v)"

lemma max_capacity_alloc:
  assumes "c \<le> hm_max_capacity size_k size_v"
  shows "c * max 8 (max size_k size_v) \<le> uint_max" "c < 2 ^ 61"
proof -
  show le: "c * max 8 (max size_k size_v) \<le> uint_max"
    using assms by (simp add: hm_max_capacity_def less_eq_div_iff_mult_less_eq)
  have "c * 8 \<le> c * max 8 (max size_k size_v)" by (intro mult_le_mono2) simp
  then have "c * 8 \<le> uint_max" using le by (rule order.trans)
  then show "c < 2 ^ 61" by (simp add: uint_max_def)
qed

lemma power_bound: "2 ^ K < (2 :: nat) ^ n \<Longrightarrow> K < n"
  by (metis one_less_numeral_iff power_less_imp_less_exp semiring_norm(76))

lemma power_of_two_check:
  assumes "K \<le> 62"
  shows "(of_nat (2 ^ K) - 1) AND of_nat (2 ^ K) = (0 :: 64 word)"
proof -
  have "(2::nat) ^ K < 2 ^ 64" using assms by (intro power_strict_increasing) auto
  then have "unat ((of_nat (2 ^ K) - 1) AND of_nat (2 ^ K) :: 64 word) = 0"
    using mask_power [of "of_nat (2 ^ K)" K] by (simp add: and.commute unat_of_nat del: of_nat_power)
  then show ?thesis by (rule unsigned_eq_0_iff [THEN iffD1])
qed

lemma robin_replicate: "robin (replicate n None)"
  by (auto simp: robin_def ordered_at_def disp_def nxt_def)

lemma resize_ok:
  assumes m: "hm_table m = rt_of bs" "keyed (hm_hasher m) bs" "length bs < 2 ^ 64" "hm_load_factor m = INITIAL_LOAD_FACTOR"
    and c: "occupied bs \<le> 2 ^ K" "2 ^ K \<le> hm_max_capacity size_k size_v"
  shows "\<exists>m' bs'. resize size_k size_v m (2 ^ K) = Some m' \<and> hm_rep m' bs' \<and> length bs' = 2 ^ K \<and>
    mset (kvs bs') = mset (kvs bs) \<and> hm_hasher m' = hm_hasher m"
proof -
  let ?nb = "replicate (2 ^ K) None :: ('a, 'b) buckets"
  let ?m = "m\<lparr>hm_grow_at := grow_at (2 ^ K) INITIAL_LOAD_FACTOR, hm_table := rt_of ?nb\<rparr>"
  have "K < 61" using max_capacity_alloc(2) [OF c(2)] by (rule power_bound)
  then have K: "K \<le> 62" by simp
  have keyed: "keyed (hm_hasher m) ?nb" by (simp add: keyed_def)
  have "anchored ?nb" by (rule anchored_free) simp
  then have rep: "hm_rep ?m ?nb"
    using K keyed_safe [OF keyed] keyed robin_replicate m(4) by (auto simp: hm_rep_def hm_buckets_def)
  have d: "distinct (map fst (kvs ?nb @ kvs bs))" using m(2) by (simp add: keyed_def)
  have fits: "occupied ?nb + occupied bs \<le> length ?nb" using c(1) by simp
  have keyed': "keyed (hm_hasher ?m) bs" using m(2) by simp
  from reinsert_ok [OF keyed' m(3) _ rep d fits, of 0] obtain it nb' where r:
    "reinsert \<lparr>ti_table = rt_of bs, ti_idx = 0\<rparr> ?m = Some (it, ?m\<lparr>hm_table := rt_of nb'\<rparr>)" "rt_size (ti_table it) = 0"
    "hm_rep (?m\<lparr>hm_table := rt_of nb'\<rparr>) nb'" "length nb' = 2 ^ K" "mset (kvs nb') = mset (kvs bs)" by auto
  have "rt_drop (ti_table it) = Some ()"
    using r(2) by (cases "rev [0..<rt_capacity (ti_table it)]") (simp_all add: rt_drop_def)
  moreover have "occupied nb' = occupied bs" using r(5) by (metis length_kvs size_mset)
  moreover have "rt_new size_k size_v (2 ^ K) = Some (rt_of ?nb)" by (rule new_of [OF max_capacity_alloc(1) [OF c(2)]])
  ultimately have "resize size_k size_v m (2 ^ K) = Some (?m\<lparr>hm_table := rt_of nb'\<rparr>)"
    using r(1) c(1) m(1,4) power_of_two_check [OF K] by (simp add: resize_def rt_iter_def Let_def)
  with r show ?thesis by (intro exI [of _ "?m\<lparr>hm_table := rt_of nb'\<rparr>"] exI [of _ nb']) simp
qed

lemma make_some_room_ok:
  assumes m: "hm_rep m bs" "length bs \<le> hm_max_capacity size_k size_v" "occupied bs \<le> Suc n"
    and n: "4 * max 1 n \<le> hm_max_capacity size_k size_v"
  shows "\<exists>m' bs'. make_some_room size_k size_v m n = Some m' \<and> hm_rep m' bs' \<and>
    length bs' \<le> hm_max_capacity size_k size_v \<and> mset (kvs bs') = mset (kvs bs) \<and> hm_hasher m' = hm_hasher m \<and>
    (occupied bs < n \<longrightarrow> occupied bs' < length bs')"
proof -
  have rep: "hm_table m = rt_of bs" "keyed (hm_hasher m) bs" "hm_load_factor m = INITIAL_LOAD_FACTOR"
    "hm_grow_at m = grow_at (length bs) INITIAL_LOAD_FACTOR" "hm_buckets m bs"
    using m(1) by (simp_all add: hm_rep_def hm_buckets_def)
  obtain K where K: "length bs = 2 ^ K" using rep(5) by (auto simp: hm_buckets_def)
  have "K < 61" using max_capacity_alloc(2) [OF m(2)] unfolding K by (rule power_bound)
  then have "(2::nat) ^ K \<le> 2 ^ 60" by (intro power_increasing) auto
  then have bound: "length bs \<le> 2 ^ 60" by (simp only: K)
  have lt: "length bs < 2 ^ 64" using bound by simp
  have grow: "hm_grow_at m = length bs * 9 div 10"
    using rep(4) bound by (simp add: grow_at_def fraction_mul_def INITIAL_LOAD_FACTOR_def wmul_exact)
  have resized: ?thesis if J: "resize size_k size_v m (2 ^ J) = make_some_room size_k size_v m n"
    "occupied bs \<le> 2 ^ J" "2 ^ J \<le> hm_max_capacity size_k size_v" "occupied bs < n \<Longrightarrow> occupied bs < 2 ^ J" for J
  proof -
    obtain m' bs' where r: "resize size_k size_v m (2 ^ J) = Some m'" "hm_rep m' bs'" "length bs' = 2 ^ J"
      "mset (kvs bs') = mset (kvs bs)" "hm_hasher m' = hm_hasher m"
      using resize_ok [OF rep(1,2) lt rep(3) J(2,3)] by blast
    have "occupied bs' = occupied bs" using r(4) by (metis length_kvs size_mset)
    with r J show ?thesis by (intro exI [of _ m'] exI [of _ bs']) simp
  qed
  have occ: "occupied bs \<le> length bs" by (rule occupied_le)
  consider "hm_grow_at m \<le> n" | "n < hm_grow_at m" "n \<le> shrink_at m" "hm_minimum_capacity m \<le> length bs div 2"
    | "n < hm_grow_at m" "n \<le> shrink_at m \<Longrightarrow> \<not> hm_minimum_capacity m \<le> length bs div 2" by linarith
  then show ?thesis
  proof cases
    case 1
    have "2 * length bs \<le> 4 * max 1 n"
    proof (cases K)
      case (Suc K')
      then show ?thesis using 1 K grow by (simp add: max_def) linarith
    qed (simp add: K)
    then have "2 ^ Suc K \<le> hm_max_capacity size_k size_v" using n K by simp
    moreover have "make_some_room size_k size_v m n = resize size_k size_v m (2 ^ Suc K)"
      using 1 rep(1) bound K by (simp add: make_some_room_def Let_def wmul_exact mult.commute)
    moreover have "occupied bs < 2 * length bs" using occ hm_buckets_length(1) [OF rep(5)] by linarith
    then have "occupied bs < 2 ^ Suc K" by (simp add: K)
    ultimately show ?thesis by (intro resized [of "Suc K"]) auto
  next
    case 2
    have "K \<noteq> 0" using 2(1) grow K by (intro notI) simp
    then obtain K' where K': "K = Suc K'" by (cases K) auto
    have "make_some_room size_k size_v m n = resize size_k size_v m (2 ^ K')"
      using 2 rep(1) K K' by (simp add: make_some_room_def Let_def)
    moreover have "n \<le> 2 ^ K' div 2" using 2(2) rep(1) K K' by (simp add: shrink_at_def)
    moreover have "x div 2 + 1 \<le> x" if "0 < x" for x :: nat using that by presburger
    from this [of "2 ^ K'"] have "occupied bs \<le> 2 ^ K'" using calculation(2) m(3) by simp
    ultimately show ?thesis using m(2) K K' by (intro resized [of K']) auto
  next
    case 3
    then have "make_some_room size_k size_v m n = Some m"
      using rep(1) by (simp add: make_some_room_def Let_def)
    moreover have "occupied bs < length bs" if "occupied bs < n" using that 3(1) grow by linarith
    ultimately show ?thesis using m by blast
  qed
qed

section \<open>The invariant and the abstraction\<close>

definition buckets_of :: "('k, 'v) raw_table \<Rightarrow> ('k, 'v) buckets" where
  "buckets_of t = map (\<lambda>((h, k), v). case (k, v) of (Some k', Some v') \<Rightarrow> Some (the h, k', v') | _ \<Rightarrow> None)
     (zip (zip (rt_hashes t) (rt_keys t)) (rt_vals t))"

definition hm_abs :: "('k, 'v) hash_map \<Rightarrow> 'k \<rightharpoonup> 'v" where
  "hm_abs m = map_of (kvs (buckets_of (hm_table m)))"

definition hm_limit :: "uint \<Rightarrow> uint \<Rightarrow> nat" where
  "hm_limit size_k size_v = hm_max_capacity size_k size_v div 4"

definition hm_ok :: "uint \<Rightarrow> uint \<Rightarrow> ('k \<Rightarrow> 64 word) \<Rightarrow> ('k, 'v) hash_map \<Rightarrow> bool" where
  "hm_ok size_k size_v hasher m \<longleftrightarrow> (let bs = buckets_of (hm_table m) in
     hm_hasher m = hasher \<and> hm_rep m bs \<and> length bs \<le> hm_max_capacity size_k size_v \<and> occupied bs \<le> hm_limit size_k size_v)"

lemma buckets_of_rt_of [simp]: "buckets_of (rt_of bs) = bs"
  by (rule nth_equalityI) (auto simp: buckets_of_def rt_of_def split: option.split)

lemma hm_rep_table: "hm_rep m bs \<Longrightarrow> hm_table m = rt_of bs"
  by (simp add: hm_rep_def hm_buckets_def)

lemma hm_rep_keyed: "hm_rep m bs \<Longrightarrow> keyed (hm_hasher m) bs"
  by (simp add: hm_rep_def)

lemma hm_abs_rep: "hm_rep m bs \<Longrightarrow> hm_abs m = map_of (kvs bs)"
  by (simp add: hm_abs_def hm_rep_table)

lemma hm_okI: "hm_rep m bs \<Longrightarrow> hm_hasher m = hasher \<Longrightarrow> length bs \<le> hm_max_capacity size_k size_v \<Longrightarrow>
    occupied bs \<le> hm_limit size_k size_v \<Longrightarrow> hm_ok size_k size_v hasher m"
  by (simp add: hm_ok_def hm_rep_table)

lemma hm_okE:
  assumes "hm_ok size_k size_v hasher m"
  obtains bs where "hm_rep m bs" "hm_hasher m = hasher" "length bs \<le> hm_max_capacity size_k size_v"
    "occupied bs \<le> hm_limit size_k size_v" "hm_table m = rt_of bs" "hm_abs m = map_of (kvs bs)"
    "card (dom (hm_abs m)) = occupied bs"
proof -
  let ?bs = "buckets_of (hm_table m)"
  have ok: "hm_rep m ?bs" "hm_hasher m = hasher" "length ?bs \<le> hm_max_capacity size_k size_v"
    "occupied ?bs \<le> hm_limit size_k size_v" using assms by (simp_all add: hm_ok_def Let_def)
  show thesis by (rule that [OF ok hm_rep_table [OF ok(1)] hm_abs_rep [OF ok(1)]])
    (simp add: hm_abs_rep [OF ok(1)] keyed_card [OF hm_rep_keyed [OF ok(1)]])
qed

lemma rep_mset:
  assumes "hm_rep m bs" "hm_rep m' bs'" "mset (kvs bs') = mset (kvs bs)"
  shows "hm_abs m' = hm_abs m" "occupied bs' = occupied bs" "map_of (kvs bs') = map_of (kvs bs)"
proof -
  show "map_of (kvs bs') = map_of (kvs bs)"
    using map_of_mset [OF assms(3)] hm_rep_keyed [OF assms(2)] by (simp add: keyed_def)
  then show "hm_abs m' = hm_abs m" by (simp add: hm_abs_rep [OF assms(1)] hm_abs_rep [OF assms(2)])
  show "occupied bs' = occupied bs" using assms(3) by (metis length_kvs size_mset)
qed

text \<open>Searching, for a key or for what is equivalent to it.\<close>

lemma search_found:
  assumes m: "hm_rep m bs" and q: "\<And>k'. is_match k' \<longleftrightarrow> k' = k" "h = rt_make_hash (hm_hasher m) k"
  obtains (absent) "search_hashed_generic m h is_match = Some None" "map_of (kvs bs) k = None"
  | (present) i v where "search_hashed_generic m h is_match = Some (Some (i, h))" "i < length bs" "bs ! i = Some (h, k, v)"
      "map_of (kvs bs) k = Some v" "rt_read (hm_table m) i = Some (k, v)"
proof -
  have rep: "hm_buckets m bs" "robin bs" "keyed (hm_hasher m) bs" "hm_table m = rt_of bs"
    using m by (simp_all add: hm_rep_def hm_buckets_def)
  note lookup = keyed_lookup [OF rep(3), of k, folded q(2)]
  obtain r where r: "search_hashed_generic m h is_match = Some r" "case r of
       None \<Rightarrow> \<forall>i < length bs. \<forall>k v. bs ! i = Some (h, k, v) \<longrightarrow> \<not> is_match k
     | Some (i, h') \<Rightarrow> h' = h \<and> i < length bs \<and> (\<exists>k v. bs ! i = Some (h, k, v) \<and> is_match k)"
    using search_generic_ok [OF rep(1,2)] by blast
  show thesis
  proof (cases r)
    case None
    then have "Some (h, k, v) \<notin> set bs" for v using r(2) q(1) by (auto simp: in_set_conv_nth)
    then have "map_of (kvs bs) k = None" using lookup by (metis not_None_eq)
    with None r(1) show thesis by (intro absent) simp_all
  next
    case (Some ih)
    then obtain i v where i: "ih = (i, h)" "i < length bs" "bs ! i = Some (h, k, v)" using r(2) q(1) by (cases ih) auto
    moreover have "map_of (kvs bs) k = Some v" using lookup i(2,3) by (metis nth_mem)
    ultimately show thesis using Some r(1) rep(4) read_of [of i bs] by (intro present) simp_all
  qed
qed

lemmas search_defs = hm_search_def search_hashed_def search_equiv_def make_hash_def

lemma hm_find_ok:
  assumes "hm_ok size_k size_v hasher m"
  shows "hm_find m k = Some (hm_abs m k)" "hm_contains_key m k = Some (k \<in> dom (hm_abs m))"
proof -
  from assms obtain bs where bs: "hm_rep m bs" "hm_abs m = map_of (kvs bs)" by (rule hm_okE)
  have "hm_find m k = Some (hm_abs m k) \<and> hm_contains_key m k = Some (k \<in> dom (hm_abs m))"
    by (rule search_found [OF bs(1), of "\<lambda>k'. k = k'" k])
      (auto simp: hm_find_def hm_contains_key_def search_defs bs(2))
  then show "hm_find m k = Some (hm_abs m k)" "hm_contains_key m k = Some (k \<in> dom (hm_abs m))" by simp_all
qed

text \<open>A query of another type that hashes as the key it is equivalent to.\<close>

lemma find_equiv_ok:
  assumes "hm_ok size_k size_v hasher m" "hash_q q = hasher k" "\<And>k'. eqv q k' \<longleftrightarrow> k' = k"
  shows "find_equiv m hash_q eqv q = Some (hm_abs m k)" "contains_key_equiv m hash_q eqv q = Some (k \<in> dom (hm_abs m))"
proof -
  from assms(1) obtain bs where bs: "hm_rep m bs" "hm_abs m = map_of (kvs bs)" "hm_hasher m = hasher" by (rule hm_okE)
  have "find_equiv m hash_q eqv q = Some (hm_abs m k) \<and> contains_key_equiv m hash_q eqv q = Some (k \<in> dom (hm_abs m))"
    by (rule search_found [OF bs(1), of "eqv q" k])
      (use assms(2,3) in \<open>auto simp: find_equiv_def contains_key_equiv_def search_defs bs(2,3) rt_make_hash_def\<close>)
  then show "find_equiv m hash_q eqv q = Some (hm_abs m k)"
    "contains_key_equiv m hash_q eqv q = Some (k \<in> dom (hm_abs m))" by simp_all
qed

lemma room_ok:
  assumes "hm_ok size_k size_v hasher m" "n \<le> hm_limit size_k size_v" "0 < hm_limit size_k size_v" "card (dom (hm_abs m)) \<le> Suc n"
  obtains m' bs' where "make_some_room size_k size_v m n = Some m'" "hm_rep m' bs'" "hm_hasher m' = hasher"
    "length bs' \<le> hm_max_capacity size_k size_v" "map_of (kvs bs') = hm_abs m" "occupied bs' = card (dom (hm_abs m))"
    "card (dom (hm_abs m)) < n \<Longrightarrow> occupied bs' < length bs'"
proof -
  from assms(1) obtain bs where bs: "hm_rep m bs" "hm_hasher m = hasher" "length bs \<le> hm_max_capacity size_k size_v"
    "hm_abs m = map_of (kvs bs)" "card (dom (hm_abs m)) = occupied bs" by (rule hm_okE)
  have "max 1 n \<le> hm_max_capacity size_k size_v div 4" using assms(2,3) by (simp add: hm_limit_def)
  then have "4 * max 1 n \<le> hm_max_capacity size_k size_v" by linarith
  from make_some_room_ok [OF bs(1,3) _ this] assms(4) bs(5) obtain m' bs' where r:
    "make_some_room size_k size_v m n = Some m'" "hm_rep m' bs'" "length bs' \<le> hm_max_capacity size_k size_v"
    "mset (kvs bs') = mset (kvs bs)" "hm_hasher m' = hm_hasher m" "occupied bs < n \<longrightarrow> occupied bs' < length bs'" by auto
  show thesis using that [OF r(1,2)] r rep_mset [OF bs(1) r(2,4)] bs by simp
qed

section \<open>What the operations do\<close>

lemma hm_swap_ok:
  assumes "hm_ok size_k size_v hasher m" "card (dom (hm_abs m)) < hm_limit size_k size_v"
  shows "\<exists>m'. hm_swap size_k size_v m k v = Some (hm_abs m k, m') \<and> hm_ok size_k size_v hasher m' \<and>
    hm_abs m' = (hm_abs m)(k \<mapsto> v)"
proof -
  let ?n = "Suc (card (dom (hm_abs m)))"
  from assms(1) obtain bs where bs: "hm_table m = rt_of bs" "card (dom (hm_abs m)) = occupied bs" "hm_hasher m = hasher"
    by (rule hm_okE)
  from assms(1) obtain m1 bs1 where r: "make_some_room size_k size_v m ?n = Some m1" "hm_rep m1 bs1" "hm_hasher m1 = hasher"
    "length bs1 \<le> hm_max_capacity size_k size_v" "map_of (kvs bs1) = hm_abs m" "occupied bs1 = card (dom (hm_abs m))"
    "occupied bs1 < length bs1"
    by (rule room_ok [of _ _ _ _ ?n]) (use assms(2) in auto)
  let ?h = "rt_make_hash hasher k"
  have call: "hm_swap size_k size_v m k v = swap_loop m1 ?h k v [0 ..< Suc (occupied bs1)]"
    using bs r(1) hm_rep_table [OF r(2)] by (simp add: hm_swap_def make_hash_def)
  have lim: "occupied bs' \<le> hm_limit size_k size_v" if "mset (kvs bs') = add_mset (k, v) (mset (kvs bs1))" for bs' :: "('a, 'b) buckets"
    using arg_cong [OF that, of size] r(6) assms(2) by simp
  have h: "?h = rt_make_hash (hm_hasher m1) k" using r(3) by simp
  from r(2,7) h show ?thesis
  proof (cases rule: put_ok [where v = v])
    case (found i v0)
    then show ?thesis using call r assms(2) occupied_replace [OF found(2,3), of "(?h, k, v)"]
      by (intro exI [of _ "m1\<lparr>hm_table := rt_of (bs1[i := Some (?h, k, v)])\<rparr>"])
        (auto intro!: hm_okI simp: hm_abs_rep)
  next
    case (put i bs')
    then show ?thesis using call r lim
      by (intro exI [of _ "m1\<lparr>hm_table := rt_of bs'\<rparr>"]) (auto intro!: hm_okI simp: hm_abs_rep)
  qed
qed

text \<open>Popping through either search.\<close>

lemma pop_found:
  assumes "hm_rep m bs" "hm_hasher m = hasher" "length bs \<le> hm_max_capacity size_k size_v"
    "occupied bs \<le> hm_limit size_k size_v" "\<And>k'. is_match k' \<longleftrightarrow> k' = k" "h = rt_make_hash hasher k"
  shows "\<exists>m'. do { r \<leftarrow> search_hashed_generic m h is_match;
        case r of None \<Rightarrow> Some (None, m) | Some (idx, _) \<Rightarrow> do { (v, m2) \<leftarrow> pop_internal m idx; Some (Some v, m2) } } =
      Some (map_of (kvs bs) k, m') \<and> hm_ok size_k size_v hasher m' \<and> hm_abs m' = (map_of (kvs bs))(k := None)"
proof -
  have h: "h = rt_make_hash (hm_hasher m) k" using assms(2,6) by simp
  from assms(1,5) h show ?thesis
  proof (cases rule: search_found)
    case absent
    have "hm_ok size_k size_v hasher m" using assms(1-4) by (rule hm_okI)
    then show ?thesis using absent hm_abs_rep [OF assms(1)] by (intro exI [of _ m]) (auto simp: fun_eq_iff)
  next
    case (present i v)
    have rep: "hm_buckets m bs" "robin bs" "anchored bs" "keyed (hm_hasher m) bs" using assms(1) by (simp_all add: hm_rep_def)
    from pop_internal_ok [OF rep(1-3) present(2,3)] obtain bs' where bs':
      "pop_internal m i = Some (v, m\<lparr>hm_table := rt_of bs'\<rparr>)" "robin bs'" "length bs' = length bs"
      "add_mset (Some (h, k, v)) (mset bs') = add_mset None (mset bs)" by blast
    note taken = keyed_take [OF rep(4) bs'(4)]
    have "occupied bs' < length bs'" using taken(3) occupied_le [of bs] bs'(3) by simp
    then have rep': "hm_rep (m\<lparr>hm_table := rt_of bs'\<rparr>) bs'"
      using hm_rep_update [OF assms(1) bs'(3,2) anchored_free taken(1)] by simp
    have "hm_ok size_k size_v hasher (m\<lparr>hm_table := rt_of bs'\<rparr>)"
      using assms(2-4) bs'(3) taken(3) by (intro hm_okI [OF rep']) simp_all
    then show ?thesis using present bs'(1) taken(2) hm_abs_rep [OF rep']
      by (intro exI [of _ "m\<lparr>hm_table := rt_of bs'\<rparr>"]) simp
  qed
qed

lemma pop_room:
  assumes "hm_ok size_k size_v hasher m"
  obtains (empty) "rt_size (hm_table m) = 0" "hm_abs m = Map.empty"
  | (room) m1 bs1 where "rt_size (hm_table m) \<noteq> 0" "make_some_room size_k size_v m (rt_size (hm_table m) - 1) = Some m1"
      "hm_rep m1 bs1" "hm_hasher m1 = hasher" "length bs1 \<le> hm_max_capacity size_k size_v"
      "occupied bs1 \<le> hm_limit size_k size_v" "map_of (kvs bs1) = hm_abs m"
proof -
  from assms obtain bs where bs: "hm_table m = rt_of bs" "card (dom (hm_abs m)) = occupied bs" "hm_abs m = map_of (kvs bs)"
    "occupied bs \<le> hm_limit size_k size_v" by (rule hm_okE)
  show thesis
  proof (cases "occupied bs = 0")
    case True
    then have "kvs bs = []" by (metis length_0_conv length_kvs)
    with True bs show thesis by (intro empty) simp_all
  next
    case False
    from assms show thesis
      by (rule room_ok [of _ _ _ _ "occupied bs - 1"]) (use False bs room in auto)
  qed
qed

lemma hm_pop_ok:
  assumes "hm_ok size_k size_v hasher m"
  shows "\<exists>m'. hm_pop size_k size_v m k = Some (hm_abs m k, m') \<and> hm_ok size_k size_v hasher m' \<and>
      hm_abs m' = (hm_abs m)(k := None)"
  using assms
proof (cases rule: pop_room)
  case empty
  then show ?thesis using assms by (simp add: hm_pop_def fun_eq_iff)
next
  case (room m1 bs1)
  from pop_found [OF room(3-6), of "(=) k" k, OF eq_commute refl] room show ?thesis
    by (auto simp: hm_pop_def search_defs)
qed

lemma pop_equiv_ok:
  assumes "hm_ok size_k size_v hasher m" "hash_q q = hasher k" "\<And>k'. eqv q k' \<longleftrightarrow> k' = k"
  shows "\<exists>m'. hm_pop_equiv size_k size_v m hash_q eqv q = Some (hm_abs m k, m') \<and> hm_ok size_k size_v hasher m' \<and>
      hm_abs m' = (hm_abs m)(k := None)"
  using assms(1)
proof (cases rule: pop_room)
  case empty
  then show ?thesis using assms(1) by (simp add: hm_pop_equiv_def fun_eq_iff)
next
  case (room m1 bs1)
  from pop_found [OF room(3-6) assms(3), of "rt_make_hash hash_q q"] room assms(2) show ?thesis
    by (auto simp: hm_pop_equiv_def search_defs rt_make_hash_def)
qed

lemma take_all:
  assumes "safe_hashes bs" "length bs < 2 ^ 64" "n \<le> length bs"
  shows "for_range (\<lambda>i t. take_if_full t i) [0 ..< n] (rt_of bs) = Some (rt_of (replicate n None @ drop n bs))"
  using assms(3)
proof (induction n)
  case (Suc n)
  let ?bs = "replicate n None @ drop n bs"
  have n: "n < length bs" using Suc.prems by simp
  then have at: "?bs ! n = bs ! n" "length ?bs = length bs" by (simp_all add: nth_append)
  have upd: "?bs[n := None] = replicate (Suc n) None @ drop (Suc n) bs"
    using n by (simp add: list_update_append replicate_append_same flip: Cons_nth_drop_Suc)
  have "safe_hashes ?bs" using assms(1) by (auto simp: safe_hashes_def dest: in_set_dropD)
  then have peek: "peek (rt_of ?bs) n = Some (case bs ! n of None \<Rightarrow> Empty n | Some (h, _) \<Rightarrow> Full n h)"
    using peek_of [of ?bs n] n at by simp
  have "take_if_full (rt_of ?bs) n = Some (rt_of (?bs[n := None]))"
  proof (cases "bs ! n")
    case None
    then have "?bs[n := None] = ?bs" using at(1) by (metis list_update_id)
    then show ?thesis using None peek by (simp add: take_if_full_def)
  next
    case (Some e)
    then obtain h k v where "bs ! n = Some (h, k, v)" by (cases e) auto
    then show ?thesis using take_of [of n ?bs h k v] peek n at assms(2) by (simp add: take_if_full_def)
  qed
  then show ?case using Suc by (simp add: upd for_range_append)
qed simp

lemma hm_clear_ok:
  assumes "hm_ok size_k size_v hasher m"
  shows "\<exists>m'. hm_clear m = Some m' \<and> hm_ok size_k size_v hasher m' \<and> hm_abs m' = Map.empty"
proof -
  from assms obtain bs where bs: "hm_rep m bs" "hm_hasher m = hasher" "length bs \<le> hm_max_capacity size_k size_v"
    "hm_table m = rt_of bs" by (rule hm_okE)
  have rep: "hm_buckets m bs" using bs(1) by (simp add: hm_rep_def)
  let ?nb = "replicate (length bs) None :: ('a, 'b) buckets"
  let ?m = "m\<lparr>hm_minimum_capacity := occupied bs, hm_table := rt_of ?nb\<rparr>"
  have "hm_clear m = Some ?m"
    using take_all [of bs "length bs"] rep hm_buckets_length(3) [OF rep] bs(4) by (simp add: hm_clear_def hm_buckets_def)
  moreover have "hm_rep ?m ?nb"
    using bs(1) hm_buckets_length(1) [OF rep] robin_replicate anchored_free [of ?nb]
    by (auto simp: hm_rep_def hm_buckets_def keyed_def safe_hashes_def)
  ultimately show ?thesis using bs by (intro exI [of _ ?m]) (auto intro!: hm_okI simp: hm_abs_rep)
qed

lemma reserve_power:
  assumes "2 * max 32 c \<le> hm_max_capacity size_k size_v"
  obtains cap K where "next_power_of_two (of_nat (max 32 c)) = Some cap" "unat cap = 2 ^ K"
    "unat cap \<le> hm_max_capacity size_k size_v" "max 32 c \<le> unat cap"
proof -
  let ?n = "of_nat (max 32 c) :: 64 word"
  have "max 32 c < 2 ^ 60" using max_capacity_alloc(2) [OF assms] by simp
  then have n: "unat ?n = max 32 c" by (simp add: unat_of_nat)
  then have "?n \<noteq> 0" using max.cobounded1 [of 32 c] by (intro notI) simp
  moreover have "\<not> 2 ^ 63 < ?n" using \<open>max 32 c < 2 ^ 60\<close> n by (simp add: word_less_nat_alt)
  ultimately obtain k where k: "k < 64" "next_power_of_two ?n = Some (2 ^ k)" "unat ?n \<le> 2 ^ k" "2 ^ k < 2 * unat ?n"
    using next_power_of_two_result [of ?n] by auto
  have "unat (2 ^ k :: 64 word) = 2 ^ k" by (rule unat_two_power [OF k(1)])
  then show thesis using k assms n by (intro that [of "2 ^ k" k]) simp_all
qed

lemma with_capacity_ok:
  assumes "next_power_of_two (of_nat (max 32 c)) = Some cap" "unat cap = 2 ^ K" "unat cap \<le> hm_max_capacity size_k size_v"
  shows "\<exists>m. with_capacity_and_hasher size_k size_v c hasher = Some m \<and> hm_ok size_k size_v hasher m \<and>
    hm_abs m = (Map.empty :: 'k \<rightharpoonup> 'v)"
proof -
  let ?nb = "replicate (unat cap) None :: ('k, 'v) buckets"
  let ?m = "\<lparr>hm_hasher = hasher, hm_grow_at = grow_at (unat cap) INITIAL_LOAD_FACTOR,
     hm_minimum_capacity = unat cap, hm_table = rt_of ?nb, hm_load_factor = INITIAL_LOAD_FACTOR\<rparr>"
  have "rt_new size_k size_v (unat cap) = Some (rt_of ?nb)" by (rule new_of [OF max_capacity_alloc(1) [OF assms(3)]])
  then have "with_capacity_and_hasher size_k size_v c hasher = Some ?m"
    using assms(1) by (simp add: with_capacity_and_hasher_def HM_INITIAL_CAPACITY_def INITIAL_LOG2_CAP_def)
  moreover have "hm_rep ?m ?nb"
  proof -
    have "2 ^ K < (2 :: nat) ^ 61" using max_capacity_alloc(2) [OF assms(3)] by (simp only: assms(2))
    then have "K < 61" by (rule power_bound)
    then have "\<exists>K \<le> 62. length ?nb = 2 ^ K" using assms(2) by (intro exI [of _ K]) simp
    moreover have "anchored ?nb" by (rule anchored_free) (simp add: assms(2))
    ultimately show ?thesis using robin_replicate
      by (auto simp: hm_rep_def hm_buckets_def keyed_def safe_hashes_def)
  qed
  ultimately show ?thesis using assms(3) by (intro exI [of _ ?m]) (auto intro!: hm_okI simp: hm_abs_rep)
qed

lemma reserve_ok:
  assumes "hm_ok size_k size_v hasher m" "next_power_of_two (of_nat (max 32 c)) = Some cap" "unat cap = 2 ^ K"
    "unat cap \<le> hm_max_capacity size_k size_v"
  shows "\<exists>m'. hm_reserve size_k size_v m c = Some m' \<and> hm_ok size_k size_v hasher m' \<and> hm_abs m' = hm_abs m \<and>
    unat cap \<le> rt_capacity (hm_table m')"
proof -
  from assms(1) obtain bs where bs: "hm_rep m bs" "hm_hasher m = hasher" "length bs \<le> hm_max_capacity size_k size_v"
    "occupied bs \<le> hm_limit size_k size_v" "hm_table m = rt_of bs" by (rule hm_okE)
  let ?m = "m\<lparr>hm_minimum_capacity := unat cap\<rparr>"
  have rep: "hm_rep ?m bs" using bs(1) by (simp add: hm_rep_def hm_buckets_def)
  have unfold: "hm_reserve size_k size_v m c = (if length bs < unat cap then resize size_k size_v ?m (unat cap) else Some ?m)"
    using assms(2) bs(5) by (simp add: hm_reserve_def HM_INITIAL_CAPACITY_def INITIAL_LOG2_CAP_def Let_def)
  show ?thesis
  proof (cases "length bs < unat cap")
    case True
    have "length bs < 2 ^ 64" using max_capacity_alloc(2) [OF bs(3)] by simp
    moreover have "occupied bs \<le> 2 ^ K" using True assms(3) occupied_le [of bs] by simp
    moreover have "2 ^ K \<le> hm_max_capacity size_k size_v" using assms(3,4) by simp
    ultimately obtain m' bs' where r: "resize size_k size_v ?m (2 ^ K) = Some m'" "hm_rep m' bs'" "length bs' = 2 ^ K"
      "mset (kvs bs') = mset (kvs bs)" "hm_hasher m' = hm_hasher ?m"
      using resize_ok [of ?m bs K size_k size_v] rep bs(5) by (auto simp: hm_rep_def)
    note same = rep_mset [OF rep r(2,4)]
    have "hm_abs ?m = hm_abs m" by (simp add: hm_abs_def)
    then show ?thesis using True unfold r same assms(3,4) bs(2,4) hm_rep_table [OF r(2)]
      by (intro exI [of _ m']) (auto intro!: hm_okI)
  next
    case False
    then show ?thesis using unfold rep bs by (intro exI [of _ ?m]) (auto intro!: hm_okI simp: hm_abs_def)
  qed
qed

text \<open>The operations that return a reference to a value: the bucket it lies in, and writing through it.\<close>

definition holds_at :: "('k, 'v) hash_map \<Rightarrow> nat \<Rightarrow> 'k \<Rightarrow> 'v \<Rightarrow> bool" where
  "holds_at m i k v \<longleftrightarrow> rt_read (hm_table m) i = Some (k, v) \<and> (\<exists>h. mem_read (rt_hashes (hm_table m)) i = Some h \<and> h \<noteq> 0)"

lemma holds_at_rep:
  assumes "hm_rep m bs" "i < length bs" "bs ! i = Some (h, k, v)"
  shows "holds_at m i k v"
proof -
  have "Some (h, k, v) \<in> set bs" using assms(2,3) by (metis nth_mem)
  then have "h \<noteq> 0" using keyed_safe [OF hm_rep_keyed [OF assms(1)]] by (auto simp: safe_hashes_def)
  then show ?thesis using assms read_of [OF assms(2,3)]
    by (auto simp: holds_at_def hm_rep_table [OF assms(1)] rt_of_def mem_read_def)
qed

lemma rep_holds_at:
  assumes "hm_rep m bs" "holds_at m i k v"
  shows "i < length bs \<and> (\<exists>h. bs ! i = Some (h, k, v))"
  using assms(2) unfolding holds_at_def hm_rep_table [OF assms(1)]
  by (auto simp: rt_of_def rt_read_def mem_read_def bind_eq_Some_conv split: if_splits option.splits)

lemma hm_ref_ok:
  assumes "hm_ok size_k size_v hasher m" "holds_at m i k v"
  shows "\<exists>set_ref. hm_ref m i = Some (v, set_ref) \<and>
    (\<forall>w. hm_ok size_k size_v hasher (set_ref w) \<and> hm_abs (set_ref w) = (hm_abs m)(k \<mapsto> w) \<and> holds_at (set_ref w) i k w)"
proof -
  from assms(1) obtain bs where bs: "hm_rep m bs" "hm_hasher m = hasher" "length bs \<le> hm_max_capacity size_k size_v"
    "occupied bs \<le> hm_limit size_k size_v" "hm_table m = rt_of bs" "hm_abs m = map_of (kvs bs)" by (rule hm_okE)
  from rep_holds_at [OF bs(1) assms(2)] obtain h where i: "i < length bs" "bs ! i = Some (h, k, v)" by auto
  let ?m = "\<lambda>w. m\<lparr>hm_table := rt_of (bs[i := Some (h, k, w)])\<rparr>"
  have rep: "hm_rep (?m w) (bs[i := Some (h, k, w)])" for w
    using bs(1) disp_same [OF i, of w] keyed_replace(1) [OF hm_rep_keyed [OF bs(1)] i, of w]
    by (intro hm_rep_update [OF bs(1)]) (simp_all add: hm_rep_def robin_def ordered_at_def anchored_def)
  have "hm_ref m i = Some (v, \<lambda>w. m\<lparr>hm_table := (rt_of bs)\<lparr>rt_vals := (rt_vals (rt_of bs))[i := Some w]\<rparr>\<rparr>)"
    using read_of [OF i] bs(5) by (simp add: hm_ref_def)
  moreover have "(rt_of bs)\<lparr>rt_vals := (rt_vals (rt_of bs))[i := Some w]\<rparr> = rt_of (bs[i := Some (h, k, w)])" for w
  proof -
    have "rt_replace_val (rt_of bs) i w = Some (v, (rt_of bs)\<lparr>rt_vals := (rt_vals (rt_of bs))[i := Some w]\<rparr>)"
      using i by (simp add: rt_replace_val_def read_of [OF i] mem_write_def) (simp add: rt_of_def)
    then show ?thesis using replace_val_of [OF i, of w] by simp
  qed
  ultimately have "hm_ref m i = Some (v, ?m)" by simp
  moreover have "hm_ok size_k size_v hasher (?m w)" for w
    using bs(2-4) occupied_replace [OF i, of "(h, k, w)"] by (intro hm_okI [OF rep]) simp_all
  moreover have "hm_abs (?m w) = (hm_abs m)(k \<mapsto> w)" for w
    using keyed_replace(2) [OF hm_rep_keyed [OF bs(1)] i, of w] by (simp add: hm_abs_rep [OF rep] bs(6))
  moreover have "holds_at (?m w) i k w" for w using holds_at_rep [OF rep, of i] i(1) by simp
  ultimately show ?thesis by blast
qed

lemma hm_search_cases:
  assumes "hm_ok size_k size_v hasher m"
  obtains (absent) "hm_search m k = Some None" "hm_abs m k = None"
  | (present) i h v where "hm_search m k = Some (Some (i, h))" "hm_abs m k = Some v" "holds_at m i k v"
proof -
  from assms obtain bs where bs: "hm_rep m bs" "hm_abs m = map_of (kvs bs)" by (rule hm_okE)
  have s: "hm_search m k = search_hashed_generic m (rt_make_hash (hm_hasher m) k) ((=) k)" by (simp add: search_defs)
  from bs(1) eq_commute refl show thesis
  proof (cases rule: search_found [of m bs "(=) k" k])
    case a: absent
    with s bs(2) show thesis by (intro absent) simp_all
  next
    case p: (present i v)
    then show thesis using s bs(2) holds_at_rep [OF bs(1) p(2,3)] by (intro present) simp_all
  qed
qed

lemma manual_insert_ok:
  assumes "hm_ok size_k size_v hasher m" "card (dom (hm_abs m)) < hm_limit size_k size_v" "hm_abs m k = None"
  shows "\<exists>i m'. manual_insert size_k size_v m k v = Some (i, m') \<and> hm_ok size_k size_v hasher m' \<and>
    hm_abs m' = (hm_abs m)(k \<mapsto> v) \<and> holds_at m' i k v"
proof -
  let ?n = "Suc (card (dom (hm_abs m)))"
  from assms(1) obtain bs where bs: "hm_table m = rt_of bs" "card (dom (hm_abs m)) = occupied bs" "hm_hasher m = hasher"
    by (rule hm_okE)
  from assms(1) obtain m1 bs1 where r: "make_some_room size_k size_v m ?n = Some m1" "hm_rep m1 bs1" "hm_hasher m1 = hasher"
    "length bs1 \<le> hm_max_capacity size_k size_v" "map_of (kvs bs1) = hm_abs m" "occupied bs1 = card (dom (hm_abs m))"
    "occupied bs1 < length bs1"
    by (rule room_ok [of _ _ _ _ ?n]) (use assms(2) in auto)
  have h: "rt_make_hash hasher k = rt_make_hash (hm_hasher m1) k" using r(3) by simp
  from r(2,7) h obtain i bs' where put: "manual_insert_hashed_nocheck m1 (rt_make_hash hasher k) k v = Some (i, m1\<lparr>hm_table := rt_of bs'\<rparr>)"
    "hm_rep (m1\<lparr>hm_table := rt_of bs'\<rparr>) bs'" "length bs' = length bs1" "map_of (kvs bs') = (map_of (kvs bs1))(k \<mapsto> v)"
    "mset (kvs bs') = add_mset (k, v) (mset (kvs bs1))" "i < length bs'" "bs' ! i = Some (rt_make_hash hasher k, k, v)"
    by (cases rule: put_ok [where v = v]) (use assms(3) r(5) in auto)
  have "occupied bs' \<le> hm_limit size_k size_v" using arg_cong [OF put(5), of size] r(6) assms(2) by simp
  then have "hm_ok size_k size_v hasher (m1\<lparr>hm_table := rt_of bs'\<rparr>)"
    using r(3,4) put(3) by (intro hm_okI [OF put(2)]) simp_all
  moreover have "manual_insert size_k size_v m k v = Some (i, m1\<lparr>hm_table := rt_of bs'\<rparr>)"
    using bs r(1) put(1) by (simp add: manual_insert_def manual_insert_hashed_def make_hash_def)
  ultimately show ?thesis
    using put(4) r(5) hm_abs_rep [OF put(2)] holds_at_rep [OF put(2,6,7)] by auto
qed

lemma find_or_insert_ok:
  assumes "hm_ok size_k size_v hasher m" "card (dom (hm_abs m)) < hm_limit size_k size_v"
  shows "\<exists>i m'. find_or_insert size_k size_v m k v = Some (i, m') \<and> hm_ok size_k size_v hasher m' \<and>
      hm_abs m' = (case hm_abs m k of None \<Rightarrow> (hm_abs m)(k \<mapsto> v) | Some _ \<Rightarrow> hm_abs m) \<and>
      holds_at m' i k (case hm_abs m k of None \<Rightarrow> v | Some v' \<Rightarrow> v')"
  using assms(1)
proof (cases rule: hm_search_cases [of _ _ _ _ k])
  case absent
  then show ?thesis using manual_insert_ok [OF assms, of k v] by (auto simp: find_or_insert_def)
qed (use assms(1) in \<open>auto simp: find_or_insert_def\<close>)

lemma insert_or_update_ok:
  assumes "hm_ok size_k size_v hasher m" "card (dom (hm_abs m)) < hm_limit size_k size_v"
  shows "\<exists>i m'. insert_or_update_with size_k size_v m k v f = Some (i, m') \<and> hm_ok size_k size_v hasher m' \<and>
      hm_abs m' = (hm_abs m)(k \<mapsto> (case hm_abs m k of None \<Rightarrow> v | Some v' \<Rightarrow> f k v')) \<and>
      holds_at m' i k (case hm_abs m k of None \<Rightarrow> v | Some v' \<Rightarrow> f k v')"
  using assms(1)
proof (cases rule: hm_search_cases [of _ _ _ _ k])
  case absent
  then show ?thesis using manual_insert_ok [OF assms, of k v] by (auto simp: insert_or_update_with_def)
next
  case (present i h v0)
  then show ?thesis using hm_ref_ok [OF assms(1) present(3)] by (auto simp: insert_or_update_with_def)
qed

section \<open>Interface\<close>

interpretation hm: bounded_map "hm_ok size_k size_v hasher" hm_abs "hm_limit size_k size_v" hm_len hm_find
  "hm_swap size_k size_v" "hm_pop size_k size_v" hm_clear
  for size_k size_v hasher
proof unfold_locales
  fix m :: "('a, 'b) hash_map" assume ok: "hm_ok size_k size_v hasher m"
  from ok show "finite (dom (hm_abs m))" by (rule hm_okE) (simp add: finite_dom_map_of)
  from ok show "hm_len m = card (dom (hm_abs m))" by (rule hm_okE) (simp add: hm_len_def)
qed (rule hm_find_ok, assumption, rule hm_swap_ok, assumption, assumption, rule hm_pop_ok, assumption, rule hm_clear_ok, assumption)

end
