(* ===== verification/HashSet.thy ===== *)
theory HashSet
  imports HashMapRefine
begin

text \<open>
  Iteration over hash maps and their equality, and \<open>HashSet\<close>, which is a hash map to \<open>()\<close> whose set
  operations are iterators composed of adapters.
\<close>

section \<open>Sets\<close>

type_synonym 't hash_set = "('t, unit) hash_map"

definition hs_len :: "'t hash_set \<Rightarrow> uint" where
  "hs_len s = hm_len s"

definition hs_clear :: "'t hash_set \<Rightarrow> 't hash_set option" where
  "hs_clear s = hm_clear s"

definition hs_contains :: "'t hash_set \<Rightarrow> 't \<Rightarrow> bool option" where
  "hs_contains s v = do { r \<leftarrow> hm_search s v; Some (r \<noteq> None) }"

definition hs_iter :: "'t hash_set \<Rightarrow> ('t, unit) table_iter" where
  "hs_iter s = hm_iter s"

definition hs_eq :: "'t hash_set \<Rightarrow> 't hash_set \<Rightarrow> bool option" where
  "hs_eq s other =
     (if hs_len s \<noteq> hs_len other then Some False
      else iter_all (\<lambda>key. hm_contains_key other key) hm_keys_next (hs_iter s))"

definition hs_is_disjoint :: "'t hash_set \<Rightarrow> 't hash_set \<Rightarrow> bool option" where
  "hs_is_disjoint s other = iter_all (\<lambda>v. map_option Not (hs_contains other v)) hm_keys_next (hs_iter s)"

definition hs_is_subset :: "'t hash_set \<Rightarrow> 't hash_set \<Rightarrow> bool option" where
  "hs_is_subset s other = iter_all (\<lambda>v. hs_contains other v) hm_keys_next (hs_iter s)"

definition hs_is_superset :: "'t hash_set \<Rightarrow> 't hash_set \<Rightarrow> bool option" where
  "hs_is_superset s other = hs_is_subset other s"

definition hs_insert :: "uint \<Rightarrow> 't hash_set \<Rightarrow> 't \<Rightarrow> (bool \<times> 't hash_set) option" where
  "hs_insert size_t s v = hm_insert size_t 0 s v ()"

definition hs_remove :: "uint \<Rightarrow> 't hash_set \<Rightarrow> 't \<Rightarrow> (bool \<times> 't hash_set) option" where
  "hs_remove size_t s v = hm_remove size_t 0 s v"

definition hs_with_capacity_and_hasher :: "uint \<Rightarrow> uint \<Rightarrow> ('t \<Rightarrow> 64 word) \<Rightarrow> 't hash_set option" where
  "hs_with_capacity_and_hasher size_t capacity hasher = with_capacity_and_hasher size_t 0 capacity hasher"

definition hs_with_hasher :: "uint \<Rightarrow> ('t \<Rightarrow> 64 word) \<Rightarrow> 't hash_set option" where
  "hs_with_hasher size_t hasher = hs_with_capacity_and_hasher size_t HM_INITIAL_CAPACITY hasher"

definition hs_reserve :: "uint \<Rightarrow> 't hash_set \<Rightarrow> uint \<Rightarrow> 't hash_set option" where
  "hs_reserve size_t s n = hm_reserve size_t 0 s n"

definition hs_contains_equiv :: "'t hash_set \<Rightarrow> ('q \<Rightarrow> 64 word) \<Rightarrow> ('q \<Rightarrow> 't \<Rightarrow> bool) \<Rightarrow> 'q \<Rightarrow> bool option" where
  "hs_contains_equiv s hash_q eqv q = contains_key_equiv s hash_q eqv q"

definition hs_move_next :: "('t, unit) table_iter \<Rightarrow> ('t option \<times> ('t, unit) table_iter) option" where
  "hs_move_next = map_next (\<lambda>(k, _). k) hm_move_next"

type_synonym 't algebra_items = "'t hash_set \<times> ('t, unit) table_iter"

definition hs_difference :: "'t hash_set \<Rightarrow> 't hash_set \<Rightarrow> 't algebra_items" where
  "hs_difference s other = (other, hs_iter s)"

definition hs_difference_next :: "'t algebra_items \<Rightarrow> ('t option \<times> 't algebra_items) option" where
  "hs_difference_next =
     filter_map_next (\<lambda>(other, elt). do { b \<leftarrow> hs_contains other elt; Some (if \<not> b then Some elt else None) })
       (zip_next repeat_next hm_keys_next)"

definition hs_symmetric_difference ::
  "'t hash_set \<Rightarrow> 't hash_set \<Rightarrow> ('t algebra_items, 't algebra_items) chain" where
  "hs_symmetric_difference s other = chain_new (hs_difference s other) (hs_difference other s)"

definition hs_symmetric_difference_next where
  "hs_symmetric_difference_next = chain_next hs_difference_next hs_difference_next"

definition hs_intersection :: "'t hash_set \<Rightarrow> 't hash_set \<Rightarrow> 't algebra_items" where
  "hs_intersection s other = (other, hs_iter s)"

definition hs_intersection_next :: "'t algebra_items \<Rightarrow> ('t option \<times> 't algebra_items) option" where
  "hs_intersection_next =
     filter_map_next (\<lambda>(other, elt). do { b \<leftarrow> hs_contains other elt; Some (if b then Some elt else None) })
       (zip_next repeat_next hm_keys_next)"

definition hs_union :: "'t hash_set \<Rightarrow> 't hash_set \<Rightarrow> (('t, unit) table_iter, 't algebra_items) chain" where
  "hs_union s other = chain_new (hs_iter s) (hs_difference other s)"

definition hs_union_next where
  "hs_union_next = chain_next hm_keys_next hs_difference_next"

fun hs_extend :: "uint \<Rightarrow> 't hash_set \<Rightarrow> 't list \<Rightarrow> 't hash_set option" where
  "hs_extend size_t s [] = Some s"
| "hs_extend size_t s (k # ks) = do { (_, s') \<leftarrow> hs_insert size_t s k; hs_extend size_t s' ks }"

definition hs_from_iter :: "uint \<Rightarrow> ('t \<Rightarrow> 64 word) \<Rightarrow> uint \<Rightarrow> 't list \<Rightarrow> 't hash_set option" where
  "hs_from_iter size_t hasher lower ks =
     do { s \<leftarrow> hs_with_capacity_and_hasher size_t lower hasher; hs_extend size_t s ks }"

section \<open>Iterators\<close>

definition entries_ok :: "('k, 'v) table_iter \<Rightarrow> bool" where
  "entries_ok it \<longleftrightarrow> (let bs = buckets_of (ti_table it) in ti_table it = rt_of bs \<and> safe_hashes bs \<and> ti_idx it \<le> length bs)"

definition entries_pending :: "('k, 'v) table_iter \<Rightarrow> ('k \<times> 'v) list" where
  "entries_pending it = kvs (drop (ti_idx it) (buckets_of (ti_table it)))"

lemma kvs_drop:
  "i < length bs \<Longrightarrow> kvs (drop i bs) = (case bs ! i of None \<Rightarrow> [] | Some (_, kv) \<Rightarrow> [kv]) @ kvs (drop (Suc i) bs)"
  by (auto simp: kvs_def split: option.split simp flip: Cons_nth_drop_Suc)

lemma entries_next_of:
  assumes "safe_hashes bs" "i \<le> length bs"
  shows "\<exists>i'. i' \<le> length bs \<and> kvs (drop i' bs) = tl (kvs (drop i bs)) \<and>
    entries_next_from (rt_of bs) i = Some (if kvs (drop i bs) = [] then None else Some (hd (kvs (drop i bs))), i')"
  using assms(2)
proof (induction "length bs - i" arbitrary: i)
  case 0
  then show ?case by (intro exI [of _ i]) (simp add: entries_next_from.simps kvs_def)
next
  case (Suc x)
  then have i: "i < length bs" by simp
  note unfold = entries_next_from.simps [of _ i] peek_of [OF assms(1)]
  show ?case
  proof (cases "bs ! i")
    case None
    from Suc.hyps(1) [of "Suc i"] Suc.hyps(2) i show ?thesis using None by (auto simp: unfold kvs_drop [OF i])
  next
    case (Some e)
    then obtain h k v where e: "bs ! i = Some (h, k, v)" by (cases e) auto
    with i read_of [OF i e] show ?thesis by (intro exI [of _ "Suc i"]) (simp add: unfold kvs_drop [OF i])
  qed
qed

interpretation hm_entries: fallible_source entries_ok entries_pending table_next
proof
  fix it :: "('a, 'b) table_iter" assume "entries_ok it"
  then obtain bs where bs: "ti_table it = rt_of bs" "safe_hashes bs" "ti_idx it \<le> length bs" by (auto simp: entries_ok_def Let_def)
  from entries_next_of [OF bs(2,3)] bs show "\<exists>it'. entries_ok it' \<and> entries_pending it' = tl (entries_pending it) \<and>
      table_next it = Some (if entries_pending it = [] then None else Some (hd (entries_pending it)), it')"
    by (force simp: table_next_def entries_ok_def entries_pending_def)
qed

definition keys_pending :: "('k, 'v) table_iter \<Rightarrow> 'k list" where
  "keys_pending it = map (\<lambda>(k, _). k) (entries_pending it)"

interpretation hm_keys: fallible_source entries_ok keys_pending hm_keys_next
  using hm_entries.map_source [of "\<lambda>(k, _). k"] by (simp add: hm_keys_next_def keys_pending_def [abs_def])

text \<open>The consuming iterator, with the hashes.\<close>

definition move_ok :: "('k, 'v) table_iter \<Rightarrow> bool" where
  "move_ok it \<longleftrightarrow> entries_ok it \<and> rt_capacity (ti_table it) < 2 ^ 64"

lemma move_next_of:
  assumes "safe_hashes bs" "i \<le> length bs" "length bs < 2 ^ 64"
  shows "\<exists>it. move_ok it \<and> entries_pending it = tl (kvs (drop i bs)) \<and>
    (\<exists>r. move_next_from (rt_of bs) i = Some (r, it) \<and>
      map_option snd r = (if kvs (drop i bs) = [] then None else Some (hd (kvs (drop i bs)))))"
  using assms(2)
proof (induction "length bs - i" arbitrary: i)
  case 0
  then show ?case using assms(1,3)
    by (intro exI [of _ "\<lparr>ti_table = rt_of bs, ti_idx = i\<rparr>"])
      (simp add: move_next_from.simps kvs_def move_ok_def entries_ok_def entries_pending_def)
next
  case (Suc x)
  then have i: "i < length bs" by simp
  note unfold = move_next_from.simps [of _ i] peek_of [OF assms(1)]
  show ?case
  proof (cases "bs ! i")
    case None
    from Suc.hyps(1) [of "Suc i"] Suc.hyps(2) i show ?thesis using None by (auto simp: unfold kvs_drop [OF i])
  next
    case (Some e)
    then obtain h k v where e: "bs ! i = Some (h, k, v)" by (cases e) auto
    have "safe_hashes (bs[i := None])" using assms(1) by (rule safe_hashes_update) simp
    with i e assms(3) take_of [OF i e assms(3)] show ?thesis
      by (intro exI [of _ "\<lparr>ti_table = rt_of (bs[i := None]), ti_idx = Suc i\<rparr>"])
        (simp add: unfold kvs_drop [OF i] move_ok_def entries_ok_def entries_pending_def)
  qed
qed

interpretation hm_moves: fallible_source move_ok entries_pending hm_move_next
proof
  fix it :: "('a, 'b) table_iter" assume ok: "move_ok it"
  then obtain bs where bs: "ti_table it = rt_of bs" "safe_hashes bs" "ti_idx it \<le> length bs"
    by (auto simp: move_ok_def entries_ok_def Let_def)
  have "length bs < 2 ^ 64" using ok bs(1) by (simp add: move_ok_def)
  from move_next_of [OF bs(2,3) this] obtain it' r where r: "move_ok it'" "entries_pending it' = tl (kvs (drop (ti_idx it) bs))"
    "move_next_from (rt_of bs) (ti_idx it) = Some (r, it')"
    "map_option snd r = (if kvs (drop (ti_idx it) bs) = [] then None else Some (hd (kvs (drop (ti_idx it) bs))))" by blast
  have "hm_move_next it = Some (map_option snd r, it')"
    using r(3) bs(1) by (cases r) (auto simp: hm_move_next_def map_next_def move_entries_next_def)
  with r(1,2,4) bs(1) show "\<exists>it'. move_ok it' \<and> entries_pending it' = tl (entries_pending it) \<and>
      hm_move_next it = Some (if entries_pending it = [] then None else Some (hd (entries_pending it)), it')"
    by (auto simp: entries_pending_def)
qed

text \<open>A fresh iterator has all entries of the map before it.\<close>

lemma iter_rep:
  assumes "hm_rep m bs"
  shows "entries_ok (hm_iter m)" "entries_pending (hm_iter m) = kvs bs" "move_ok (hm_iter m)"
  using hm_rep_table [OF assms] keyed_safe [OF hm_rep_keyed [OF assms]] hm_buckets_length [of m bs] assms
  by (auto simp: hm_iter_def rt_iter_def entries_ok_def entries_pending_def move_ok_def hm_rep_def)

lemma iter_ok:
  assumes "hm_ok size_k size_v hasher m"
  shows "entries_ok (hm_iter m)" "move_ok (hm_iter m)" "distinct (map fst (entries_pending (hm_iter m)))"
    "hm_abs m = map_of (entries_pending (hm_iter m))" "length (entries_pending (hm_iter m)) = hm_len m"
    "set (keys_pending (hm_iter m)) = dom (hm_abs m)" "distinct (keys_pending (hm_iter m))"
proof -
  from assms obtain bs where bs: "hm_rep m bs" "hm_abs m = map_of (kvs bs)" "hm_table m = rt_of bs" by (rule hm_okE)
  note it = iter_rep [OF bs(1)]
  show "entries_ok (hm_iter m)" "move_ok (hm_iter m)" by (rule it)+
  show d: "distinct (map fst (entries_pending (hm_iter m)))"
    using hm_rep_keyed [OF bs(1)] by (simp add: it(2) keyed_def)
  show "hm_abs m = map_of (entries_pending (hm_iter m))" by (simp add: it(2) bs(2))
  show "length (entries_pending (hm_iter m)) = hm_len m" by (simp add: it(2) bs(3) hm_len_def)
  have keys: "keys_pending (hm_iter m) = map fst (entries_pending (hm_iter m))" by (auto simp: keys_pending_def)
  show "distinct (keys_pending (hm_iter m))" using d by (simp add: keys)
  show "set (keys_pending (hm_iter m)) = dom (hm_abs m)" by (simp add: keys it(2) bs(2) dom_map_of_conv_image_fst)
qed

section \<open>Equality\<close>

lemma map_eq_by_lookup:
  assumes "card (dom f) = card (dom g)" "finite (dom g)" "\<And>k v. f k = Some v \<Longrightarrow> g k = Some v"
  shows "f = g"
proof -
  have sub: "dom f \<subseteq> dom g" using assms(3) by (auto simp: dom_def)
  then have "dom f = dom g" using assms(1,2) by (intro card_subset_eq) simp_all
  then show ?thesis using assms(3) by (intro ext) (metis domIff not_None_eq)
qed

lemma hm_eq_ok:
  assumes "hm_ok size_k size_v hasher m" "hm_ok size_k' size_v' hasher' other"
  shows "hm_eq (=) m other = Some (hm_abs m = hm_abs other)"
proof (cases "hm_len m = hm_len other")
  case False
  then have "hm_abs m \<noteq> hm_abs other" using hm.len_ok [OF assms(1)] hm.len_ok [OF assms(2)] by auto
  with False show ?thesis by (simp add: hm_eq_def)
next
  case True
  note it = iter_ok [OF assms(1)]
  let ?g = "\<lambda>(k, v). hm_abs other k = Some v"
  have "hm_eq (=) m other = Some (list_all ?g (entries_pending (hm_iter m)))"
    unfolding hm_eq_def using True hm_find_ok(1) [OF assms(2)]
    by (subst hm_entries.iter_all_ok [OF it(1), of _ ?g]) (auto split: option.splits)
  moreover have "list_all ?g (entries_pending (hm_iter m)) \<longleftrightarrow> hm_abs m = hm_abs other"
  proof
    assume "list_all ?g (entries_pending (hm_iter m))"
    then have "hm_abs other k = Some v" if "hm_abs m k = Some v" for k v
      using that map_of_SomeD by (fastforce simp: it(4) list_all_iff)
    then show "hm_abs m = hm_abs other"
      using True hm.len_ok [OF assms(1)] hm.len_ok [OF assms(2)] hm.finite_abs [OF assms(2)]
      by (intro map_eq_by_lookup) simp_all
  next
    assume "hm_abs m = hm_abs other"
    then show "list_all ?g (entries_pending (hm_iter m))"
      using map_of_is_SomeI [OF it(3)] it(4) by (auto simp: list_all_iff)
  qed
  ultimately show ?thesis by simp
qed

section \<open>Set operations\<close>

definition hs_abs :: "'t hash_set \<Rightarrow> 't set" where
  "hs_abs s = dom (hm_abs s)"

text \<open>Some allocation limit for which the set is well formed.\<close>

definition hs_ok :: "'t hash_set \<Rightarrow> bool" where
  "hs_ok s \<longleftrightarrow> (\<exists>size_t hasher. hm_ok size_t 0 hasher s)"

lemma hs_contains_ok: "hs_ok s \<Longrightarrow> hs_contains s v = Some (v \<in> hs_abs s)" "hs_ok s \<Longrightarrow> hm_contains_key s v = Some (v \<in> hs_abs s)"
  using hm_find_ok(2) by (auto simp: hs_ok_def hs_contains_def hs_abs_def hm_contains_key_def)

lemma hs_iter_ok:
  assumes "hs_ok s"
  shows "entries_ok (hs_iter s)" "set (keys_pending (hs_iter s)) = hs_abs s" "distinct (keys_pending (hs_iter s))"
  using assms iter_ok [of _ 0 _ s] by (auto simp: hs_ok_def hs_iter_def hs_abs_def)

definition algebra_ok :: "'t algebra_items \<Rightarrow> bool" where
  "algebra_ok = (\<lambda>(other, it). hs_ok other \<and> entries_ok it)"

definition algebra_pending :: "('t set \<Rightarrow> 't \<Rightarrow> bool) \<Rightarrow> 't algebra_items \<Rightarrow> 't list" where
  "algebra_pending keep = (\<lambda>(other, it). filter (keep (hs_abs other)) (keys_pending it))"

lemma algebra_source:
  assumes "\<And>other elt. hs_ok other \<Longrightarrow> f (other, elt) = Some (if keep (hs_abs other) elt then Some elt else None)"
  shows "fallible_source algebra_ok (algebra_pending keep) (filter_map_next f (zip_next repeat_next hm_keys_next))"
proof -
  let ?g = "\<lambda>(other, elt). if keep (hs_abs other) elt then Some elt else None"
  let ?p = "\<lambda>(y, i). map (Pair y) (keys_pending i)"
  have mf: "List.map_filter ?g (map (Pair y) xs) = filter (keep (hs_abs y)) xs" for y and xs :: "'a list"
    by (induction xs) (simp_all add: map_filter_simps)
  then have pend: "(\<lambda>c. List.map_filter ?g (?p c)) = algebra_pending keep"
    by (auto simp: fun_eq_iff algebra_pending_def)
  have inv: "(\<lambda>c. (case c of (y, i) \<Rightarrow> hs_ok y \<and> entries_ok i) \<and> (\<forall>x \<in> set (?p c). f x = Some (?g x))) = algebra_ok"
    using assms by (auto simp: fun_eq_iff algebra_ok_def)
  show ?thesis
    by (rule source_eq [OF fallible_source.filter_map_source [OF hm_keys.zip_repeat_source [of hs_ok], of f ?g] inv pend])
qed

interpretation hs_differences: fallible_source algebra_ok "algebra_pending (\<lambda>B x. x \<notin> B)" hs_difference_next
  unfolding hs_difference_next_def by (rule algebra_source) (simp add: hs_contains_ok)

interpretation hs_intersections: fallible_source algebra_ok "algebra_pending (\<lambda>B x. x \<in> B)" hs_intersection_next
  unfolding hs_intersection_next_def by (rule algebra_source) (simp add: hs_contains_ok)

interpretation hs_symmetric_differences: fallible_source "\<lambda>c. algebra_ok (chain_a c) \<and> algebra_ok (chain_b c)"
  "chain_pending (algebra_pending (\<lambda>B x. x \<notin> B)) (algebra_pending (\<lambda>B x. x \<notin> B))" hs_symmetric_difference_next
  unfolding hs_symmetric_difference_next_def
  by (rule chain_source [OF hs_differences.fallible_source_axioms hs_differences.fallible_source_axioms])

interpretation hs_unions: fallible_source "\<lambda>c. entries_ok (chain_a c) \<and> algebra_ok (chain_b c)"
  "chain_pending keys_pending (algebra_pending (\<lambda>B x. x \<notin> B))" hs_union_next
  unfolding hs_union_next_def
  by (rule chain_source [OF hm_keys.fallible_source_axioms hs_differences.fallible_source_axioms])

lemma filter_disjoint: "distinct xs \<Longrightarrow> distinct ys \<Longrightarrow> distinct (xs @ filter (\<lambda>y. y \<notin> set xs) ys)"
  by auto

lemma hs_algebra_ok:
  assumes "hs_ok a" "hs_ok b"
  shows "\<exists>xs. try_collect hs_difference_next (hs_difference a b) = Some xs \<and> distinct xs \<and> set xs = hs_abs a - hs_abs b"
    "\<exists>xs. try_collect hs_intersection_next (hs_intersection a b) = Some xs \<and> distinct xs \<and> set xs = hs_abs a \<inter> hs_abs b"
    "\<exists>xs. try_collect hs_symmetric_difference_next (hs_symmetric_difference a b) = Some xs \<and> distinct xs \<and>
       set xs = (hs_abs a - hs_abs b) \<union> (hs_abs b - hs_abs a)"
    "\<exists>xs. try_collect hs_union_next (hs_union a b) = Some xs \<and> distinct xs \<and> set xs = hs_abs a \<union> hs_abs b"
proof -
  note a = hs_iter_ok [OF assms(1)] and b = hs_iter_ok [OF assms(2)]
  note defs = algebra_ok_def algebra_pending_def chain_pending_def chain_new_def hs_difference_def hs_intersection_def
    hs_symmetric_difference_def hs_union_def
  show "\<exists>xs. try_collect hs_difference_next (hs_difference a b) = Some xs \<and> distinct xs \<and> set xs = hs_abs a - hs_abs b"
    using hs_differences.try_collect_ok [of "hs_difference a b"] a assms by (auto simp: defs)
  show "\<exists>xs. try_collect hs_intersection_next (hs_intersection a b) = Some xs \<and> distinct xs \<and> set xs = hs_abs a \<inter> hs_abs b"
    using hs_intersections.try_collect_ok [of "hs_intersection a b"] a assms by (auto simp: defs)
  show "\<exists>xs. try_collect hs_symmetric_difference_next (hs_symmetric_difference a b) = Some xs \<and> distinct xs \<and>
       set xs = (hs_abs a - hs_abs b) \<union> (hs_abs b - hs_abs a)"
    using hs_symmetric_differences.try_collect_ok [of "hs_symmetric_difference a b"] a b assms by (auto simp: defs)
  show "\<exists>xs. try_collect hs_union_next (hs_union a b) = Some xs \<and> distinct xs \<and> set xs = hs_abs a \<union> hs_abs b"
    using hs_unions.try_collect_ok [of "hs_union a b"] a b assms by (auto simp: defs)
qed

lemma hs_tests_ok:
  assumes "hs_ok a" "hs_ok b"
  shows "hs_is_subset a b = Some (hs_abs a \<subseteq> hs_abs b)" "hs_is_superset a b = Some (hs_abs b \<subseteq> hs_abs a)"
    "hs_is_disjoint a b = Some (hs_abs a \<inter> hs_abs b = {})" "hs_eq a b = Some (hs_abs a = hs_abs b)"
proof -
  note a = hs_iter_ok [OF assms(1)] and b = hs_iter_ok [OF assms(2)]
  note all = hm_keys.iter_all_ok [OF a(1)] and all' = hm_keys.iter_all_ok [OF b(1)]
  show sub: "hs_is_subset a b = Some (hs_abs a \<subseteq> hs_abs b)"
    unfolding hs_is_subset_def by (subst all [where g = "\<lambda>v. v \<in> hs_abs b"]) (auto simp: hs_contains_ok assms a list_all_iff)
  show "hs_is_superset a b = Some (hs_abs b \<subseteq> hs_abs a)"
    unfolding hs_is_superset_def hs_is_subset_def
    by (subst all' [where g = "\<lambda>v. v \<in> hs_abs a"]) (auto simp: hs_contains_ok assms b list_all_iff)
  show "hs_is_disjoint a b = Some (hs_abs a \<inter> hs_abs b = {})"
    unfolding hs_is_disjoint_def
    by (subst all [where g = "\<lambda>v. v \<notin> hs_abs b"]) (auto simp: hs_contains_ok assms a list_all_iff)
  have len: "hs_len s = card (hs_abs s) \<and> finite (hs_abs s)" if "hs_ok s" for s :: "'a hash_set"
    using that hm.len_ok hm.finite_abs by (auto simp: hs_ok_def hs_len_def hs_abs_def)
  have "iter_all (\<lambda>key. hm_contains_key b key) hm_keys_next (hs_iter a) = Some (hs_abs a \<subseteq> hs_abs b)"
    by (subst all [where g = "\<lambda>v. v \<in> hs_abs b"]) (auto simp: hs_contains_ok assms a list_all_iff)
  then show "hs_eq a b = Some (hs_abs a = hs_abs b)"
    using len [OF assms(1)] len [OF assms(2)] card_subset_eq [of "hs_abs b" "hs_abs a"] by (auto simp: hs_eq_def)
qed

end
