(* ===== verification/HashMapProps.thy ===== *)
theory HashMapProps
  imports HashSet
begin

text \<open>
  Hash maps in use: the states a program can reach through the public operations, what is in raw
  memory in them, and the properties of hash maps and hash sets.
\<close>

section \<open>Well-typed tables\<close>

text \<open>
  The three arrays have the length of the table, all hashes are initialised, keys and values exactly
  where the hash is not zero, and the size counts those buckets.
\<close>

definition table_typed :: "('k, 'v) raw_table \<Rightarrow> bool" where
  "table_typed t \<longleftrightarrow>
     length (rt_hashes t) = rt_capacity t \<and> length (rt_keys t) = rt_capacity t \<and> length (rt_vals t) = rt_capacity t \<and>
     list_all (\<lambda>((h, k), v). h \<noteq> None \<and> (h = Some EMPTY_BUCKET \<longleftrightarrow> k = None) \<and> (k = None \<longleftrightarrow> v = None))
       (zip (zip (rt_hashes t) (rt_keys t)) (rt_vals t)) \<and>
     rt_size t = length (filter (\<lambda>h. h \<noteq> Some EMPTY_BUCKET) (rt_hashes t))"

lemma zip_map3: "zip (zip (map f xs) (map g xs)) (map h xs) = map (\<lambda>x. ((f x, g x), h x)) xs"
  by (induction xs) auto

lemma table_typed_of:
  assumes "safe_hashes bs"
  shows "table_typed (rt_of bs)"
proof -
  have ne: "Some (EMPTY_BUCKET, e) \<notin> set bs" for e
    using assms by (cases e) (auto simp: safe_hashes_def EMPTY_BUCKET_def)
  then have "filter ((\<lambda>h. h \<noteq> Some EMPTY_BUCKET) \<circ> (\<lambda>b. Some (case b of None \<Rightarrow> 0 | Some (h, _) \<Rightarrow> h))) bs =
      filter (\<lambda>b. b \<noteq> None) bs"
    by (auto intro!: filter_cong simp: EMPTY_BUCKET_def split: option.splits)
  with ne show ?thesis
    by (auto simp: table_typed_def rt_of_def occupied_def filter_map zip_map3 list_all_iff EMPTY_BUCKET_def split: option.splits)
qed

lemma hm_ok_typed: "hm_ok size_k size_v hasher m \<Longrightarrow> table_typed (hm_table m)"
  by (erule hm_okE) (simp add: table_typed_of keyed_safe [OF hm_rep_keyed])

section \<open>Reachable maps\<close>

text \<open>
  The maps that the operations lead to, from a new map on.  Operations that add an entry are used below
  the limit on the number of entries, so that a table of twice the capacity could be allocated.  A query
  of another type hashes as the one key it is equivalent to; it is only used through its hash and the
  equivalence, so that \<open>()\<close> stands for it.
\<close>

inductive hm_reach :: "uint \<Rightarrow> uint \<Rightarrow> ('k \<Rightarrow> 64 word) \<Rightarrow> ('k, 'v) hash_map \<Rightarrow> bool"
  for size_k size_v hasher where
  create: "2 * max 32 c \<le> hm_max_capacity size_k size_v \<Longrightarrow> with_capacity_and_hasher size_k size_v c hasher = Some m \<Longrightarrow>
    hm_reach size_k size_v hasher m"
| swap: "hm_reach size_k size_v hasher m \<Longrightarrow> hm_len m < hm_limit size_k size_v \<Longrightarrow>
    hm_swap size_k size_v m k v = Some (r, m') \<Longrightarrow> hm_reach size_k size_v hasher m'"
| pop: "hm_reach size_k size_v hasher m \<Longrightarrow> hm_pop size_k size_v m k = Some (r, m') \<Longrightarrow> hm_reach size_k size_v hasher m'"
| pop_equiv: "hm_reach size_k size_v hasher m \<Longrightarrow> hash_q () = hasher k \<Longrightarrow> (\<And>k'. eqv () k' \<longleftrightarrow> k' = k) \<Longrightarrow>
    hm_pop_equiv size_k size_v m hash_q eqv () = Some (r, m') \<Longrightarrow> hm_reach size_k size_v hasher m'"
| clear: "hm_reach size_k size_v hasher m \<Longrightarrow> hm_clear m = Some m' \<Longrightarrow> hm_reach size_k size_v hasher m'"
| reserve: "hm_reach size_k size_v hasher m \<Longrightarrow> 2 * max 32 c \<le> hm_max_capacity size_k size_v \<Longrightarrow>
    hm_reserve size_k size_v m c = Some m' \<Longrightarrow> hm_reach size_k size_v hasher m'"
| find_or_insert: "hm_reach size_k size_v hasher m \<Longrightarrow> hm_len m < hm_limit size_k size_v \<Longrightarrow>
    find_or_insert size_k size_v m k v = Some (i, m') \<Longrightarrow> hm_reach size_k size_v hasher m'"
| insert_or_update: "hm_reach size_k size_v hasher m \<Longrightarrow> hm_len m < hm_limit size_k size_v \<Longrightarrow>
    insert_or_update_with size_k size_v m k v f = Some (i, m') \<Longrightarrow> hm_reach size_k size_v hasher m'"
| write_ref: "hm_reach size_k size_v hasher m \<Longrightarrow> hm_find_mut m k = Some (Some (v, set_ref)) \<Longrightarrow>
    hm_reach size_k size_v hasher (set_ref w)"

lemma find_mut_ok:
  assumes "hm_ok size_k size_v hasher m"
  shows "case hm_abs m k of
      None \<Rightarrow> hm_find_mut m k = Some None
    | Some v \<Rightarrow> \<exists>set_ref. hm_find_mut m k = Some (Some (v, set_ref)) \<and>
        (\<forall>w. hm_ok size_k size_v hasher (set_ref w) \<and> hm_abs (set_ref w) = (hm_abs m)(k \<mapsto> w))"
  using assms
proof (cases rule: hm_search_cases [of _ _ _ _ k])
  case (present i h v)
  then show ?thesis using hm_ref_ok [OF assms present(3)] by (auto simp: hm_find_mut_def)
qed (simp add: hm_find_mut_def)

lemma new_map_ok:
  assumes "2 * max 32 c \<le> hm_max_capacity size_k size_v"
  shows "\<exists>m. with_capacity_and_hasher size_k size_v c hasher = Some m \<and> hm_ok size_k size_v hasher m \<and> hm_abs m = (Map.empty :: 'k \<rightharpoonup> 'v)"
proof -
  from assms obtain cap K where "next_power_of_two (of_nat (max 32 c)) = Some cap" "unat cap = 2 ^ K"
    "unat cap \<le> hm_max_capacity size_k size_v" by (rule reserve_power)
  then show ?thesis by (rule with_capacity_ok)
qed

lemma reserved_ok:
  assumes "hm_ok size_k size_v hasher m" "2 * max 32 c \<le> hm_max_capacity size_k size_v"
  shows "\<exists>m'. hm_reserve size_k size_v m c = Some m' \<and> hm_ok size_k size_v hasher m' \<and> hm_abs m' = hm_abs m \<and>
    c \<le> rt_capacity (hm_table m')"
proof -
  from assms(2) obtain cap K where cap: "next_power_of_two (of_nat (max 32 c)) = Some cap" "unat cap = 2 ^ K"
    "unat cap \<le> hm_max_capacity size_k size_v" "max 32 c \<le> unat cap" by (rule reserve_power)
  from reserve_ok [OF assms(1) cap(1-3)] cap(4) show ?thesis by auto
qed

lemma reach_ok: "hm_reach size_k size_v hasher m \<Longrightarrow> hm_ok size_k size_v hasher m"
proof (induction rule: hm_reach.induct)
  case (create c m)
  obtain m0 :: "('a, 'b) hash_map" where "with_capacity_and_hasher size_k size_v c hasher = Some m0" "hm_ok size_k size_v hasher m0"
    using new_map_ok [OF create(1)] by blast
  with create(2) show ?case by simp
next
  case (swap m k v r m')
  then show ?case using hm_swap_ok [OF swap.IH, of k v] hm.len_ok [OF swap.IH] by auto
next
  case (pop m k r m')
  then show ?case using hm_pop_ok [OF pop.IH, of k] by auto
next
  case (pop_equiv m hash_q k eqv r m')
  then show ?case using pop_equiv_ok [OF pop_equiv.IH, of hash_q "()" k eqv] by auto
next
  case (clear m m')
  then show ?case using hm_clear_ok [OF clear.IH] by auto
next
  case (reserve m c m')
  then show ?case using reserved_ok [OF reserve.IH reserve(2)] by auto
next
  case (find_or_insert m k v i m')
  then show ?case using find_or_insert_ok [OF find_or_insert.IH, of k v] hm.len_ok [OF find_or_insert.IH] by auto
next
  case (insert_or_update m k v f i m')
  then show ?case using insert_or_update_ok [OF insert_or_update.IH, of k v f] hm.len_ok [OF insert_or_update.IH] by auto
next
  case (write_ref m k v set_ref w)
  then show ?case using find_mut_ok [OF write_ref.IH, of k] by (cases "hm_abs m k") auto
qed

section \<open>Properties\<close>

text \<open>
  C34. \<open>HashMap\<close> is a finite map.  A new map can be made when twice the requested capacity can be
  allocated, and then every sequence of \<open>swap\<close>, \<open>pop\<close>, \<open>find\<close>, \<open>len\<close> and \<open>clear\<close> calls returns what the same
  calls on a finite map return, whatever the hash function: no entry is lost or duplicated when
  buckets are stolen, shifted back or moved to a larger or smaller table.
\<close>

theorem hash_map_refines:
  fixes hasher :: "'k \<Rightarrow> 64 word" and ops :: "('k, 'v) map_op list"
  assumes "2 * max 32 c \<le> hm_max_capacity size_k size_v" "swaps ops \<le> hm_limit size_k size_v"
  shows "\<exists>m m'. with_capacity_and_hasher size_k size_v c hasher = Some m \<and>
    map_run (map_step hm_len hm_find (hm_swap size_k size_v) (hm_pop size_k size_v) hm_clear) ops m =
      Some (fst (spec_run ops Map.empty), m') \<and>
    hm_abs m' = snd (spec_run ops Map.empty)"
proof -
  obtain m :: "('k, 'v) hash_map" where m: "with_capacity_and_hasher size_k size_v c hasher = Some m"
    "hm_ok size_k size_v hasher m" "hm_abs m = Map.empty" using new_map_ok [OF assms(1)] by blast
  from hm.run_ok [OF m(2), of ops] m(3) assms(2) show ?thesis using m(1) by auto
qed

theorem hash_map_refines_witness:
  "\<exists>m m' :: (nat, nat) hash_map. with_capacity_and_hasher 8 8 0 (\<lambda>_. 0) = Some m \<and>
    map_run (map_step hm_len hm_find (hm_swap 8 8) (hm_pop 8 8) hm_clear)
      [MapSwap 1 2, MapSwap 3 4, MapPop 1, MapFind 3, MapSwap 3 5, MapLen] m =
      Some ([Val None, Val None, Val (Some 2), Val (Some 4), Val (Some 4), Count 1], m')"
proof -
  have "hm_max_capacity 8 8 = uint_max div 8" by (simp add: hm_max_capacity_def)
  then have "2 * max 32 0 \<le> hm_max_capacity 8 8"
    "swaps [MapSwap 1 2, MapSwap 3 4, MapPop 1, MapFind 3, MapSwap 3 5, MapLen :: (nat, nat) map_op] \<le> hm_limit 8 8"
    by (simp_all add: hm_limit_def uint_max_def)
  from hash_map_refines [OF this, of "\<lambda>_. 0"] show ?thesis by (auto simp: insert_Diff_if)
qed

text \<open>
  C35. The raw tables of hash maps are well typed.  In every map that the operations lead to, the arrays
  have the length of the table, hashes are initialised, keys and values exactly in the buckets with a
  hash, the capacity is a power of two and the size counts the entries; and no operation then reads
  uninitialised memory, runs out of probes or fails an assertion.
\<close>

theorem hash_map_type_safe:
  assumes "hm_reach size_k size_v hasher m"
  shows "table_typed (hm_table m) \<and> (\<exists>K. rt_capacity (hm_table m) = 2 ^ K) \<and>
    hm_find m k \<noteq> None \<and> hm_find_mut m k \<noteq> None \<and> hm_pop size_k size_v m k \<noteq> None \<and> hm_clear m \<noteq> None \<and>
    (hm_len m < hm_limit size_k size_v \<longrightarrow>
      hm_swap size_k size_v m k v \<noteq> None \<and> find_or_insert size_k size_v m k v \<noteq> None \<and>
      insert_or_update_with size_k size_v m k v f \<noteq> None) \<and>
    (2 * max 32 c \<le> hm_max_capacity size_k size_v \<longrightarrow> hm_reserve size_k size_v m c \<noteq> None)"
proof (intro conjI impI)
  note ok = reach_ok [OF assms]
  show "table_typed (hm_table m)" by (rule hm_ok_typed [OF ok])
  from ok show "\<exists>K. rt_capacity (hm_table m) = 2 ^ K" by (rule hm_okE) (auto simp: hm_rep_def hm_buckets_def)
  show "hm_find m k \<noteq> None" "hm_pop size_k size_v m k \<noteq> None" "hm_clear m \<noteq> None"
    using hm_find_ok(1) [OF ok, of k] hm_pop_ok [OF ok, of k] hm_clear_ok [OF ok] by auto
  show "hm_find_mut m k \<noteq> None" using find_mut_ok [OF ok, of k] by (auto split: option.splits)
  show "hm_swap size_k size_v m k v \<noteq> None" "find_or_insert size_k size_v m k v \<noteq> None"
      "insert_or_update_with size_k size_v m k v f \<noteq> None" if "hm_len m < hm_limit size_k size_v"
    using hm_swap_ok [OF ok, of k v] find_or_insert_ok [OF ok, of k v] insert_or_update_ok [OF ok, of k v f] that
      hm.len_ok [OF ok] by auto
  show "hm_reserve size_k size_v m c \<noteq> None" if "2 * max 32 c \<le> hm_max_capacity size_k size_v"
    using reserved_ok [OF ok that] by auto
qed

theorem hash_map_type_safe_witness:
  "\<exists>m :: (nat, nat) hash_map. with_capacity_and_hasher 8 8 100 of_nat = Some m \<and> table_typed (hm_table m) \<and>
    hm_swap 8 8 m 7 1 \<noteq> None \<and> hm_reserve 8 8 m 1000 \<noteq> None"
proof -
  have cap: "hm_max_capacity 8 8 = uint_max div 8" by (simp add: hm_max_capacity_def)
  then have fits: "2 * max 32 100 \<le> hm_max_capacity 8 8" by (simp add: uint_max_def)
  obtain m :: "(nat, nat) hash_map" where m: "with_capacity_and_hasher 8 8 100 of_nat = Some m" "hm_ok 8 8 of_nat m"
    "hm_abs m = Map.empty" using new_map_ok [OF fits] by blast
  have "hm_len m = 0" using hm.len_ok [OF m(2)] m(3) by simp
  with hash_map_type_safe [OF hm_reach.create [OF fits m(1)], of 7 1 undefined 1000] cap m(1) show ?thesis
    by (simp add: hm_limit_def uint_max_def)
qed

text \<open>
  C36. Iterating over a hash map delivers each entry once, by reference and by value, and \<open>==\<close> on hash maps
  is equality of finite maps: it does not depend on the capacity, the order of the buckets or the
  hash functions of the two maps.
\<close>

theorem hash_map_entries:
  assumes "hm_reach size_k size_v hasher m" "hm_reach size_k' size_v' hasher' other"
  shows "(\<exists>xs. try_collect table_next (hm_iter m) = Some xs \<and> try_collect hm_move_next (hm_iter m) = Some xs \<and>
      distinct (map fst xs) \<and> map_of xs = hm_abs m \<and> length xs = hm_len m) \<and>
    hm_eq (=) m other = Some (hm_abs m = hm_abs other)"
proof -
  note ok = reach_ok [OF assms(1)] reach_ok [OF assms(2)]
  note it = iter_ok [OF ok(1)]
  show ?thesis using hm_entries.try_collect_ok [OF it(1)] hm_moves.try_collect_ok [OF it(2)] it(3-5) hm_eq_ok [OF ok]
    by simp
qed

theorem hash_map_entries_witness:
  "\<exists>m other :: (nat, nat) hash_map. with_capacity_and_hasher 8 8 0 (\<lambda>_. 0) = Some m \<and>
     with_capacity_and_hasher 8 8 100 of_nat = Some other \<and> hm_eq (=) m other = Some True"
proof -
  have cap: "hm_max_capacity 8 8 = uint_max div 8" by (simp add: hm_max_capacity_def)
  then have fits: "2 * max 32 0 \<le> hm_max_capacity 8 8" "2 * max 32 100 \<le> hm_max_capacity 8 8" by (simp_all add: uint_max_def)
  obtain m :: "(nat, nat) hash_map" where m: "with_capacity_and_hasher 8 8 0 (\<lambda>_. 0) = Some m" "hm_abs m = Map.empty"
    using new_map_ok [OF fits(1)] by blast
  obtain other :: "(nat, nat) hash_map" where other: "with_capacity_and_hasher 8 8 100 of_nat = Some other" "hm_abs other = Map.empty"
    using new_map_ok [OF fits(2)] by blast
  from hash_map_entries [OF hm_reach.create [OF fits(1) m(1)] hm_reach.create [OF fits(2) other(1)]] m other show ?thesis by auto
qed

text \<open>
  C37. The set operations of \<open>HashSet\<close>: the iterators of the difference, intersection, symmetric difference
  and union end and deliver each element of the set in question once; the subset, superset, disjointness
  and equality tests decide these relations.
\<close>

theorem hash_set_algebra:
  assumes "hm_reach size_t 0 hasher a" "hm_reach size_t 0 hasher' b"
  shows "(\<exists>xs. try_collect hs_difference_next (hs_difference a b) = Some xs \<and> distinct xs \<and> set xs = hs_abs a - hs_abs b) \<and>
    (\<exists>xs. try_collect hs_intersection_next (hs_intersection a b) = Some xs \<and> distinct xs \<and> set xs = hs_abs a \<inter> hs_abs b) \<and>
    (\<exists>xs. try_collect hs_symmetric_difference_next (hs_symmetric_difference a b) = Some xs \<and> distinct xs \<and>
       set xs = (hs_abs a - hs_abs b) \<union> (hs_abs b - hs_abs a)) \<and>
    (\<exists>xs. try_collect hs_union_next (hs_union a b) = Some xs \<and> distinct xs \<and> set xs = hs_abs a \<union> hs_abs b) \<and>
    hs_is_subset a b = Some (hs_abs a \<subseteq> hs_abs b) \<and> hs_is_superset a b = Some (hs_abs b \<subseteq> hs_abs a) \<and>
    hs_is_disjoint a b = Some (hs_abs a \<inter> hs_abs b = {}) \<and> hs_eq a b = Some (hs_abs a = hs_abs b)"
proof -
  have "hs_ok a" "hs_ok b" using reach_ok [OF assms(1)] reach_ok [OF assms(2)] by (auto simp: hs_ok_def)
  from hs_algebra_ok [OF this] hs_tests_ok [OF this] show ?thesis by simp
qed

theorem hash_set_algebra_witness:
  "\<exists>a b :: nat hash_set. hs_with_capacity_and_hasher 8 0 of_nat = Some a \<and>
     map_option snd (hs_insert 8 a 5) = Some b \<and> hs_is_subset a b = Some True \<and> hs_eq a b = Some False"
proof -
  have cap: "hm_max_capacity 8 0 = uint_max div 8" by (simp add: hm_max_capacity_def)
  then have fits: "2 * max 32 0 \<le> hm_max_capacity 8 0" by (simp add: uint_max_def)
  obtain a :: "nat hash_set" where a: "with_capacity_and_hasher 8 0 0 of_nat = Some a" "hm_ok 8 0 of_nat a" "hm_abs a = Map.empty"
    using new_map_ok [OF fits] by blast
  have len: "hm_len a < hm_limit 8 0" using hm.len_ok [OF a(2)] a(3) cap by (simp add: hm_limit_def uint_max_def)
  obtain b where b: "hm_swap 8 0 a 5 () = Some (None, b)" "hm_abs b = [5 \<mapsto> ()]"
    using hm_swap_ok [OF a(2), of 5 "()"] len hm.len_ok [OF a(2)] a(3) by auto
  note reach = hm_reach.create [OF fits a(1)]
  from hash_set_algebra [OF reach hm_reach.swap [OF reach len b(1)]] a b show ?thesis
    by (auto simp: hs_abs_def hs_with_capacity_and_hasher_def hs_insert_def hm_insert_def insert_default_def)
qed

end
