(* ===== verification/Spec2Isabelle.thy ===== *)
theory Spec2Isabelle
  imports RegionErrors UnifySnapshots TreeSet RingBuf SliceSort HashMapProps
begin

text \<open>
  A verification development for parts of the Rust compiler of April 2014 and of the libraries it is
  built on.  Paths below are relative to \<^verbatim>\<open>src/src/\<close>.

  \<^bold>\<open>The program.\<close>  \<open>librustc\<close> compiles a crate in passes.  The part modelled here decides
  lifetimes: the pass over the syntax tree records in \<open>RegionMaps\<close> how scopes nest and which lifetime
  parameters outlive which (\<^verbatim>\<open>librustc/middle/region.rs\<close>); type checking collects subregion
  constraints between region variables, can take snapshots and roll them back, and finally solves the
  constraints by fixed-point iteration and by walking a constraint graph for errors
  (\<^verbatim>\<open>librustc/middle/typeck/infer/region_inference/mod.rs\<close>, with the graph of
  \<^verbatim>\<open>librustc/middle/graph.rs\<close>).  Beside region variables the type checker has type, integer and float
  variables in union-find tables (\<^verbatim>\<open>librustc/middle/typeck/infer/unify.rs\<close>), under the same snapshots.
  All of this stands on the containers of \<open>libcollections\<close> and \<open>libstd\<close>: maps, sets, queues, sorting
  and iterators.

  \<^bold>\<open>How code is modelled.\<close>  A struct is a record, an enum a datatype, a method a function on
  the state that returns the new state.  A task failure (a failed bounds check, \<open>assert!\<close>, \<open>fail!\<close>, a
  compiler bug), undefined behaviour of unsafe code and a loop that does not end are all \<open>None\<close>; a
  theorem that shows \<open>Some\<close> therefore shows that the code returns and that its unsafe code is used
  safely.  Errors the code reports are values (\<open>Result\<close> is a sum).  Loops that are not structurally
  recursive are \<open>partial_function (option)\<close>; there is no fuel anywhere.  Numbers of type \<open>uint\<close> are
  64-bit words or natural numbers; where the code can wrap around, the wrap-around is
  written out.  A hash table that the code iterates over is an association list in arbitrary order, and the
  theorems hold for every order.

  \<^bold>\<open>Theories, sources and results.\<close>

  \<^item> \<open>Prelude\<close>, \<open>Loops\<close>: machine sizes, checked vectors, three-way comparison, stable sorting, and the
    loop shapes that several files share.  The locale \<open>sweep_body\<close> is the contract of a body run until
    nothing changes (the body is total, makes a measure smaller when it changes something); it proves
    termination of the iteration once for the three loops that instantiate it.
  \<^item> \<open>Graph\<close> (\<^verbatim>\<open>librustc/middle/graph.rs\<close>): nodes and edges in vectors, adjacency as chains of edge
    indices.  In graphs built with \<open>add_node\<close> and \<open>add_edge\<close> the walk along a chain ends and visits
    exactly the adjacent edges; the fixed-point iteration ends in a stable state.
  \<^item> \<open>Regions\<close> (\<^verbatim>\<open>librustc/middle/ty.rs\<close>, \<^verbatim>\<open>libsyntax/ast.rs\<close>) and \<open>RegionMaps\<close>
    (\<^verbatim>\<open>librustc/middle/region.rs\<close>): region types and the scope tables with every operation on them.
    The nearest common ancestor of scopes, the search over related free regions and the scope of a
    temporary are right; the subregion test is a preorder.  Scopes are assumed to form a forest, which
    the pass that records them guarantees; a table with a cycle makes the loops diverge.
  \<^item> \<open>RegionLattice\<close>, \<open>RegionConstraints\<close>, \<open>RegionResolve\<close>, \<open>RegionErrors\<close>
    (\<^verbatim>\<open>region_inference/mod.rs\<close>): bounds of concrete regions; variables, constraints, combination maps,
    undo log and taint propagation; expansion, contraction and error collection; and what the whole of
    \<open>resolve_regions\<close> guarantees.  A snapshot is restored exactly; expansion ends with the least
    values; without an error all constraints hold; errors name real conflicts.  Three theorems exhibit
    the cases in which the code falls short (a compiler bug on a satisfiable system, a lower bound
    reported as an upper one, a constraint silently violated).
  \<^item> \<open>Unify\<close>, \<open>UnifySnapshots\<close> (\<^verbatim>\<open>infer/unify.rs\<close>, \<^verbatim>\<open>infer/mod.rs\<close>): union-find tables with path
    compression and ranks, the operations on integer and float variables, snapshots of the inference
    context.  Unification is that of equivalence classes; a rollback restores the roots, but not
    the paths that were compressed, and a theorem shows what this breaks.
  \<^item> \<open>Containers\<close> (\<^verbatim>\<open>libstd/container.rs\<close>): the provided methods of the map traits and the contracts
    \<open>mutable_map\<close>, \<open>forward_iterator\<close>, \<open>double_ended_iterator\<close>, interpreted by \<open>SmallIntMap\<close>
    (\<^verbatim>\<open>libcollections/smallintmap.rs\<close>), \<open>TreeMap\<close>, \<open>TreeIter\<close> and \<open>TreeSet\<close>
    (\<^verbatim>\<open>libcollections/treemap.rs\<close>): finite maps and sets, balanced trees, iterators
    and lazy set operations.
  \<^item> \<open>PowerOfTwo\<close> (\<^verbatim>\<open>libstd/num/mod.rs\<close>), \<open>Deques\<close> (\<^verbatim>\<open>libcollections/deque.rs\<close>) and \<open>RingBuf\<close>
    (\<^verbatim>\<open>libcollections/ringbuf.rs\<close>): the contract \<open>deque\<close> and the circular buffer that fulfils it as long
    as its capacity is a power of two that can be doubled in memory; a theorem shows that other
    capacities lose elements.
  \<^item> \<open>RawMem\<close> and \<open>SliceSort\<close> (\<^verbatim>\<open>libstd/ptr.rs\<close>, \<^verbatim>\<open>libstd/slice.rs\<close>): allocations as lists of cells
    that may be uninitialised, and the merge sort that works on them with raw pointers; it is the stable
    sort for every total comparison (locale \<open>total_compare\<close>), and binary search finds what it sorted.
  \<^item> \<open>BoundedMap\<close>, \<open>IterAdapters\<close> (\<^verbatim>\<open>libstd/iter.rs\<close>), \<open>HashTable\<close>, \<open>HashMap\<close>, \<open>RobinHood\<close>,
    \<open>HashMapRefine\<close>, \<open>HashSet\<close>, \<open>HashMapProps\<close> (\<^verbatim>\<open>libcollections/hashmap.rs\<close>): the raw table of three
    parallel arrays, Robin Hood insertion and backward-shift removal on it, resizing, iteration,
    equality and set operations.  The ordering invariant of the buckets is local, which makes every
    search stop early and right; from it follows that a hash map is a finite map (locale
    \<open>bounded_map\<close>) for every hash function, that its memory is well typed, and that the adapters
    deliver the set operations.

  \<^bold>\<open>Bounds.\<close>  Allocation sizes are computed in 64 bits and checked by the code; theorems about
  containers that grow assume that the bytes they need can be counted (\<open>rb_limit\<close> for the ring
  buffer, \<open>hm_limit\<close> for hash maps: a quarter of the largest power of two of buckets whose arrays
  fit in the address space).  These bounds are as large as the code supports up to a constant factor, and no
  machine reaches them.  Lists of other vectors have no bound.

  \<^bold>\<open>Not modelled.\<close>  Everything that works on the syntax tree or on the full type language (parser,
  resolution, type checking and its relations on types, borrow checking, lints, metadata, code
  generation, documentation): each pass is a traversal of data types with hundreds of constructors,
  so that only the tables below the passes are modelled.  Input and output, tasks,
  synchronisation, the runtimes and bindings to C are interactions with the system.  Code generation
  calls into LLVM, which is not part of the sources.  Destructors of elements, iterators
  over mutable references (their traversal is that of the shared ones, which are modelled) and printing are left out.
\<close>

end
